(* ===== verification/Xbks_Prelude.thy ===== *)
theory Xbks_Prelude
  imports Main "HOL-Library.Word" "HOL-Library.Monad_Syntax"
begin

text \<open>
  Shared vocabulary of the development: the machine integers of the C sources as words, the
  byte-addressed memory that every kernel pointer refers to, little-endian accesses to it, page
  arithmetic, and C arrays as lists whose reads and writes are checked.

  A \<^typ>\<open>64 word \<Rightarrow> 8 word\<close> memory is indexed by kernel virtual address (the address a C pointer
  holds). A C array object is an \<^typ>\<open>8 word list\<close>; a pointer into it is the suffix that starts at
  the pointed-to element, so that reading past the end of the object is the value \<^term>\<open>None\<close>.
\<close>

unbundle bit_operations_syntax

type_synonym u8 = "8 word"
type_synonym u16 = "16 word"
type_synonym u32 = "32 word"
type_synonym u64 = "64 word"
type_synonym mem = "u64 \<Rightarrow> u8"

named_theorems page_simps \<open>evaluation of page and block alignment\<close>
named_theorems mem_simps \<open>reading a memory after a write to it\<close>
named_theorems cbuf_simps \<open>checked array accesses and C strings\<close>

section \<open>Definitions\<close>

subsection \<open>Alignment (the same two helpers of mm/mm.c and kernel/process.c)\<close>

definition align_up :: "u64 \<Rightarrow> u64 \<Rightarrow> u64" where
  "align_up value alignment = (value + alignment - 1) AND NOT (alignment - 1)"

definition align_down :: "u64 \<Rightarrow> u64 \<Rightarrow> u64" where
  "align_down value alignment = value AND NOT (alignment - 1)"

abbreviation XBKS_PAGE_SIZE :: u64 where "XBKS_PAGE_SIZE \<equiv> 4096"

definition aligned_page :: "u64 \<Rightarrow> bool" where
  "aligned_page a \<longleftrightarrow> a AND (XBKS_PAGE_SIZE - 1) = 0"

subsection \<open>Little-endian accesses of n bytes\<close>

fun load_le :: "mem \<Rightarrow> u64 \<Rightarrow> nat \<Rightarrow> u64" where
  "load_le m a 0 = 0"
| "load_le m a (Suc n) = ucast (m a) OR push_bit 8 (load_le m (a + 1) n)"

fun store_le :: "mem \<Rightarrow> u64 \<Rightarrow> nat \<Rightarrow> u64 \<Rightarrow> mem" where
  "store_le m a 0 v = m"
| "store_le m a (Suc n) v = store_le (m(a := ucast v)) (a + 1) n (drop_bit 8 v)"

abbreviation load64 :: "mem \<Rightarrow> u64 \<Rightarrow> u64" where "load64 m a \<equiv> load_le m a 8"
abbreviation store64 :: "mem \<Rightarrow> u64 \<Rightarrow> u64 \<Rightarrow> mem" where "store64 m a v \<equiv> store_le m a 8 v"

text \<open>The bytes of the block of \<open>n\<close> bytes at \<open>a\<close> (modulo the width of an address).\<close>

definition in_block :: "u64 \<Rightarrow> nat \<Rightarrow> u64 \<Rightarrow> bool" where
  "in_block a n x \<longleftrightarrow> unat (x - a) < n"

subsection \<open>Loops that a failing body leaves\<close>

text \<open>
  \<^verbatim>\<open>for (i ...) { if (!body(i)) return false; } return true;\<close> over the values of \<open>i\<close>, in order.
\<close>

fun for_each :: "'a list \<Rightarrow> ('a \<Rightarrow> 's \<Rightarrow> bool \<times> 's) \<Rightarrow> 's \<Rightarrow> bool \<times> 's" where
  "for_each [] body s = (True, s)"
| "for_each (i # is) body s =
     (case body i s of (ok, s') \<Rightarrow> if ok then for_each is body s' else (False, s'))"

definition indices :: "nat \<Rightarrow> nat \<Rightarrow> u64 list" where
  "indices lo hi = map of_nat [lo..<hi]"

subsection \<open>C arrays and C strings\<close>

definition getb :: "'a list \<Rightarrow> nat \<Rightarrow> 'a option" where
  "getb xs i = (if i < length xs then Some (xs ! i) else None)"

definition setb :: "'a list \<Rightarrow> nat \<Rightarrow> 'a \<Rightarrow> 'a list option" where
  "setb xs i v = (if i < length xs then Some (xs[i := v]) else None)"

text \<open>The text of a NUL-terminated array, and that an array is NUL-terminated.\<close>

definition cstr :: "u8 list \<Rightarrow> u8 list" where
  "cstr buf = takeWhile (\<lambda>c. c \<noteq> 0) buf"

definition terminated :: "u8 list \<Rightarrow> bool" where
  "terminated buf \<longleftrightarrow> 0 \<in> set buf"

text \<open>A string literal of the source: its characters and the terminating NUL.\<close>

definition lit :: "string \<Rightarrow> u8 list" where
  "lit s = map (\<lambda>c. of_nat (of_char c)) s @ [0]"

definition chr :: "char \<Rightarrow> u8" where
  "chr c = of_nat (of_char c)"

section \<open>Counting loops over machine words\<close>

lemma unat_inc: "i < (n :: 'a::len word) \<Longrightarrow> unat (i + 1) = Suc (unat i)"
  by unat_arith

lemma word_loop_measure:
  "i < (n :: 'a::len word) \<Longrightarrow> unat n - unat (i + 1) < unat n - unat i"
  by (simp add: unat_inc word_less_nat_alt diff_less_mono2)

lemma unat_max64: "unat (- 1 :: u64) = 2 ^ 64 - 1"
  by (simp add: unsigned_minus_1_eq_mask mask_eq_exp_minus_1)

lemma uint_inj [simp]: "uint (a :: 'a::len word) = uint b \<longleftrightarrow> a = b"
  by (simp add: word_uint_eq_iff)

lemma uint_zero [simp]: "uint (a :: 'a::len word) = 0 \<longleftrightarrow> a = 0"
  by (simp add: uint_0_iff)

lemma offset_Suc: "x \<noteq> a \<Longrightarrow> unat (x - a) = Suc (unat (x - (a + 1)))" for x a :: u64
proof -
  assume "x \<noteq> a"
  then have "unat (x - a - 1) = unat (x - a) - 1" and "unat (x - a) \<noteq> 0"
    by (simp_all add: unat_minus_one unat_eq_0)
  then show ?thesis by (simp add: diff_diff_eq)
qed

section \<open>Alignment\<close>

lemma unat_and_mask: "unat (x AND mask k) = unat x mod 2 ^ k" for x :: "'a::len word"
  by (simp only: take_bit_eq_mask [symmetric] unsigned_take_bit_eq) (simp add: take_bit_eq_mod)

lemma unat_and_not_mask: "unat (x AND NOT (mask k)) = unat x div 2 ^ k * 2 ^ k"
  for x :: "'a::len word"
proof -
  have "x AND NOT (mask k) = push_bit k (drop_bit k x)"
    by (rule bit_word_eqI) (auto simp: bit_simps)
  then have "unat (x AND NOT (mask k)) = take_bit LENGTH('a) (push_bit k (drop_bit k (unat x)))"
    by (simp only: unsigned_push_bit_eq unsigned_drop_bit_eq)
      (simp add: take_bit_push_bit unsigned_drop_bit_eq take_bit_nat_eq_self)
  also have "\<dots> = unat x div 2 ^ k * 2 ^ k"
  proof -
    have "unat x div 2 ^ k * 2 ^ k \<le> unat x" by simp
    also have "\<dots> < 2 ^ LENGTH('a)" by (rule unsigned_less)
    finally show ?thesis
      by (simp add: take_bit_nat_eq_self push_bit_eq_mult drop_bit_eq_div)
  qed
  finally show ?thesis .
qed

lemma mask_12: "(4095 :: u64) = mask 12"
  by (simp add: mask_eq_exp_minus_1)

lemma aligned_page_iff: "aligned_page a \<longleftrightarrow> 4096 dvd unat a"
  using and_mask_dvd_nat [of 12 a] by (simp add: aligned_page_def mask_12)

lemma unat_page_base [page_simps]: "unat (align_down a 4096) = unat a div 4096 * 4096"
  using unat_and_not_mask [of a 12] by (simp add: align_down_def mask_12)

lemma aligned_page_base [page_simps, simp]: "aligned_page (align_down a 4096)"
  by (simp add: aligned_page_iff unat_page_base)

lemma page_base_id [page_simps]: "aligned_page a \<Longrightarrow> align_down a 4096 = a"
  by (simp add: word_unat_eq_iff unat_page_base aligned_page_iff)

text \<open>A byte lies in the page that starts at an aligned address iff that address is its page base.\<close>

lemma in_page_iff:
  assumes "aligned_page f"
  shows "unat (y - f) < 4096 \<longleftrightarrow> align_down y 4096 = f"
proof -
  obtain q where q: "unat f = 4096 * q" using assms by (auto simp: aligned_page_iff)
  have f: "unat f < 2 ^ 64" and y: "unat y < 2 ^ 64"
    using unsigned_less [of f] unsigned_less [of y] by simp_all
  have "unat (y - f) < 4096 \<longleftrightarrow> unat f \<le> unat y \<and> unat y < unat f + 4096"
    using f y q by (auto simp: unat_sub_if' ; presburger)
  also have "\<dots> \<longleftrightarrow> unat y div 4096 = q"
    using q by auto
  also have "\<dots> \<longleftrightarrow> align_down y 4096 = f"
    using q by (simp add: word_unat_eq_iff unat_page_base)
  finally show ?thesis .
qed

lemma in_block_page:
  "aligned_page f \<Longrightarrow> in_block (f + h) 4096 x \<longleftrightarrow> align_down (x - h) 4096 = f"
  using in_page_iff [of f "x - h"] by (simp add: in_block_def algebra_simps)

lemma blocks_disjoint:
  "aligned_page f \<Longrightarrow> aligned_page g \<Longrightarrow> f \<noteq> g \<Longrightarrow>
   in_block (f + h) 4096 x \<Longrightarrow> \<not> in_block (g + h) 4096 x"
  by (simp add: in_block_page)

section \<open>Loads and stores\<close>

lemma bit_load_le:
  "bit (load_le m a n) k \<longleftrightarrow>
     k < 8 * n \<and> k < 64 \<and> bit (m (a + of_nat (k div 8))) (k mod 8)"
proof (induction n arbitrary: a k)
  case 0
  then show ?case by simp
next
  case (Suc n)
  show ?case
  proof (cases "k < 8")
    case True
    then show ?thesis
      by (auto simp: bit_or_iff bit_push_bit_iff bit_ucast_iff)
  next
    case False
    define j where "j = k - 8"
    have k: "k = j + 8" using False by (simp add: j_def)
    have q: "(j + 8) div 8 = Suc (j div 8)" by simp
    have hi: "\<not> bit (m a) (j + 8)" using bit_imp_le_length [of "m a" "j + 8"] by auto
    show ?thesis
      using hi unfolding k q
      by (auto simp: bit_or_iff bit_push_bit_iff bit_ucast_iff Suc.IH algebra_simps)
  qed
qed

lemma store_le_apply [mem_simps]:
  "n \<le> 2 ^ 64 \<Longrightarrow> store_le m a n v x =
     (if in_block a n x then ucast (drop_bit (8 * unat (x - a)) v) else m x)"
  unfolding in_block_def
proof (induction n arbitrary: m a v)
  case 0
  then show ?case by simp
next
  case (Suc n)
  show ?case
  proof (cases "x = a")
    case True
    then have "\<not> unat (x - (a + 1)) < n" using Suc.prems by (simp add: unat_max64)
    then show ?thesis using True Suc by simp
  next
    case False
    then show ?thesis using Suc offset_Suc [OF False] by (simp add: add.commute)
  qed
qed

lemma load_store_same [mem_simps]:
  "n \<le> 8 \<Longrightarrow> load_le (store_le m a n v) a n = take_bit (8 * n) v"
proof (rule bit_word_eqI)
  fix k assume n: "n \<le> 8" and k: "k < LENGTH(64)"
  have d: "unat (of_nat (k div 8) :: u64) = k div 8" using k by (simp add: unat_of_nat)
  show "bit (load_le (store_le m a n v) a n) k = bit (take_bit (8 * n) v) k"
    using n k d
    by (auto simp: bit_load_le store_le_apply in_block_def bit_take_bit_iff bit_ucast_iff
        bit_drop_bit_eq less_mult_imp_div_less mult.commute)
qed

lemma load64_store64 [mem_simps, simp]: "load64 (store64 m a v) a = v"
  using load_store_same [of 8 m a v] by (simp add: take_bit_word_eq_self)

lemma load_le_cong:
  "(\<And>i. i < n \<Longrightarrow> m (a + of_nat i) = m' (a + of_nat i)) \<Longrightarrow> load_le m a n = load_le m' a n"
  by (rule bit_word_eqI) (auto simp: bit_load_le less_mult_imp_div_less mult.commute)

text \<open>An access inside one block does not see a change outside of it.\<close>

lemma load_le_block:
  assumes agree: "\<And>x. in_block b k x \<Longrightarrow> m x = m' x"
    and within: "unat (a - b) + n \<le> k" and width: "k \<le> 2 ^ 64"
  shows "load_le m a n = load_le m' a n"
proof (rule load_le_cong)
  fix i assume i: "i < n"
  have "unat (a + of_nat i - b) = unat (a - b) + i"
  proof -
    have "unat (of_nat i :: u64) = i" using i within width by (simp add: unat_of_nat)
    moreover have "unat (a - b) + i < 2 ^ 64" using i within width by simp
    moreover have eq: "a + of_nat i - b = (a - b) + of_nat i" by simp
    ultimately show ?thesis
      unfolding eq using unat_add_lem [of "a - b" "of_nat i"] by simp
  qed
  then show "m (a + of_nat i) = m' (a + of_nat i)"
    using i within by (intro agree) (simp add: in_block_def)
qed

lemma load_le_zero: "(\<And>i. i < n \<Longrightarrow> m (a + of_nat i) = 0) \<Longrightarrow> load_le m a n = 0"
  by (rule bit_word_eqI) (auto simp: bit_load_le less_mult_imp_div_less mult.commute)

section \<open>C arrays and strings\<close>

lemma getb_Some [cbuf_simps, simp]: "i < length xs \<Longrightarrow> getb xs i = Some (xs ! i)"
  by (simp add: getb_def)

lemma setb_Some [cbuf_simps, simp]: "i < length xs \<Longrightarrow> setb xs i v = Some (xs[i := v])"
  by (simp add: setb_def)

lemma getb_eq_Some: "getb xs i = Some v \<longleftrightarrow> i < length xs \<and> v = xs ! i"
  by (auto simp: getb_def)

lemma setb_eq_Some: "setb xs i v = Some ys \<longleftrightarrow> i < length xs \<and> ys = xs[i := v]"
  by (auto simp: setb_def)

lemma cstr_append_nul [cbuf_simps, simp]: "0 \<notin> set s \<Longrightarrow> cstr (s @ 0 # r) = s"
  by (auto simp: cstr_def takeWhile_append)

lemma terminated_split:
  "terminated buf \<longleftrightarrow> (\<exists>r. buf = cstr buf @ 0 # r)"
proof
  assume "terminated buf"
  then obtain s r where "buf = s @ 0 # r" "0 \<notin> set s"
    by (auto simp: terminated_def dest: split_list_first)
  then show "\<exists>r. buf = cstr buf @ 0 # r" by auto
next
  assume "\<exists>r. buf = cstr buf @ 0 # r"
  then obtain r where r: "buf = cstr buf @ 0 # r" ..
  have "0 \<in> set (cstr buf @ 0 # r)" by simp
  then show "terminated buf" unfolding terminated_def using r by metis
qed

lemma nul_notin_cstr [simp]: "0 \<notin> set (cstr buf)"
  by (auto simp: cstr_def dest: set_takeWhileD)

lemma terminatedE:
  assumes "terminated buf"
  obtains s r where "buf = s @ 0 # r" "0 \<notin> set s" "cstr buf = s"
  using assms nul_notin_cstr by (metis terminated_split)

lemma terminated_append_nul [cbuf_simps, simp]: "terminated (s @ 0 # r)"
  by (simp add: terminated_def)

lemma length_cstr_less: "terminated buf \<Longrightarrow> length (cstr buf) < length buf"
  by (erule terminatedE) simp

lemma nth_length_cstr: "terminated buf \<Longrightarrow> buf ! length (cstr buf) = 0"
  by (erule terminatedE) simp

end
