(* ===== verification/String_Lib.thy ===== *)
theory String_Lib
  imports Xbks_Prelude
begin

text \<open>
  The freestanding string library, \<^verbatim>\<open>lib/string.c\<close>. The \<^verbatim>\<open>mem*\<close> functions work on the kernel
  memory, byte by byte in the order of the C loops, so that what they do on overlapping blocks is
  what the code does; they are shown equal to the block operations they stand for. The \<^verbatim>\<open>str*\<close>
  functions read C strings: \<^term>\<open>None\<close> is a read past the end of the array object.
  Every \<^verbatim>\<open>mem*\<close> function of the source also returns its \<^verbatim>\<open>dest\<close> argument unchanged, which no
  caller uses; the models return the new memory only.
\<close>

section \<open>Definitions\<close>

function memset_loop :: "mem \<Rightarrow> u64 \<Rightarrow> u8 \<Rightarrow> u64 \<Rightarrow> u64 \<Rightarrow> mem" where
  "memset_loop m dest c count i =
     (if i < count then memset_loop (m(dest + i := c)) dest c count (i + 1) else m)"
  by pat_completeness auto
termination
  by (relation "measure (\<lambda>(m, dest, c, count, i). unat count - unat i)")
    (auto simp: word_loop_measure)

definition memset :: "mem \<Rightarrow> u64 \<Rightarrow> u32 \<Rightarrow> u64 \<Rightarrow> mem" where
  "memset m dest value count = memset_loop m dest (ucast value) count 0"

function memcpy_loop :: "mem \<Rightarrow> u64 \<Rightarrow> u64 \<Rightarrow> u64 \<Rightarrow> u64 \<Rightarrow> mem" where
  "memcpy_loop m dest src count i =
     (if i < count then memcpy_loop (m(dest + i := m (src + i))) dest src count (i + 1) else m)"
  by pat_completeness auto
termination
  by (relation "measure (\<lambda>(m, dest, src, count, i). unat count - unat i)")
    (auto simp: word_loop_measure)

definition memcpy :: "mem \<Rightarrow> u64 \<Rightarrow> u64 \<Rightarrow> u64 \<Rightarrow> mem" where
  "memcpy m dest src count = memcpy_loop m dest src count 0"

function memmove_down :: "mem \<Rightarrow> u64 \<Rightarrow> u64 \<Rightarrow> u64 \<Rightarrow> mem" where
  "memmove_down m dest src i =
     (if i > 0 then memmove_down (m(dest + i - 1 := m (src + i - 1))) dest src (i - 1) else m)"
  by pat_completeness auto
termination
  by (relation "measure (\<lambda>(m, dest, src, i). unat i)")
    (auto simp: unat_minus_one unat_gt_0 word_gt_0)

definition memmove :: "mem \<Rightarrow> u64 \<Rightarrow> u64 \<Rightarrow> u64 \<Rightarrow> mem" where
  "memmove m dest src count =
     (if dest = src \<or> count = 0 then m
      else if dest < src then memcpy_loop m dest src count 0
      else memmove_down m dest src count)"

function memcmp_loop :: "mem \<Rightarrow> u64 \<Rightarrow> u64 \<Rightarrow> u64 \<Rightarrow> u64 \<Rightarrow> int" where
  "memcmp_loop m lhs rhs count i =
     (if i < count
      then if m (lhs + i) \<noteq> m (rhs + i) then uint (m (lhs + i)) - uint (m (rhs + i))
           else memcmp_loop m lhs rhs count (i + 1)
      else 0)"
  by pat_completeness auto
termination
  by (relation "measure (\<lambda>(m, lhs, rhs, count, i). unat count - unat i)")
    (auto simp: word_loop_measure)

definition memcmp :: "mem \<Rightarrow> u64 \<Rightarrow> u64 \<Rightarrow> u64 \<Rightarrow> int" where
  "memcmp m lhs rhs count = memcmp_loop m lhs rhs count 0"

fun strlen :: "u8 list \<Rightarrow> nat option" where
  "strlen [] = None"
| "strlen (c # cs) = (if c \<noteq> 0 then map_option Suc (strlen cs) else Some 0)"

fun strcmp :: "u8 list \<Rightarrow> u8 list \<Rightarrow> int option" where
  "strcmp (l # lhs) (r # rhs) =
     (if l \<noteq> 0 \<and> l = r then strcmp lhs rhs else Some (uint l - uint r))"
| "strcmp lhs rhs = None"

fun strncmp :: "u8 list \<Rightarrow> u8 list \<Rightarrow> nat \<Rightarrow> int option" where
  "strncmp lhs rhs 0 = Some 0"
| "strncmp (l # lhs) (r # rhs) (Suc n) =
     (if l \<noteq> r \<or> l = 0 then Some (uint l - uint r) else strncmp lhs rhs n)"
| "strncmp lhs rhs (Suc n) = None"

declare memset_loop.simps [simp del] memcpy_loop.simps [simp del]
  memmove_down.simps [simp del] memcmp_loop.simps [simp del]

section \<open>Block operations\<close>

lemma offset_inc_iff:
  assumes "i < (n :: u64)"
  shows "unat i \<le> unat (x - d) \<and> unat (x - d) < unat n \<longleftrightarrow>
    x = d + i \<or> unat (i + 1) \<le> unat (x - d) \<and> unat (x - d) < unat n"
proof -
  have "unat (i + 1) = Suc (unat i)" "unat i < unat n"
    using assms by (simp_all add: unat_inc word_less_nat_alt)
  moreover have "x = d + i \<longleftrightarrow> unat (x - d) = unat i"
    by (auto simp: word_unat_eq_iff [symmetric])
  ultimately show ?thesis by auto
qed

lemma memset_loop_apply:
  "memset_loop m d c n i x = (if unat i \<le> unat (x - d) \<and> unat (x - d) < unat n then c else m x)"
proof (induction m d c n i rule: memset_loop.induct)
  case (1 m d c n i)
  show ?case
  proof (cases "i < n")
    case True
    have "memset_loop (m(d + i := c)) d c n (i + 1) x =
      (if unat (i + 1) \<le> unat (x - d) \<and> unat (x - d) < unat n then c else (m(d + i := c)) x)"
      by (rule "1" [OF True])
    then show ?thesis
      using offset_inc_iff [OF True, of x d]
      by (subst memset_loop.simps) (simp add: True)
  next
    case False
    then show ?thesis by (subst memset_loop.simps) (auto simp: word_less_nat_alt)
  qed
qed

lemma memset_apply [mem_simps]:
  "memset m d v n x = (if in_block d (unat n) x then ucast v else m x)"
  by (simp add: memset_def memset_loop_apply in_block_def)

text \<open>The forward copy, when no byte still to be read has been overwritten.\<close>

lemma memcpy_loop_apply:
  assumes "\<And>k. i \<le> k \<Longrightarrow> k < n \<Longrightarrow> unat k < unat (s + k - d) \<or> unat n \<le> unat (s + k - d) \<or> s = d"
  shows "memcpy_loop m d s n i x =
    (if unat i \<le> unat (x - d) \<and> unat (x - d) < unat n then m (s + (x - d)) else m x)"
  using assms
proof (induction m d s n i rule: memcpy_loop.induct)
  case (1 m d s n i)
  show ?case
  proof (cases "i < n")
    case True
    let ?m = "m(d + i := m (s + i))"
    have step: "unat (i + 1) = Suc (unat i)" using True by (rule unat_inc)
    have IH: "memcpy_loop ?m d s n (i + 1) x =
      (if unat (i + 1) \<le> unat (x - d) \<and> unat (x - d) < unat n then ?m (s + (x - d)) else ?m x)"
      using "1.prems" step by (intro "1.IH" [OF True]) (auto simp: word_le_nat_alt)
    have later: "?m (s + (x - d)) = m (s + (x - d))"
      if "unat (i + 1) \<le> unat (x - d)" "unat (x - d) < unat n"
    proof -
      have "i \<le> x - d" "x - d < n" using that step by (auto simp: word_le_nat_alt word_less_nat_alt)
      from "1.prems" [OF this] have "s + (x - d) - d \<noteq> i \<or> s = d"
        using that step by auto
      then show ?thesis using that step by auto
    qed
    show ?thesis
      using IH later offset_inc_iff [OF True, of x d]
      by (subst memcpy_loop.simps) (auto simp: True)
  next
    case False
    then show ?thesis by (subst memcpy_loop.simps) (auto simp: word_less_nat_alt)
  qed
qed

lemma memcpy_apply [mem_simps]:
  assumes disj: "\<And>y. in_block d (unat n) y \<Longrightarrow> \<not> in_block s (unat n) y"
  shows "memcpy m d s n x = (if in_block d (unat n) x then m (s + (x - d)) else m x)"
proof -
  have "unat k < unat (s + k - d) \<or> unat n \<le> unat (s + k - d) \<or> s = d" if "k < n" for k
    using disj [of "s + k"] that by (auto simp: in_block_def word_less_nat_alt)
  then show ?thesis
    unfolding memcpy_def in_block_def by (subst memcpy_loop_apply) auto
qed

text \<open>The backward copy reads every byte before it is overwritten when the target lies above.\<close>

lemma memmove_down_apply:
  assumes "\<And>k. k < i \<Longrightarrow> unat (s + k - d) \<le> unat k \<or> unat i \<le> unat (s + k - d)"
  shows "memmove_down m d s i x = (if unat (x - d) < unat i then m (s + (x - d)) else m x)"
  using assms
proof (induction m d s i rule: memmove_down.induct)
  case (1 m d s i)
  show ?case
  proof (cases "0 < i")
    case True
    let ?m = "m(d + i - 1 := m (s + i - 1))"
    have i: "unat (i - 1) = unat i - 1" "0 < unat i"
      using True by (auto simp: unat_minus_one unat_gt_0)
    have prem: "unat (s + k - d) \<le> unat k \<or> unat (i - 1) \<le> unat (s + k - d)" if "k < i - 1" for k
    proof -
      have "k < i" using that i by (simp add: word_less_nat_alt)
      from "1.prems" [OF this] show ?thesis using i by auto
    qed
    have IH: "memmove_down ?m d s (i - 1) x =
        (if unat (x - d) < unat (i - 1) then ?m (s + (x - d)) else ?m x)"
      by (rule "1.IH" [OF True prem])
    have last: "x = d + i - 1 \<longleftrightarrow> unat (x - d) = unat i - 1"
    proof -
      have "x = d + i - 1 \<longleftrightarrow> x - d = i - 1" by (auto simp: algebra_simps)
      also have "\<dots> \<longleftrightarrow> unat (x - d) = unat i - 1" by (simp add: word_unat_eq_iff i)
      finally show ?thesis .
    qed
    have early: "?m (s + (x - d)) = m (s + (x - d))" if "unat (x - d) < unat (i - 1)"
    proof -
      have "x - d < i" using that i by (simp add: word_less_nat_alt)
      from "1.prems" [OF this] have "unat (s + (x - d) - d) \<noteq> unat (i - 1)"
        using that i by auto
      moreover have "unat (s + (x - d) - d) = unat (i - 1)" if "s + (x - d) = d + i - 1"
        unfolding that by simp
      ultimately show ?thesis by auto
    qed
    have at_last: "s + i - 1 = s + (x - d)" if "x = d + i - 1"
      using that by simp
    have unfold: "memmove_down m d s i x = memmove_down ?m d s (i - 1) x"
      using True by (subst memmove_down.simps) simp
    consider "unat (x - d) < unat (i - 1)" | "unat (x - d) = unat i - 1" | "unat i \<le> unat (x - d)"
      using i by linarith
    then show ?thesis
    proof cases
      case 1
      then have "unat (x - d) < unat i" using i by linarith
      then show ?thesis unfolding unfold IH using early 1 by simp
    next
      case 2
      then show ?thesis unfolding unfold IH using last at_last i by (simp add: add_diff_eq)
    next
      case 3
      then have "x \<noteq> d + i - 1" "\<not> unat (x - d) < unat (i - 1)" using last i by auto
      then show ?thesis unfolding unfold IH using 3 by simp
    qed
  next
    case False
    then show ?thesis by (subst memmove_down.simps) (simp add: word_gt_0)
  qed
qed

lemma memmove_apply [mem_simps]:
  assumes d: "unat d + unat n \<le> 2 ^ 64" and s: "unat s + unat n \<le> 2 ^ 64"
  shows "memmove m d s n x = (if in_block d (unat n) x then m (s + (x - d)) else m x)"
proof -
  have src: "unat (s + k) = unat s + unat k" if "k < n" for k
    using s that unat_add_lem [of s k] by (simp add: word_less_nat_alt)
  have up: "unat k < unat (s + k - d)" if "d < s" "k < n" for k
    using src [OF that(2)] that(1) by (simp add: unat_sub_if' word_less_nat_alt)
  have down: "unat (s + k - d) \<le> unat k \<or> unat n \<le> unat (s + k - d)" if "\<not> d < s" "k < n" for k
    using src [OF that(2)] that(1) d by (auto simp: unat_sub_if' word_less_nat_alt)
  consider "d = s \<or> n = 0" | "d < s" "d \<noteq> s" "n \<noteq> 0" | "\<not> d < s" "d \<noteq> s" "n \<noteq> 0" by blast
  then show ?thesis
  proof cases
    case 1
    then show ?thesis by (auto simp: memmove_def in_block_def)
  next
    case 2
    then show ?thesis using up
      by (simp add: memmove_def in_block_def memcpy_loop_apply)
  next
    case 3
    then show ?thesis using down
      by (simp add: memmove_def in_block_def memmove_down_apply)
  qed
qed

section \<open>Comparison and C strings\<close>

lemma memcmp_loop_zero:
  "memcmp_loop m l r n i = 0 \<longleftrightarrow> (\<forall>k. i \<le> k \<and> k < n \<longrightarrow> m (l + k) = m (r + k))"
proof (induction m l r n i rule: memcmp_loop.induct)
  case (1 m l r n i)
  show ?case
  proof (cases "i < n")
    case True
    have "i \<le> k \<longleftrightarrow> k = i \<or> i + 1 \<le> k" for k
      using unat_inc [OF True] by (auto simp: word_le_nat_alt word_unat_eq_iff)
    then show ?thesis
      using True "1" by (subst memcmp_loop.simps) auto
  next
    case False
    then show ?thesis by (subst memcmp_loop.simps) auto
  qed
qed

lemma strlen_cstr [cbuf_simps]: "terminated buf \<Longrightarrow> strlen buf = Some (length (cstr buf))"
  by (induction buf) (auto simp: terminated_def cstr_def)

lemma strcmp_cstr [cbuf_simps]:
  "terminated a \<Longrightarrow> terminated b \<Longrightarrow>
   \<exists>r. strcmp a b = Some r \<and> (r = 0 \<longleftrightarrow> cstr a = cstr b)"
proof (induction a b rule: strcmp.induct)
  case (1 l lhs r rhs)
  then show ?case by (auto simp: terminated_def cstr_def)
qed (auto simp: terminated_def)

lemma strncmp_cstr [cbuf_simps]:
  "terminated a \<Longrightarrow> terminated b \<Longrightarrow>
   \<exists>r. strncmp a b n = Some r \<and> (r = 0 \<longleftrightarrow> take n (cstr a) = take n (cstr b))"
proof (induction a b n rule: strncmp.induct)
  case (2 l lhs r rhs n)
  then show ?case by (auto simp: terminated_def cstr_def)
qed (auto simp: terminated_def)

section \<open>Properties\<close>

text \<open>
  Property C33. \<^verbatim>\<open>memmove\<close> copies a block correctly however source and target overlap: when
  neither block wraps around the end of the address space, every byte of the target block holds the
  byte the source block held before the call, and no other byte changes.
\<close>

theorem memmove_correct:
  assumes "unat d + unat n \<le> 2 ^ 64" and "unat s + unat n \<le> 2 ^ 64"
  shows "memmove m d s n = (\<lambda>x. if in_block d (unat n) x then m (s + (x - d)) else m x)"
  using memmove_apply [OF assms] by (rule ext)

theorem memmove_correct_witness:
  "memmove (\<lambda>a. ucast a) 0x101 0x100 2 =
     (\<lambda>x. if in_block 0x101 2 x then ucast (0x100 + (x - 0x101)) else ucast x)"
  using memmove_correct [of "0x101" 2 "0x100" "\<lambda>a. ucast a"] by simp

end
