(* ===== verification/Pmm.thy ===== *)
theory Pmm
  imports String_Lib
begin

text \<open>
  The physical memory manager, the first half of \<^verbatim>\<open>mm/mm.c\<close>: the free frames form a linked list
  threaded through the frames themselves, each reached through the higher-half direct map. The
  abstract view of that list is the list of its frame addresses (\<open>pmm_inv\<close>); allocation is its
  \<open>tl\<close> and freeing its \<open>(#)\<close>.
\<close>

section \<open>State and operations\<close>

record mm_state =
  kmem :: mem
  hhdm_offset_value :: u64
  kernel_cr3_value :: u64
  free_frames :: u64 \<comment> \<open>pointer to the first \<^verbatim>\<open>struct free_frame\<close>, 0 for none\<close>
  free_frame_count :: u64
  cr3 :: u64 \<comment> \<open>the CPU register behind \<^verbatim>\<open>xbks_read_cr3\<close> and \<^verbatim>\<open>xbks_write_cr3\<close>\<close>

definition xbks_read_cr3 :: "mm_state \<Rightarrow> u64" where
  "xbks_read_cr3 s = cr3 s"

definition xbks_write_cr3 :: "u64 \<Rightarrow> mm_state \<Rightarrow> mm_state" where
  "xbks_write_cr3 v s = s\<lparr>cr3 := v\<rparr>"

definition xbks_hhdm_offset :: "mm_state \<Rightarrow> u64" where
  "xbks_hhdm_offset s = hhdm_offset_value s"

definition xbks_phys_to_virt :: "mm_state \<Rightarrow> u64 \<Rightarrow> u64" where
  "xbks_phys_to_virt s physical_address = physical_address + hhdm_offset_value s"

definition xbks_virt_to_phys :: "mm_state \<Rightarrow> u64 \<Rightarrow> u64" where
  "xbks_virt_to_phys s virtual_address = virtual_address - hhdm_offset_value s"

definition xbks_kernel_cr3 :: "mm_state \<Rightarrow> u64" where
  "xbks_kernel_cr3 s = kernel_cr3_value s"

definition xbks_pmm_alloc_frame :: "mm_state \<Rightarrow> u64 \<times> mm_state" where
  "xbks_pmm_alloc_frame s =
     (if free_frames s = 0 then (0, s)
      else
        let frame = free_frames s;
            s1 = s\<lparr>free_frames := load64 (kmem s) frame,
                   free_frame_count := free_frame_count s - 1\<rparr>;
            physical = xbks_virt_to_phys s1 frame
        in (physical, s1\<lparr>kmem := memset (kmem s1) frame 0 XBKS_PAGE_SIZE\<rparr>))"

definition xbks_pmm_free_frame :: "u64 \<Rightarrow> mm_state \<Rightarrow> mm_state" where
  "xbks_pmm_free_frame frame s =
     (if frame = 0 then s
      else
        let node = xbks_phys_to_virt s (align_down frame XBKS_PAGE_SIZE)
        in s\<lparr>kmem := store64 (kmem s) node (free_frames s),
             free_frames := node,
             free_frame_count := free_frame_count s + 1\<rparr>)"

text \<open>
  The loop of \<^verbatim>\<open>add_usable_range\<close>; \<^term>\<open>None\<close> stands for a loop that does not end, which the
  wrap-around of \<^verbatim>\<open>frame + XBKS_PAGE_SIZE\<close> makes possible in principle.
\<close>

partial_function (option) add_usable_loop :: "u64 \<Rightarrow> u64 \<Rightarrow> mm_state \<Rightarrow> mm_state option" where
  "add_usable_loop frame end s =
     (if frame + XBKS_PAGE_SIZE \<le> end
      then add_usable_loop (frame + XBKS_PAGE_SIZE) end (xbks_pmm_free_frame frame s)
      else Some s)"

definition add_usable_range :: "u64 \<Rightarrow> u64 \<Rightarrow> mm_state \<Rightarrow> mm_state option" where
  "add_usable_range base len s =
     add_usable_loop (align_up base XBKS_PAGE_SIZE)
       (align_down (base + len) XBKS_PAGE_SIZE) s"

section \<open>The free list as a list of frames\<close>

fun free_chain :: "mem \<Rightarrow> u64 \<Rightarrow> u64 \<Rightarrow> u64 list \<Rightarrow> bool" where
  "free_chain m h p [] \<longleftrightarrow> p = 0"
| "free_chain m h p (f # fs) \<longleftrightarrow> p = f + h \<and> p \<noteq> 0 \<and> free_chain m h (load64 m p) fs"

definition usable_frame :: "mm_state \<Rightarrow> u64 \<Rightarrow> bool" where
  "usable_frame s f \<longleftrightarrow> aligned_page f \<and> f \<noteq> 0 \<and> f + hhdm_offset_value s \<noteq> 0"

definition pmm_inv :: "mm_state \<Rightarrow> u64 list \<Rightarrow> bool" where
  "pmm_inv s fs \<longleftrightarrow>
     free_chain (kmem s) (hhdm_offset_value s) (free_frames s) fs \<and>
     distinct fs \<and> (\<forall>f \<in> set fs. usable_frame s f) \<and>
     free_frame_count s = of_nat (length fs)"

abbreviation page_at :: "mm_state \<Rightarrow> u64 \<Rightarrow> u64 \<Rightarrow> bool" where
  "page_at s f x \<equiv> in_block (f + hhdm_offset_value s) 4096 x"

lemma free_chain_cong:
  assumes "\<And>f x. f \<in> set fs \<Longrightarrow> in_block (f + h) 4096 x \<Longrightarrow> m x = m' x"
  shows "free_chain m h p fs = free_chain m' h p fs"
  using assms
proof (induction fs arbitrary: p)
  case Nil
  then show ?case by simp
next
  case (Cons f fs)
  have "load64 m (f + h) = load64 m' (f + h)"
    by (rule load_le_block [of "f + h" 4096]) (auto intro: Cons.prems [of f])
  moreover have "free_chain m h q fs = free_chain m' h q fs" for q
    using Cons.prems by (intro Cons.IH) auto
  ultimately show ?case unfolding free_chain.simps by metis
qed

lemma pmm_inv_usable: "pmm_inv s fs \<Longrightarrow> f \<in> set fs \<Longrightarrow> usable_frame s f"
  by (simp add: pmm_inv_def)

lemma usable_frame_aligned: "usable_frame s f \<Longrightarrow> aligned_page f"
  and usable_frame_nonzero: "usable_frame s f \<Longrightarrow> f \<noteq> 0"
  by (simp_all add: usable_frame_def)

lemma pmm_inv_count: "pmm_inv s fs \<Longrightarrow> unat (free_frame_count s) = length fs"
proof -
  assume inv: "pmm_inv s fs"
  have "length fs = card (set fs)" using inv by (simp add: pmm_inv_def distinct_card)
  also have "\<dots> \<le> card (UNIV - {0 :: u64})"
    using inv by (intro card_mono) (auto simp: pmm_inv_def usable_frame_def)
  also have "\<dots> < 2 ^ 64" by (simp add: card_word)
  finally show ?thesis using inv by (simp add: pmm_inv_def unat_of_nat)
qed

subsection \<open>Allocation\<close>

lemma alloc_empty: "pmm_inv s [] \<Longrightarrow> xbks_pmm_alloc_frame s = (0, s)"
  by (simp add: pmm_inv_def xbks_pmm_alloc_frame_def)

lemma alloc_head:
  assumes "pmm_inv s (f # fs)"
  shows "xbks_pmm_alloc_frame s =
    (f, s\<lparr>free_frames := load64 (kmem s) (f + hhdm_offset_value s),
          free_frame_count := free_frame_count s - 1,
          kmem := memset (kmem s) (f + hhdm_offset_value s) 0 4096\<rparr>)"
  using assms by (auto simp: pmm_inv_def xbks_pmm_alloc_frame_def xbks_virt_to_phys_def Let_def)

lemma alloc_inv:
  assumes inv: "pmm_inv s (f # fs)"
  shows "pmm_inv (snd (xbks_pmm_alloc_frame s)) fs"
proof -
  let ?h = "hhdm_offset_value s"
  have chain: "free_chain (kmem s) ?h (load64 (kmem s) (f + ?h)) fs"
    using inv by (auto simp: pmm_inv_def)
  have "free_chain (memset (kmem s) (f + ?h) 0 4096) ?h (load64 (kmem s) (f + ?h)) fs"
  proof (subst free_chain_cong)
    fix g x assume g: "g \<in> set fs" and x: "in_block (g + ?h) 4096 x"
    have "f \<noteq> g" "aligned_page f" "aligned_page g"
      using inv g by (auto simp: pmm_inv_def usable_frame_def)
    then show "memset (kmem s) (f + ?h) 0 4096 x = kmem s x"
      using blocks_disjoint [of g f ?h x] x by (simp add: memset_apply)
  qed (rule chain)
  then show ?thesis
    using inv unfolding alloc_head [OF inv] by (auto simp: pmm_inv_def usable_frame_def)
qed

lemma alloc_mem:
  assumes inv: "pmm_inv s (f # fs)"
  shows "kmem (snd (xbks_pmm_alloc_frame s)) x = (if page_at s f x then 0 else kmem s x)"
  by (simp add: alloc_head [OF inv] memset_apply)

lemma alloc_static [simp]:
  "hhdm_offset_value (snd (xbks_pmm_alloc_frame s)) = hhdm_offset_value s"
  "kernel_cr3_value (snd (xbks_pmm_alloc_frame s)) = kernel_cr3_value s"
  "cr3 (snd (xbks_pmm_alloc_frame s)) = cr3 s"
  by (simp_all add: xbks_pmm_alloc_frame_def Let_def)

subsection \<open>Freeing\<close>

lemma free_static [simp]:
  "hhdm_offset_value (xbks_pmm_free_frame f s) = hhdm_offset_value s"
  "kernel_cr3_value (xbks_pmm_free_frame f s) = kernel_cr3_value s"
  "cr3 (xbks_pmm_free_frame f s) = cr3 s"
  by (simp_all add: xbks_pmm_free_frame_def Let_def)

lemma usable_frame_free [simp]: "usable_frame (xbks_pmm_free_frame g s) f = usable_frame s f"
  by (simp add: usable_frame_def)

lemma free_mem:
  assumes "aligned_page f" "\<not> page_at s f x"
  shows "kmem (xbks_pmm_free_frame f s) x = kmem s x"
  using assms
  by (simp add: xbks_pmm_free_frame_def xbks_phys_to_virt_def page_base_id Let_def store_le_apply
      in_block_def)

lemma free_inv:
  assumes inv: "pmm_inv s fs" and f: "usable_frame s f" "f \<notin> set fs"
  shows "pmm_inv (xbks_pmm_free_frame f s) (f # fs)"
proof -
  let ?h = "hhdm_offset_value s"
  let ?s = "xbks_pmm_free_frame f s"
  have eq: "?s = s\<lparr>kmem := store64 (kmem s) (f + ?h) (free_frames s), free_frames := f + ?h,
      free_frame_count := free_frame_count s + 1\<rparr>"
    using f by (simp add: xbks_pmm_free_frame_def xbks_phys_to_virt_def page_base_id usable_frame_def
        Let_def)
  have "free_chain (kmem ?s) ?h (free_frames s) fs"
  proof (subst free_chain_cong)
    fix g x assume g: "g \<in> set fs" and x: "in_block (g + ?h) 4096 x"
    have "g \<noteq> f" "aligned_page g" "aligned_page f"
      using f g inv by (auto simp: pmm_inv_def usable_frame_def)
    then show "kmem ?s x = kmem s x"
      using blocks_disjoint [of g f ?h x] x by (simp add: free_mem)
  qed (use inv in \<open>simp add: pmm_inv_def\<close>)
  then show ?thesis
    using inv f by (auto simp: eq pmm_inv_def usable_frame_def)
qed

section \<open>The frame pool interface\<close>

text \<open>
  What the paging code and the process loader rely on: a pool of frames from which \<open>alloc\<close> takes
  one, 0 meaning that there is none, and to which \<open>free\<close> returns one.
\<close>

locale frame_pool =
  fixes alloc :: "'s \<Rightarrow> u64 \<times> 's" and free :: "u64 \<Rightarrow> 's \<Rightarrow> 's"
    and pool :: "'s \<Rightarrow> u64 list \<Rightarrow> bool" and usable :: "'s \<Rightarrow> u64 \<Rightarrow> bool"
  assumes alloc_none: "pool s [] \<Longrightarrow> alloc s = (0, s)"
    and alloc_some: "pool s (f # fs) \<Longrightarrow> fst (alloc s) = f \<and> pool (snd (alloc s)) fs"
    and free_some: "pool s fs \<Longrightarrow> usable s f \<Longrightarrow> f \<notin> set fs \<Longrightarrow> pool (free f s) (f # fs)"
    and pool_usable: "pool s fs \<Longrightarrow> f \<in> set fs \<Longrightarrow> usable s f \<and> f \<noteq> 0"
    and pool_distinct: "pool s fs \<Longrightarrow> distinct fs"
    and usable_kept: "usable (snd (alloc s)) f \<longleftrightarrow> usable s f" "usable (free g s) f \<longleftrightarrow> usable s f"
begin

lemma alloc_fails_iff: "pool s fs \<Longrightarrow> fst (alloc s) = 0 \<longleftrightarrow> fs = []"
  using alloc_none alloc_some pool_usable by (cases fs) fastforce+

lemma alloc_cases:
  assumes "pool s fs"
  obtains "fs = []" "alloc s = (0, s)"
  | f gs s' where "fs = f # gs" "alloc s = (f, s')" "pool s' gs" "f \<noteq> 0" "f \<notin> set gs" "usable s f"
proof (cases fs)
  case Nil
  then show ?thesis using assms alloc_none that(1) by simp
next
  case (Cons f gs)
  with assms have "alloc s = (f, snd (alloc s))" "pool (snd (alloc s)) gs" "f \<noteq> 0" "f \<notin> set gs"
      "usable s f"
    using alloc_some [of s f gs] pool_usable [of s fs f] pool_distinct [of s fs]
    by (auto simp: prod_eq_iff)
  then show ?thesis using Cons that(2) by blast
qed

lemma free_then_alloc:
  "pool s fs \<Longrightarrow> usable s f \<Longrightarrow> f \<notin> set fs \<Longrightarrow>
   fst (alloc (free f s)) = f \<and> pool (snd (alloc (free f s))) fs"
  using free_some alloc_some by blast

lemma alloc_then_free:
  "pool s (f # fs) \<Longrightarrow> pool (free f (snd (alloc s))) (f # fs)"
  using alloc_some [of s f fs] free_some pool_usable [of s "f # fs" f] pool_distinct [of s "f # fs"]
  by (simp add: usable_kept)

lemma free_list:
  "pool s fs \<Longrightarrow> distinct gs \<Longrightarrow> set gs \<inter> set fs = {} \<Longrightarrow> \<forall>g \<in> set gs. usable s g \<Longrightarrow>
   pool (fold free gs s) (rev gs @ fs)"
proof (induction gs arbitrary: s fs)
  case Nil
  then show ?case by simp
next
  case (Cons g gs)
  have "pool (free g s) (g # fs)" using Cons.prems by (intro free_some) auto
  then have "pool (fold free gs (free g s)) (rev gs @ g # fs)"
    using Cons.prems by (intro Cons.IH) (auto simp: usable_kept)
  then show ?case by simp
qed

end

interpretation pmm: frame_pool xbks_pmm_alloc_frame xbks_pmm_free_frame pmm_inv usable_frame
proof (unfold_locales, goal_cases)
  case (1 s)
  then show ?case by (rule alloc_empty)
next
  case (2 s f fs)
  then show ?case by (simp add: alloc_inv) (simp add: alloc_head)
next
  case (3 s fs f)
  then show ?case by (rule free_inv)
next
  case (4 s fs f)
  then show ?case using pmm_inv_usable usable_frame_nonzero by blast
next
  case (5 s fs)
  then show ?case by (simp add: pmm_inv_def)
qed (simp_all add: usable_frame_def)

section \<open>Usable ranges of the memory map\<close>

definition whole_pages :: "nat \<Rightarrow> nat \<Rightarrow> u64 set" where
  "whole_pages lo hi = {f. aligned_page f \<and> f \<noteq> 0 \<and> lo \<le> unat f \<and> unat f + 4096 \<le> hi}"

lemma whole_pages_step:
  assumes "aligned_page f" "unat f + 4096 \<le> hi"
  shows "whole_pages (unat f) hi = (if f = 0 then {} else {f}) \<union> whole_pages (unat f + 4096) hi"
proof (rule set_eqI)
  fix g
  have step: "unat f + 4096 \<le> unat g" if "aligned_page g" "unat f < unat g"
    using assms(1) that by (auto simp: aligned_page_iff elim!: dvdE)
  consider "g = f" | "unat g < unat f" | "unat f < unat g" "g \<noteq> f"
    by (meson linorder_neqE_nat word_unat_eq_iff)
  then show "g \<in> whole_pages (unat f) hi \<longleftrightarrow>
    g \<in> (if f = 0 then {} else {f}) \<union> whole_pages (unat f + 4096) hi"
    by cases (use assms step in \<open>auto simp: whole_pages_def\<close>)
qed

lemma add_usable_loop_spec:
  assumes "aligned_page frame" "unat frame + 8192 \<le> 2 ^ 64" "unat end + 8192 \<le> 2 ^ 64"
    and "pmm_inv s fs"
    and "\<forall>f \<in> whole_pages (unat frame) (unat end). usable_frame s f \<and> f \<notin> set fs"
  shows "\<exists>s' gs. add_usable_loop frame end s = Some s' \<and> pmm_inv s' (gs @ fs) \<and>
    set gs = whole_pages (unat frame) (unat end)"
  using assms
proof (induction "unat end - unat frame" arbitrary: frame s fs rule: less_induct)
  case less
  have inc: "unat (frame + 4096) = unat frame + 4096"
    using less.prems(2) unat_add_lem [of frame 4096] by simp
  show ?case
  proof (cases "frame + 4096 \<le> end")
    case False
    then have "whole_pages (unat frame) (unat end) = {}"
      using inc by (auto simp: whole_pages_def word_le_nat_alt)
    then show ?thesis
      using False less.prems(4) by (subst add_usable_loop.simps) force
  next
    case True
    then have le: "unat frame + 4096 \<le> unat end" using inc by (simp add: word_le_nat_alt)
    let ?s = "xbks_pmm_free_frame frame s"
    let ?new = "if frame = 0 then [] else [frame]"
    note pages = whole_pages_step [OF less.prems(1) le]
    have inv: "pmm_inv ?s (?new @ fs)"
    proof (cases "frame = 0")
      case True
      then show ?thesis using less.prems(4) by (simp add: xbks_pmm_free_frame_def)
    next
      case False
      then have "frame \<in> whole_pages (unat frame) (unat end)"
        using less.prems(1) le by (simp add: whole_pages_def)
      then have "usable_frame s frame" "frame \<notin> set fs"
        using less.prems(5) by blast+
      with less.prems(4) have "pmm_inv ?s (frame # fs)" by (rule free_inv)
      then show ?thesis using False by simp
    qed
    have al: "aligned_page (frame + 4096)"
      using less.prems(1) inc by (simp add: aligned_page_iff)
    have "\<exists>s' gs. add_usable_loop (frame + 4096) end ?s = Some s' \<and> pmm_inv s' (gs @ ?new @ fs) \<and>
        set gs = whole_pages (unat (frame + 4096)) (unat end)"
    proof (rule less.hyps)
      show "unat end - unat (frame + 4096) < unat end - unat frame" using inc le by simp
      show "\<forall>f \<in> whole_pages (unat (frame + 4096)) (unat end).
          usable_frame ?s f \<and> f \<notin> set (?new @ fs)"
      proof
        fix g assume g: "g \<in> whole_pages (unat (frame + 4096)) (unat end)"
        then have "g \<in> whole_pages (unat frame) (unat end)" "g \<noteq> frame"
          unfolding inc whole_pages_def by auto
        then show "usable_frame ?s g \<and> g \<notin> set (?new @ fs)"
          using less.prems(5) by simp
      qed
      show "unat (frame + 4096) + 8192 \<le> 2 ^ 64" using inc le less.prems(3) by simp
    qed (use al inv less.prems(3) in auto)
    then obtain s' gs where *: "add_usable_loop (frame + 4096) end ?s = Some s'"
        "pmm_inv s' ((gs @ ?new) @ fs)" "set gs = whole_pages (unat frame + 4096) (unat end)"
      using inc by auto
    have "set (gs @ ?new) = whole_pages (unat frame) (unat end)"
      using *(3) pages by auto
    moreover have "add_usable_loop frame end s = Some s'"
      using True *(1) by (subst add_usable_loop.simps) simp
    ultimately show ?thesis using *(2) by blast
  qed
qed

lemma unat_align_up_page:
  assumes "unat a + 4096 \<le> 2 ^ 64"
  shows "unat (align_up a 4096) = (unat a + 4095) div 4096 * 4096"
proof -
  have "align_up a 4096 = align_down (a + 4095) 4096"
    by (simp add: align_up_def align_down_def algebra_simps)
  moreover have "unat (a + 4095) = unat a + 4095"
    using assms unat_add_lem [of a 4095] by simp
  ultimately show ?thesis by (simp add: unat_page_base)
qed

lemma whole_pages_aligned_bounds:
  "whole_pages ((lo + 4095) div 4096 * 4096) (hi div 4096 * 4096) = whole_pages lo hi"
proof (rule set_eqI)
  fix f
  show "f \<in> whole_pages ((lo + 4095) div 4096 * 4096) (hi div 4096 * 4096) \<longleftrightarrow> f \<in> whole_pages lo hi"
  proof (cases "aligned_page f")
    case True
    then obtain q where q: "unat f = 4096 * q" by (auto simp: aligned_page_iff)
    have hi: "Suc q \<le> hi div 4096 \<longleftrightarrow> Suc q * 4096 \<le> hi"
      by (rule less_eq_div_iff_mult_less_eq) simp
    have lo: "(lo + 4095) div 4096 < Suc q \<longleftrightarrow> lo + 4095 < Suc q * 4096"
      by (rule div_less_iff_less_mult) simp
    have up: "4096 * q + 4096 \<le> h * 4096 \<longleftrightarrow> Suc q \<le> h"
      and down: "h * 4096 \<le> 4096 * q \<longleftrightarrow> h < Suc q" for h
      by linarith+
    have "4096 * q + 4096 \<le> hi div 4096 * 4096 \<longleftrightarrow> 4096 * q + 4096 \<le> hi"
      unfolding up hi by (simp add: algebra_simps)
    moreover have "(lo + 4095) div 4096 * 4096 \<le> 4096 * q \<longleftrightarrow> lo \<le> 4096 * q"
      unfolding down lo by (simp add: less_Suc_eq_le mult.commute)
    ultimately show ?thesis by (simp add: whole_pages_def q)
  qed (simp add: whole_pages_def)
qed

lemma add_usable_range_spec:
  assumes "unat base + unat len + 8192 < 2 ^ 64" and "pmm_inv s fs"
    and "\<forall>f \<in> whole_pages (unat base) (unat base + unat len). usable_frame s f \<and> f \<notin> set fs"
  shows "\<exists>s' gs. add_usable_range base len s = Some s' \<and> pmm_inv s' (gs @ fs) \<and>
    set gs = whole_pages (unat base) (unat base + unat len)"
proof -
  let ?start = "align_up base 4096" and ?stop = "align_down (base + len) 4096"
  have start: "unat ?start = (unat base + 4095) div 4096 * 4096"
    using assms(1) by (intro unat_align_up_page) simp
  have sum: "unat (base + len) = unat base + unat len"
    using assms(1) unat_add_lem [of base len] by simp
  have pages: "whole_pages (unat ?start) (unat ?stop) = whole_pages (unat base) (unat base + unat len)"
    by (simp add: start sum unat_page_base whole_pages_aligned_bounds)
  have "unat ?start + 8192 \<le> 2 ^ 64" "unat ?stop + 8192 \<le> 2 ^ 64"
    using assms(1) by (simp_all add: start unat_page_base sum)
  moreover have "aligned_page ?start"
    by (simp add: aligned_page_iff start)
  ultimately show ?thesis
    using add_usable_loop_spec [of ?start ?stop s fs] assms(2,3)
    unfolding pages add_usable_range_def by blast
qed

section \<open>A small machine for the witnesses\<close>

text \<open>
  Memory full of zeros, the direct map of a Limine kernel, the kernel's tables at 0x9000, and the
  frames 0x1000 to 0x5000 given to the allocator.
\<close>

definition boot_mm :: mm_state where
  "boot_mm = \<lparr>kmem = (\<lambda>_. 0), hhdm_offset_value = 0xffff800000000000, kernel_cr3_value = 0x9000,
     free_frames = 0, free_frame_count = 0, cr3 = 0x9000\<rparr>"

definition five_frames :: mm_state where
  "five_frames = fold xbks_pmm_free_frame [0x5000, 0x4000, 0x3000, 0x2000, 0x1000] boot_mm"

lemma boot_mm_pool: "pmm_inv boot_mm []"
  by (simp add: pmm_inv_def boot_mm_def)

lemma five_frames_pool: "pmm_inv five_frames [0x1000, 0x2000, 0x3000, 0x4000, 0x5000]"
  using pmm.free_list [OF boot_mm_pool, of "[0x5000, 0x4000, 0x3000, 0x2000, 0x1000]"]
  unfolding five_frames_def by (simp add: usable_frame_def aligned_page_def boot_mm_def)

lemma five_frames_static:
  "hhdm_offset_value five_frames = 0xffff800000000000" "kernel_cr3_value five_frames = 0x9000"
  by (simp_all add: five_frames_def boot_mm_def)

section \<open>Properties\<close>

text \<open>
  Property C25. \<^verbatim>\<open>xbks_pmm_alloc_frame\<close> on a well-formed free list: with no free frame it returns 0
  and changes nothing; otherwise it returns the first free frame, never 0, leaves the rest as the
  free list with its count, zeroes the frame, and changes no other byte of memory.
\<close>

theorem pmm_alloc_frame_correct:
  assumes "pmm_inv s fs"
  shows "case fs of
      [] \<Rightarrow> xbks_pmm_alloc_frame s = (0, s)
    | f # gs \<Rightarrow> fst (xbks_pmm_alloc_frame s) = f \<and> f \<noteq> 0 \<and>
        pmm_inv (snd (xbks_pmm_alloc_frame s)) gs \<and>
        unat (free_frame_count (snd (xbks_pmm_alloc_frame s))) = length gs \<and>
        kmem (snd (xbks_pmm_alloc_frame s)) = (\<lambda>x. if page_at s f x then 0 else kmem s x)"
proof (cases fs)
  case Nil
  then show ?thesis using assms pmm.alloc_none by simp
next
  case (Cons f gs)
  with assms have inv: "pmm_inv s (f # gs)" by simp
  then show ?thesis
    using Cons pmm.alloc_some [OF inv] pmm.pool_usable [OF inv, of f] alloc_mem [OF inv]
    by (auto simp: pmm_inv_count)
qed

theorem pmm_alloc_frame_correct_witness:
  "fst (xbks_pmm_alloc_frame five_frames) = 0x1000 \<and>
   pmm_inv (snd (xbks_pmm_alloc_frame five_frames)) [0x2000, 0x3000, 0x4000, 0x5000]"
  using pmm_alloc_frame_correct [OF five_frames_pool] by simp

text \<open>
  A frame given back with \<^verbatim>\<open>xbks_pmm_free_frame\<close> is the next one
  \<^verbatim>\<open>xbks_pmm_alloc_frame\<close> returns; the pair leaves the free list as it was and touches no memory
  outside that frame.
\<close>

lemma pmm_free_alloc_roundtrip:
  assumes "pmm_inv s fs" and "usable_frame s f" and "f \<notin> set fs"
  shows "\<exists>s'. xbks_pmm_alloc_frame (xbks_pmm_free_frame f s) = (f, s') \<and> pmm_inv s' fs \<and>
    (\<forall>x. \<not> page_at s f x \<longrightarrow> kmem s' x = kmem s x)"
proof -
  let ?s = "xbks_pmm_free_frame f s"
  have inv: "pmm_inv ?s (f # fs)" using assms by (rule pmm.free_some)
  have "kmem (snd (xbks_pmm_alloc_frame ?s)) x = kmem s x" if "\<not> page_at s f x" for x
    using that alloc_mem [OF inv, of x] free_mem [of f s x] assms(2) by (simp add: usable_frame_def)
  then show ?thesis
    using pmm.free_then_alloc [OF assms] by (metis prod.collapse)
qed

end
