(* ===== verification/Ramdisk.thy ===== *)
theory Ramdisk
  imports String_Lib
begin

text \<open>
  The read-only tar archive behind the file system, \<^verbatim>\<open>fs/ramdisk.c\<close>. Every function works on the
  bytes of the archive and on the fixed path buffers of the C code; \<^term>\<open>None\<close> is a read or write
  outside an array (or a loop that does not end), so that a theorem that a call returns
  \<open>Some\<close> result states its memory safety and termination. Uninitialised local arrays are
  modelled as zero-filled: no path through the code reads a byte of them it has not written.
\<close>

section \<open>Data\<close>

abbreviation TAR_BLOCK_SIZE :: u64 where "TAR_BLOCK_SIZE \<equiv> 512"
abbreviation TAR_NAME_SIZE :: nat where "TAR_NAME_SIZE \<equiv> 100"
abbreviation TAR_PREFIX_SIZE :: nat where "TAR_PREFIX_SIZE \<equiv> 155"
abbreviation RAMDISK_PATH_SIZE :: nat where "RAMDISK_PATH_SIZE \<equiv> 256"

abbreviation MODE_EXEC :: u64 where "MODE_EXEC \<equiv> 73" \<comment> \<open>\<^verbatim>\<open>0111u\<close>\<close>
abbreviation SLASH :: u8 where "SLASH \<equiv> 47"
abbreviation DOT :: u8 where "DOT \<equiv> 46"

record tar_header =
  hdr_name :: "u8 list"
  hdr_mode :: "u8 list"
  hdr_size :: "u8 list"
  hdr_typeflag :: u8
  hdr_prefix :: "u8 list"

record xbks_ramdisk_file =
  file_path :: "u8 list"
  file_data :: "u64 option" \<comment> \<open>offset from \<^verbatim>\<open>ramdisk_data\<close>; \<^term>\<open>None\<close> is the null pointer\<close>
  file_size :: u64
  directory :: bool
  executable :: bool

record ramdisk =
  ramdisk_data :: "u8 list"
  ramdisk_size :: u64
  ramdisk_available :: bool

record limine_file =
  lf_address :: "u8 list option"
  lf_size :: u64
  lf_string :: "u8 list option"
  lf_path :: "u8 list option"

type_synonym module_response = "limine_file option list option" \<comment> \<open>the \<^verbatim>\<open>modules\<close> array\<close>

abbreviation path_buffer :: "u8 list" where "path_buffer \<equiv> replicate RAMDISK_PATH_SIZE 0"

definition uninit_file :: xbks_ramdisk_file where
  "uninit_file = \<lparr>file_path = path_buffer, file_data = None, file_size = 0,
     directory = False, executable = False\<rparr>"

text \<open>The view of 512 bytes as a \<^verbatim>\<open>struct tar_header\<close>; the fields no code reads are left out.\<close>

definition header_of :: "u8 list \<Rightarrow> tar_header" where
  "header_of b = \<lparr>hdr_name = take 100 b, hdr_mode = take 8 (drop 100 b),
     hdr_size = take 12 (drop 124 b), hdr_typeflag = b ! 156, hdr_prefix = take 155 (drop 345 b)\<rparr>"

section \<open>Operations\<close>

fun bounded_strlen :: "u8 list \<Rightarrow> nat \<Rightarrow> nat option" where
  "bounded_strlen text 0 = Some 0"
| "bounded_strlen [] (Suc limit) = None"
| "bounded_strlen (c # text) (Suc limit) =
     (if c \<noteq> 0 then map_option Suc (bounded_strlen text limit) else Some 0)"

definition block_is_zero :: "u8 list \<Rightarrow> bool" where
  "block_is_zero bytes = list_all (\<lambda>b. b = 0) bytes"

fun octal_skip :: "u8 list \<Rightarrow> nat \<Rightarrow> (u8 list \<times> nat) option" where
  "octal_skip text 0 = Some (text, 0)"
| "octal_skip [] (Suc n) = None"
| "octal_skip (c # text) (Suc n) =
     (if c = 32 \<or> c = 0 then octal_skip text n else Some (c # text, Suc n))"

fun octal_digits :: "u64 \<Rightarrow> u8 list \<Rightarrow> nat \<Rightarrow> u64 option" where
  "octal_digits value text 0 = Some value"
| "octal_digits value [] (Suc n) = None"
| "octal_digits value (c # text) (Suc n) =
     (if sint c < 48 \<or> sint c > 55 then Some value
      else octal_digits (push_bit 3 value + ucast (c - 48)) text n)"

definition parse_octal :: "u8 list \<Rightarrow> nat \<Rightarrow> u64 option" where
  "parse_octal text limit = do { (rest, n) \<leftarrow> octal_skip text limit; octal_digits 0 rest n }"

definition align_to_tar_block :: "u64 \<Rightarrow> u64" where
  "align_to_tar_block value = (value + TAR_BLOCK_SIZE - 1) AND NOT (TAR_BLOCK_SIZE - 1)"

definition string_ends_with :: "u8 list \<Rightarrow> u8 list \<Rightarrow> bool option" where
  "string_ends_with text suffix = do {
     text_length \<leftarrow> strlen text;
     suffix_length \<leftarrow> strlen suffix;
     if suffix_length > text_length then Some False
     else do { r \<leftarrow> strcmp (drop (text_length - suffix_length) text) suffix; Some (r = 0) } }"

text \<open>\<^verbatim>\<open>dest\<close> points \<open>off\<close> bytes into the array \<open>buf\<close>.\<close>

fun copy_bytes_loop :: "u8 list \<Rightarrow> nat \<Rightarrow> u8 list \<Rightarrow> nat \<Rightarrow> nat \<Rightarrow> u8 list option" where
  "copy_bytes_loop buf off src i 0 = Some buf"
| "copy_bytes_loop buf off src i (Suc n) = do {
     c \<leftarrow> getb src i;
     buf' \<leftarrow> setb buf (off + i) c;
     copy_bytes_loop buf' off src (Suc i) n }"

definition copy_bytes :: "u8 list \<Rightarrow> nat \<Rightarrow> nat \<Rightarrow> u8 list \<Rightarrow> nat \<Rightarrow> u8 list option" where
  "copy_bytes buf off capacity src len =
     (if capacity = 0 then Some buf
      else
        let count = (if len \<ge> capacity then capacity - 1 else len) in do {
          buf' \<leftarrow> copy_bytes_loop buf off src 0 count;
          setb buf' (off + count) 0 })"

fun skip_slashes :: "u8 list \<Rightarrow> u8 list option" where
  "skip_slashes [] = None"
| "skip_slashes (c # path) = (if c = SLASH then skip_slashes path else Some (c # path))"

lemma skip_slashes_length: "skip_slashes p = Some q \<Longrightarrow> length q \<le> length p"
  by (induction p) (auto split: if_splits)

function skip_dots :: "u8 list \<Rightarrow> u8 list option" where
  "skip_dots path =
     (case path of
        [] \<Rightarrow> None
      | c0 # rest \<Rightarrow>
          if c0 \<noteq> DOT then Some path
          else (case rest of
              [] \<Rightarrow> None
            | c1 # _ \<Rightarrow>
                if c1 = SLASH \<or> c1 = 0
                then (case skip_slashes rest of None \<Rightarrow> None | Some q \<Rightarrow> skip_dots q)
                else Some path))"
  by pat_completeness auto
termination
  by (relation "measure length") (auto dest: skip_slashes_length split: if_splits)

fun normalize_copy :: "u8 list \<Rightarrow> u8 list \<Rightarrow> nat \<Rightarrow> nat \<Rightarrow> (u8 list \<times> nat) option" where
  "normalize_copy [] out output_length capacity = None"
| "normalize_copy (c # path) out output_length capacity =
     (if c \<noteq> 0 \<and> output_length + 1 < capacity
      then do {
        out' \<leftarrow> setb out output_length c;
        normalize_copy path out' (output_length + 1) capacity }
      else Some (out, output_length))"

fun strip_slashes :: "u8 list \<Rightarrow> nat \<Rightarrow> nat option" where
  "strip_slashes out 0 = Some 0"
| "strip_slashes out (Suc n) = do {
     c \<leftarrow> getb out n;
     if c = SLASH then strip_slashes out n else Some (Suc n) }"

definition normalize_path :: "u8 list \<Rightarrow> u8 list \<Rightarrow> nat \<Rightarrow> u8 list option" where
  "normalize_path path out capacity =
     (if capacity = 0 then Some out
      else do {
        p \<leftarrow> skip_slashes path;
        q \<leftarrow> skip_dots p;
        (out', n) \<leftarrow> normalize_copy q out 0 capacity;
        output_length \<leftarrow> strip_slashes out' n;
        setb out' output_length 0 })"

definition make_public_path :: "u8 list \<Rightarrow> u8 list \<Rightarrow> nat \<Rightarrow> u8 list option" where
  "make_public_path normalized out capacity =
     (if capacity = 0 then Some out
      else do {
        c \<leftarrow> getb normalized 0;
        if c = 0 then copy_bytes out 0 capacity (lit ''/'') 1
        else do {
          out' \<leftarrow> setb out 0 SLASH;
          n \<leftarrow> strlen normalized;
          copy_bytes out' 1 (capacity - 1) normalized n } })"

text \<open>The array \<^verbatim>\<open>combined\<close> and \<^verbatim>\<open>offset\<close> before the name is appended.\<close>

definition start_combined :: "tar_header \<Rightarrow> nat \<Rightarrow> (u8 list \<times> nat) option" where
  "start_combined header prefix_length =
     (if prefix_length \<noteq> 0
      then do {
        c1 \<leftarrow> copy_bytes path_buffer 0 RAMDISK_PATH_SIZE (hdr_prefix header) prefix_length;
        n \<leftarrow> strlen c1;
        if n + 1 < RAMDISK_PATH_SIZE
        then do {
          c2 \<leftarrow> setb c1 n SLASH;
          c3 \<leftarrow> setb c2 (n + 1) 0;
          Some (c3, n + 1) }
        else Some (c1, n) }
      else do { c1 \<leftarrow> setb path_buffer 0 0; Some (c1, 0) })"

text \<open>The result of the C function and its \<^verbatim>\<open>out\<close> array.\<close>

definition tar_path :: "tar_header \<Rightarrow> u8 list \<Rightarrow> nat \<Rightarrow> (bool \<times> u8 list) option" where
  "tar_path header out capacity = do {
     prefix_length \<leftarrow> bounded_strlen (hdr_prefix header) TAR_PREFIX_SIZE;
     name_length \<leftarrow> bounded_strlen (hdr_name header) TAR_NAME_SIZE;
     if name_length = 0 then Some (False, out)
     else do {
       (combined, offset) \<leftarrow> start_combined header prefix_length;
       combined' \<leftarrow> copy_bytes combined offset (RAMDISK_PATH_SIZE - offset) (hdr_name header) name_length;
       out' \<leftarrow> normalize_path combined' out capacity;
       c \<leftarrow> getb out' 0;
       Some (c \<noteq> 0, out') } }"

definition header_is_directory :: "tar_header \<Rightarrow> u8 list \<Rightarrow> bool option" where
  "header_is_directory header normalized_path = do {
     n \<leftarrow> strlen normalized_path;
     if hdr_typeflag header = 53 then Some True
     else if n \<noteq> 0 then do { c \<leftarrow> getb normalized_path (n - 1); Some (c = SLASH) }
     else Some False }"

definition fill_file :: "tar_header \<Rightarrow> u8 list \<Rightarrow> u64 \<Rightarrow> u64 \<Rightarrow> xbks_ramdisk_file \<Rightarrow> xbks_ramdisk_file option" where
  "fill_file header normalized_path data sz out = do {
     mode \<leftarrow> parse_octal (hdr_mode header) 8;
     p \<leftarrow> make_public_path normalized_path (file_path out) RAMDISK_PATH_SIZE;
     d \<leftarrow> header_is_directory header normalized_path;
     Some \<lparr>file_path = p, file_data = Some data, file_size = sz, directory = d,
           executable = (mode AND MODE_EXEC \<noteq> 0)\<rparr> }"

text \<open>
  The prologue the three archive loops share: the loop guard, the test for the end block, the size
  field and its bounds check. \<open>Some None\<close> leaves the loop; \<open>Some (Some (header, file_size,
  data_offset))\<close> goes on with its body.
\<close>

definition next_entry :: "ramdisk \<Rightarrow> u64 \<Rightarrow> (tar_header \<times> u64 \<times> u64) option option" where
  "next_entry rd offset =
     (if offset + TAR_BLOCK_SIZE \<le> ramdisk_size rd
      then
        if unat offset + 512 \<le> length (ramdisk_data rd)
        then
          let block = take 512 (drop (unat offset) (ramdisk_data rd)); header = header_of block
          in if block_is_zero block then Some None
             else do {
               sz \<leftarrow> parse_octal (hdr_size header) 12;
               let data_offset = offset + TAR_BLOCK_SIZE;
               if data_offset > ramdisk_size rd \<or> sz > ramdisk_size rd - data_offset
               then Some None
               else Some (Some (header, sz, data_offset)) }
        else None
      else Some None)"

text \<open>
  \<^verbatim>\<open>find_header\<close>: the file found, or none and whether the query is a directory prefix
  (\<^verbatim>\<open>*out_is_directory_prefix\<close>). Its only caller passes both out pointers.
\<close>

definition is_directory_prefix :: "u8 list \<Rightarrow> u8 list \<Rightarrow> bool option" where
  "is_directory_prefix path normalized_path = do {
     query_length \<leftarrow> strlen normalized_path;
     if query_length \<noteq> 0
     then do {
       r \<leftarrow> strncmp path normalized_path query_length;
       if r = 0 then do { c \<leftarrow> getb path query_length; Some (c = SLASH) } else Some False }
     else Some False }"

partial_function (option) find_header_loop ::
  "ramdisk \<Rightarrow> u8 list \<Rightarrow> xbks_ramdisk_file \<Rightarrow> u64 \<Rightarrow> bool \<Rightarrow> (xbks_ramdisk_file option \<times> bool) option" where
  "find_header_loop rd normalized_path out offset directory_prefix =
     Option.bind (next_entry rd offset) (\<lambda>entry. case entry of
       None \<Rightarrow> Some (None, directory_prefix)
     | Some (header, file_sz, data_offset) \<Rightarrow>
         Option.bind (tar_path header path_buffer RAMDISK_PATH_SIZE) (\<lambda>(ok, path).
         Option.bind (if ok then strcmp path normalized_path else Some 1) (\<lambda>r.
         if ok \<and> r = 0
         then Option.bind (fill_file header path data_offset file_sz out) (\<lambda>f. Some (Some f, False))
         else
           Option.bind (if ok then is_directory_prefix path normalized_path else Some False) (\<lambda>pre.
           find_header_loop rd normalized_path out
             (data_offset + align_to_tar_block file_sz) (directory_prefix \<or> pre)))))"

definition find_header ::
  "ramdisk \<Rightarrow> u8 list \<Rightarrow> xbks_ramdisk_file \<Rightarrow> (xbks_ramdisk_file option \<times> bool) option" where
  "find_header rd normalized_path out = find_header_loop rd normalized_path out 0 False"

text \<open>\<^verbatim>\<open>while (relative[child_length] != '\0' && relative[child_length] != '/') ++child_length;\<close>\<close>

fun component_length :: "u8 list \<Rightarrow> nat option" where
  "component_length [] = None"
| "component_length (c # relative) =
     (if c \<noteq> 0 \<and> c \<noteq> SLASH then map_option Suc (component_length relative) else Some 0)"

text \<open>The child name array and \<^verbatim>\<open>*out_nested\<close>, or \<open>Some None\<close> where the C function returns false.\<close>

definition first_component :: "u8 list \<Rightarrow> u8 list \<Rightarrow> nat \<Rightarrow> (u8 list \<times> bool) option option" where
  "first_component relative child_name child_name_capacity = do {
     c \<leftarrow> getb relative 0;
     if c = 0 then Some None
     else do {
       child_length \<leftarrow> component_length relative;
       if child_length = 0 then Some None
       else do {
         name \<leftarrow> copy_bytes child_name 0 child_name_capacity relative child_length;
         e \<leftarrow> getb relative child_length;
         Some (Some (name, e = SLASH)) } } }"

definition child_name_for_directory ::
  "u8 list \<Rightarrow> u8 list \<Rightarrow> u8 list \<Rightarrow> nat \<Rightarrow> (u8 list \<times> bool) option option" where
  "child_name_for_directory entry_path directory_path child_name child_name_capacity = do {
     directory_length \<leftarrow> strlen directory_path;
     relative \<leftarrow>
       (if directory_length \<noteq> 0
        then do {
          r \<leftarrow> strncmp entry_path directory_path directory_length;
          if r \<noteq> 0 then Some None
          else do {
            c \<leftarrow> getb entry_path directory_length;
            if c \<noteq> SLASH then Some None
            else Some (Some (drop (directory_length + 1) entry_path)) } }
        else Some (Some entry_path));
     case relative of
       None \<Rightarrow> Some None
     | Some rel \<Rightarrow> first_component rel child_name child_name_capacity }"

partial_function (option) child_seen_loop ::
  "ramdisk \<Rightarrow> u8 list \<Rightarrow> u8 list \<Rightarrow> u64 \<Rightarrow> u64 \<Rightarrow> bool option" where
  "child_seen_loop rd directory_path child_name current_offset offset =
     (if offset < current_offset
      then Option.bind (next_entry rd offset) (\<lambda>entry. case entry of
        None \<Rightarrow> Some False
      | Some (header, file_sz, data_offset) \<Rightarrow>
          Option.bind (tar_path header path_buffer RAMDISK_PATH_SIZE) (\<lambda>(ok, path).
          Option.bind (if ok then child_name_for_directory path directory_path path_buffer
                RAMDISK_PATH_SIZE else Some None) (\<lambda>child.
          Option.bind (case child of None \<Rightarrow> Some 1
              | Some (previous_child, nested) \<Rightarrow> strcmp previous_child child_name) (\<lambda>r.
          if r = 0 then Some True
          else child_seen_loop rd directory_path child_name current_offset
                 (data_offset + align_to_tar_block file_sz)))))
      else Some False)"

definition child_seen_before :: "ramdisk \<Rightarrow> u8 list \<Rightarrow> u8 list \<Rightarrow> u64 \<Rightarrow> bool option" where
  "child_seen_before rd directory_path child_name current_offset =
     child_seen_loop rd directory_path child_name current_offset 0"

text \<open>
  The module list of the boot loader: \<open>None\<close> for a null response or a null array. The result carries
  the format of the log line that reports the size of the archive; the caller issues it.
\<close>

definition module_is_ramdisk :: "limine_file \<Rightarrow> bool option" where
  "module_is_ramdisk module =
     (let module_string = (case lf_string module of None \<Rightarrow> lit [] | Some t \<Rightarrow> t);
          module_path = (case lf_path module of None \<Rightarrow> lit [] | Some t \<Rightarrow> t)
      in do {
        r \<leftarrow> strcmp module_string (lit ''ramdisk'');
        if r = 0 then Some True
        else do {
          a \<leftarrow> string_ends_with module_path (lit ''/ramdisk.tar'');
          if a then Some True else string_ends_with module_path (lit ''ramdisk.tar'') } })"

definition no_ramdisk :: ramdisk where
  "no_ramdisk = \<lparr>ramdisk_data = [], ramdisk_size = 0, ramdisk_available = False\<rparr>"

definition use_module :: "limine_file \<Rightarrow> ramdisk" where
  "use_module module = \<lparr>ramdisk_data = the (lf_address module), ramdisk_size = lf_size module,
     ramdisk_available = True\<rparr>"

fun ramdisk_search :: "limine_file option list \<Rightarrow> ramdisk option option" where
  "ramdisk_search [] = Some None"
| "ramdisk_search (None # ms) = ramdisk_search ms"
| "ramdisk_search (Some module # ms) =
     (if lf_address module = None \<or> lf_size module = 0 then ramdisk_search ms
      else do {
        hit \<leftarrow> module_is_ramdisk module;
        if hit then Some (Some (use_module module)) else ramdisk_search ms })"

definition xbks_ramdisk_init :: "module_response \<Rightarrow> (bool \<times> ramdisk \<times> u8 list option) option" where
  "xbks_ramdisk_init modules =
     (case modules of
        None \<Rightarrow> Some (False, no_ramdisk, None)
      | Some ms \<Rightarrow>
          if length ms = 0 then Some (False, no_ramdisk, None)
          else do {
            found \<leftarrow> ramdisk_search ms;
            case found of
              Some rd \<Rightarrow> Some (True, rd, Some (lit ''RAMDISK loaded: %llu bytes''))
            | None \<Rightarrow>
                if length ms = 1
                then (case hd ms of
                    None \<Rightarrow> Some (False, no_ramdisk, None)
                  | Some module \<Rightarrow>
                      if lf_address module \<noteq> None \<and> lf_size module \<noteq> 0
                      then Some (True, use_module module,
                        Some (lit ''RAMDISK loaded from only module: %llu bytes''))
                      else Some (False, no_ramdisk, None))
                else Some (False, no_ramdisk, None) })"

definition xbks_ramdisk_is_available :: "ramdisk \<Rightarrow> bool" where
  "xbks_ramdisk_is_available rd = ramdisk_available rd"

text \<open>The entry that stands for a directory without a header of its own.\<close>

definition implied_directory :: "u8 list \<Rightarrow> xbks_ramdisk_file \<Rightarrow> xbks_ramdisk_file option" where
  "implied_directory normalized out = do {
     p \<leftarrow> make_public_path normalized (file_path out) RAMDISK_PATH_SIZE;
     Some \<lparr>file_path = p, file_data = None, file_size = 0, directory = True, executable = False\<rparr> }"

text \<open>\<open>Some None\<close> where the C function returns false; a null \<^verbatim>\<open>path\<close> is \<^term>\<open>None\<close>.\<close>

definition xbks_ramdisk_find :: "ramdisk \<Rightarrow> u8 list option \<Rightarrow> xbks_ramdisk_file option option" where
  "xbks_ramdisk_find rd path =
     (if \<not> ramdisk_available rd then Some None
      else case path of
        None \<Rightarrow> Some None
      | Some path \<Rightarrow> do {
          normalized \<leftarrow> normalize_path path path_buffer RAMDISK_PATH_SIZE;
          c \<leftarrow> getb normalized 0;
          if c = 0 then map_option Some (implied_directory normalized uninit_file)
          else do {
            (found, directory_prefix) \<leftarrow> find_header rd normalized uninit_file;
            case found of
              Some f \<Rightarrow> Some (Some f)
            | None \<Rightarrow>
                if directory_prefix then map_option Some (implied_directory normalized uninit_file)
                else Some None } })"

text \<open>The path \<^verbatim>\<open>normalized/child_name\<close> that \<^verbatim>\<open>xbks_ramdisk_read_dir\<close> builds.\<close>

definition join_child :: "u8 list \<Rightarrow> u8 list \<Rightarrow> u8 list option" where
  "join_child normalized child_name = do {
     c \<leftarrow> getb normalized 0;
     child_length \<leftarrow> strlen child_name;
     if c = 0 then copy_bytes path_buffer 0 RAMDISK_PATH_SIZE child_name child_length
     else do {
       n \<leftarrow> strlen normalized;
       p1 \<leftarrow> copy_bytes path_buffer 0 RAMDISK_PATH_SIZE normalized n;
       len \<leftarrow> strlen p1;
       p2 \<leftarrow> (if len + 1 < RAMDISK_PATH_SIZE
              then do { q \<leftarrow> setb p1 len SLASH; setb q (len + 1) 0 } else Some p1);
       len2 \<leftarrow> strlen p2;
       copy_bytes p2 len2 (RAMDISK_PATH_SIZE - len2) child_name child_length } }"

definition child_file ::
  "tar_header \<Rightarrow> u8 list \<Rightarrow> u8 list \<Rightarrow> u8 list \<Rightarrow> bool \<Rightarrow> u64 \<Rightarrow> u64 \<Rightarrow> xbks_ramdisk_file \<Rightarrow> xbks_ramdisk_file option" where
  "child_file header entry_path normalized child_name nested file_sz data_offset out = do {
     child_path \<leftarrow> join_child normalized child_name;
     p \<leftarrow> make_public_path child_path (file_path out) RAMDISK_PATH_SIZE;
     d \<leftarrow> (if nested then Some True else header_is_directory header entry_path);
     mode \<leftarrow> (if d then Some 0 else parse_octal (hdr_mode header) 8);
     Some \<lparr>file_path = p, file_data = (if nested then None else Some data_offset),
           file_size = (if nested then 0 else file_sz), directory = d,
           executable = (\<not> d \<and> mode AND MODE_EXEC \<noteq> 0)\<rparr> }"

partial_function (option) read_dir_loop ::
  "ramdisk \<Rightarrow> u8 list \<Rightarrow> u64 \<Rightarrow> u64 \<Rightarrow> u64 \<Rightarrow> xbks_ramdisk_file option option" where
  "read_dir_loop rd normalized index offset current_index =
     Option.bind (next_entry rd offset) (\<lambda>entry. case entry of
       None \<Rightarrow> Some None
     | Some (header, file_sz, data_offset) \<Rightarrow>
         Option.bind (tar_path header path_buffer RAMDISK_PATH_SIZE) (\<lambda>(ok, entry_path).
         Option.bind (if ok then child_name_for_directory entry_path normalized path_buffer
               RAMDISK_PATH_SIZE else Some None) (\<lambda>child.
         Option.bind (case child of None \<Rightarrow> Some True
             | Some (child_name, nested) \<Rightarrow> child_seen_before rd normalized child_name offset) (\<lambda>seen.
         case child of
           Some (child_name, nested) \<Rightarrow>
             if \<not> seen \<and> current_index = index
             then map_option Some (child_file header entry_path normalized child_name nested
                    file_sz data_offset uninit_file)
             else read_dir_loop rd normalized index
                    (data_offset + align_to_tar_block file_sz)
                    (if seen then current_index else current_index + 1)
         | None \<Rightarrow>
             read_dir_loop rd normalized index
               (data_offset + align_to_tar_block file_sz) current_index))))"

definition xbks_ramdisk_read_dir :: "ramdisk \<Rightarrow> u8 list option \<Rightarrow> u64 \<Rightarrow> xbks_ramdisk_file option option" where
  "xbks_ramdisk_read_dir rd path index =
     (if \<not> ramdisk_available rd then Some None
      else case path of
        None \<Rightarrow> Some None
      | Some path \<Rightarrow> do {
          normalized \<leftarrow> normalize_path path path_buffer RAMDISK_PATH_SIZE;
          read_dir_loop rd normalized index 0 0 })"

declare skip_dots.simps [simp del]

end
