(* ===== verification/Format_Lib.thy ===== *)
theory Format_Lib
  imports String_Lib
begin

text \<open>
  The formatted output of \<^verbatim>\<open>lib/format.c\<close>. The sink is the record of the source, its buffer an array
  with checked accesses: \<^term>\<open>None\<close> is an access outside of an array or a \<^verbatim>\<open>va_arg\<close> whose type is
  not that of the argument passed. A specification without a buffer says which text a format and
  its arguments stand for; the code is shown to store as much of it as fits, NUL-terminated, and to
  return its length.
\<close>

section \<open>Definitions\<close>

datatype fmt_arg =
  ArgInt u32 \<comment> \<open>an \<^verbatim>\<open>int\<close> or \<^verbatim>\<open>unsigned int\<close>\<close>
| ArgLong u64 \<comment> \<open>a \<^verbatim>\<open>long\<close>, \<^verbatim>\<open>long long\<close>, \<^verbatim>\<open>size_t\<close> (signed or not)\<close>
| ArgPtr u64 \<comment> \<open>a \<^verbatim>\<open>void *\<close>\<close>
| ArgStr "u8 list option" \<comment> \<open>a \<^verbatim>\<open>const char *\<close>, \<^term>\<open>None\<close> the null pointer\<close>

record format_sink =
  sink_buffer :: "u8 list"
  sink_capacity :: nat
  sink_length :: nat

definition sink_putc :: "format_sink \<Rightarrow> u8 \<Rightarrow> format_sink option" where
  "sink_putc sink ch = do {
     buf \<leftarrow> (if sink_capacity sink \<noteq> 0 \<and> sink_length sink + 1 < sink_capacity sink
            then setb (sink_buffer sink) (sink_length sink) ch else Some (sink_buffer sink));
     Some (sink\<lparr>sink_buffer := buf, sink_length := sink_length sink + 1\<rparr>) }"

fun sink_write :: "format_sink \<Rightarrow> u8 list \<Rightarrow> format_sink option" where
  "sink_write sink [] = None"
| "sink_write sink (c # text) =
     (if c \<noteq> 0 then do { sink' \<leftarrow> sink_putc sink c; sink_write sink' text } else Some sink)"

definition alphabet :: "bool \<Rightarrow> u8 list" where
  "alphabet uppercase = (if uppercase then lit ''0123456789ABCDEF'' else lit ''0123456789abcdef'')"

partial_function (option) digits_loop ::
  "u8 list \<Rightarrow> u64 \<Rightarrow> u64 \<Rightarrow> u8 list \<Rightarrow> nat \<Rightarrow> (u8 list \<times> nat) option" where
  "digits_loop alpha value base digits count =
     (if value \<noteq> 0
      then Option.bind (getb alpha (unat (value mod base))) (\<lambda>d.
        Option.bind (setb digits count d) (\<lambda>digits'.
        digits_loop alpha (value div base) base digits' (count + 1)))
      else Some (digits, count))"

declare digits_loop.simps [code]

fun emit_digits :: "format_sink \<Rightarrow> u8 list \<Rightarrow> nat \<Rightarrow> format_sink option" where
  "emit_digits sink digits 0 = Some sink"
| "emit_digits sink digits (Suc count) = do {
     d \<leftarrow> getb digits count;
     sink' \<leftarrow> sink_putc sink d;
     emit_digits sink' digits count }"

definition sink_write_unsigned :: "format_sink \<Rightarrow> u64 \<Rightarrow> u64 \<Rightarrow> bool \<Rightarrow> format_sink option" where
  "sink_write_unsigned sink value base uppercase =
     (if value = 0 then sink_putc sink (chr (CHR ''0''))
      else do {
        (digits, count) \<leftarrow> digits_loop (alphabet uppercase) value base (replicate 32 0) 0;
        emit_digits sink digits count })"

definition sink_write_signed :: "format_sink \<Rightarrow> u64 \<Rightarrow> format_sink option" where
  "sink_write_signed sink value =
     (if sint value < 0
      then do {
        sink' \<leftarrow> sink_putc sink (chr (CHR ''-''));
        sink_write_unsigned sink' (- (value + 1) + 1) 10 False }
      else sink_write_unsigned sink value 10 False)"

text \<open>\<^verbatim>\<open>va_arg\<close> at the types the source names.\<close>

fun va_str :: "fmt_arg list \<Rightarrow> (u8 list option \<times> fmt_arg list) option" where
  "va_str (ArgStr t # args) = Some (t, args)"
| "va_str args = None"

fun va_int :: "fmt_arg list \<Rightarrow> (u32 \<times> fmt_arg list) option" where
  "va_int (ArgInt v # args) = Some (v, args)"
| "va_int args = None"

fun va_long :: "fmt_arg list \<Rightarrow> (u64 \<times> fmt_arg list) option" where
  "va_long (ArgLong v # args) = Some (v, args)"
| "va_long args = None"

fun va_ptr :: "fmt_arg list \<Rightarrow> (u64 \<times> fmt_arg list) option" where
  "va_ptr (ArgPtr v # args) = Some (v, args)"
| "va_ptr args = None"

definition va_signed :: "bool \<Rightarrow> fmt_arg list \<Rightarrow> (u64 \<times> fmt_arg list) option" where
  "va_signed wide args =
     (if wide then va_long args else do { (v, rest) \<leftarrow> va_int args; Some (scast v, rest) })"

definition va_unsigned :: "bool \<Rightarrow> fmt_arg list \<Rightarrow> (u64 \<times> fmt_arg list) option" where
  "va_unsigned wide args =
     (if wide then va_long args else do { (v, rest) \<leftarrow> va_int args; Some (ucast v, rest) })"

text \<open>The \<^verbatim>\<open>switch\<close> on the conversion character \<open>c\<close>; \<open>wide\<close> is \<^verbatim>\<open>long_value || long_long_value\<close>.\<close>

definition convert ::
  "bool \<Rightarrow> u8 \<Rightarrow> format_sink \<Rightarrow> fmt_arg list \<Rightarrow> (format_sink \<times> fmt_arg list) option" where
  "convert wide c sink args =
     (if c = chr (CHR ''%'') then do { s \<leftarrow> sink_putc sink (chr (CHR ''%'')); Some (s, args) }
      else if c = chr (CHR ''s'') then do {
        (value, rest) \<leftarrow> va_str args;
        s \<leftarrow> sink_write sink (case value of None \<Rightarrow> lit ''(null)'' | Some t \<Rightarrow> t);
        Some (s, rest) }
      else if c = chr (CHR ''c'') then do {
        (value, rest) \<leftarrow> va_int args;
        s \<leftarrow> sink_putc sink (ucast value);
        Some (s, rest) }
      else if c = chr (CHR ''d'') \<or> c = chr (CHR ''i'') then do {
        (value, rest) \<leftarrow> va_signed wide args;
        s \<leftarrow> sink_write_signed sink value;
        Some (s, rest) }
      else if c = chr (CHR ''u'') then do {
        (value, rest) \<leftarrow> va_unsigned wide args;
        s \<leftarrow> sink_write_unsigned sink value 10 False;
        Some (s, rest) }
      else if c = chr (CHR ''x'') \<or> c = chr (CHR ''X'') then do {
        (value, rest) \<leftarrow> va_unsigned wide args;
        s \<leftarrow> sink_write_unsigned sink value 16 (c = chr (CHR ''X''));
        Some (s, rest) }
      else if c = chr (CHR ''p'') then do {
        (value, rest) \<leftarrow> va_ptr args;
        s1 \<leftarrow> sink_write sink (lit ''0x'');
        s2 \<leftarrow> sink_write_unsigned s1 value 16 False;
        Some (s2, rest) }
      else do {
        s1 \<leftarrow> sink_putc sink (chr (CHR ''%''));
        s2 \<leftarrow> sink_putc s1 c;
        Some (s2, args) })"

text \<open>
  The length modifier at the conversion: whether it is there, and the rest of the format. Reading
  the format past its last element is \<^term>\<open>None\<close>.
\<close>

definition modifier :: "u8 list \<Rightarrow> (bool \<times> u8 list) option" where
  "modifier fmt = do {
     c \<leftarrow> getb fmt 0;
     if c = chr (CHR ''l'') then do {
       c1 \<leftarrow> getb fmt 1;
       if c1 = chr (CHR ''l'') then Some (True, drop 2 fmt) else Some (True, drop 1 fmt) }
     else if c = chr (CHR ''z'') then Some (True, drop 1 fmt)
     else Some (False, fmt) }"

lemma modifier_length: "modifier fmt = Some (w, rest) \<Longrightarrow> length rest \<le> length fmt"
  by (auto simp: modifier_def getb_def split: if_splits)

function format_loop :: "u8 list \<Rightarrow> fmt_arg list \<Rightarrow> format_sink \<Rightarrow> format_sink option" where
  "format_loop fmt args sink =
     (case fmt of
        [] \<Rightarrow> None
      | c # fmt1 \<Rightarrow>
          if c = 0 then Some sink
          else if c \<noteq> chr (CHR ''%'')
          then (case sink_putc sink c of None \<Rightarrow> None | Some sink' \<Rightarrow> format_loop fmt1 args sink')
          else case getb fmt1 0 of
            None \<Rightarrow> None
          | Some c1 \<Rightarrow>
              if c1 = 0 then sink_putc sink (chr (CHR ''%''))
              else case modifier fmt1 of
                None \<Rightarrow> None
              | Some (wide, rest) \<Rightarrow>
                  case getb rest 0 of
                    None \<Rightarrow> None
                  | Some k \<Rightarrow>
                      case convert wide k sink args of
                        None \<Rightarrow> None
                      | Some (sink', args') \<Rightarrow> format_loop (drop 1 rest) args' sink')"
  by pat_completeness auto
termination
  by (relation "measure (\<lambda>(fmt, args, sink). length fmt)")
    (auto dest!: modifier_length simp: getb_def less_Suc_eq_le split: if_splits)

declare format_loop.simps [simp del]

definition xbks_vsnprintf :: "u8 list \<Rightarrow> nat \<Rightarrow> u8 list \<Rightarrow> fmt_arg list \<Rightarrow> (u8 list \<times> int) option" where
  "xbks_vsnprintf buffer buffer_size fmt args = do {
     sink \<leftarrow> format_loop fmt args
       \<lparr>sink_buffer = buffer, sink_capacity = buffer_size, sink_length = 0\<rparr>;
     let len = sink_length sink;
     buf \<leftarrow> (if buffer_size \<noteq> 0
            then setb (sink_buffer sink) (if len < buffer_size then len else buffer_size - 1) 0
            else Some (sink_buffer sink));
     Some (buf, if len > 2147483647 then 2147483647 else int len) }"

definition xbks_snprintf :: "u8 list \<Rightarrow> nat \<Rightarrow> u8 list \<Rightarrow> fmt_arg list \<Rightarrow> (u8 list \<times> int) option" where
  "xbks_snprintf buffer buffer_size fmt args = xbks_vsnprintf buffer buffer_size fmt args"

section \<open>The text of a format\<close>

fun rdigits :: "nat \<Rightarrow> nat \<Rightarrow> nat list" where
  "rdigits b n = (if n = 0 \<or> b < 2 then [] else n mod b # rdigits b (n div b))"

declare rdigits.simps [simp del]

definition num_text :: "bool \<Rightarrow> nat \<Rightarrow> nat \<Rightarrow> u8 list" where
  "num_text up b n =
     (if n = 0 then [chr (CHR ''0'')] else map (\<lambda>d. alphabet up ! d) (rev (rdigits b n)))"

definition signed_text :: "int \<Rightarrow> u8 list" where
  "signed_text v = (if v < 0 then chr (CHR ''-'') # num_text False 10 (nat (- v)) else num_text False 10 (nat v))"

definition str_text :: "u8 list option \<Rightarrow> u8 list" where
  "str_text t = cstr (case t of None \<Rightarrow> lit ''(null)'' | Some t \<Rightarrow> t)"

definition arg_ok :: "fmt_arg \<Rightarrow> bool" where
  "arg_ok a \<longleftrightarrow> (case a of ArgStr (Some t) \<Rightarrow> terminated t | _ \<Rightarrow> True)"

definition conv_text :: "bool \<Rightarrow> u8 \<Rightarrow> fmt_arg list \<Rightarrow> (u8 list \<times> fmt_arg list) option" where
  "conv_text wide c args =
     (if c = chr (CHR ''%'') then Some ([chr (CHR ''%'')], args)
      else if c = chr (CHR ''s'') then map_option (map_prod str_text id) (va_str args)
      else if c = chr (CHR ''c'') then map_option (map_prod (\<lambda>v. [ucast v]) id) (va_int args)
      else if c = chr (CHR ''d'') \<or> c = chr (CHR ''i'')
      then map_option (map_prod (\<lambda>v. signed_text (sint v)) id) (va_signed wide args)
      else if c = chr (CHR ''u'')
      then map_option (map_prod (\<lambda>v. num_text False 10 (unat v)) id) (va_unsigned wide args)
      else if c = chr (CHR ''x'') \<or> c = chr (CHR ''X'')
      then map_option (map_prod (\<lambda>v. num_text (c = chr (CHR ''X'')) 16 (unat v)) id) (va_unsigned wide args)
      else if c = chr (CHR ''p'')
      then map_option (map_prod (\<lambda>v. cstr (lit ''0x'') @ num_text False 16 (unat v)) id) (va_ptr args)
      else Some ([chr (CHR ''%''), c], args))"

text \<open>
  The text of a format: \<^term>\<open>None\<close> when an argument is missing or of the wrong type, or when the
  format ends after a length modifier.
\<close>

fun split_modifier :: "u8 list \<Rightarrow> bool \<times> u8 list" where
  "split_modifier [] = (False, [])"
| "split_modifier (c # fmt) =
     (if c = chr (CHR ''l'') then
        (True, if fmt \<noteq> [] \<and> hd fmt = chr (CHR ''l'') then tl fmt else fmt)
      else if c = chr (CHR ''z'') then (True, fmt) else (False, c # fmt))"

lemma split_modifier_length: "length (snd (split_modifier fmt)) \<le> length fmt"
  by (cases fmt rule: split_modifier.cases) auto

lemma split_modifier_less: "(w, k # r) = split_modifier fmt \<Longrightarrow> length r < length fmt"
  using split_modifier_length [of fmt] by (metis Suc_le_eq length_Cons snd_conv)

function format_text :: "u8 list \<Rightarrow> fmt_arg list \<Rightarrow> u8 list option" where
  "format_text fmt args =
     (case fmt of
        [] \<Rightarrow> Some []
      | c # fmt1 \<Rightarrow>
          if c \<noteq> chr (CHR ''%'') then map_option ((#) c) (format_text fmt1 args)
          else if fmt1 = [] then Some [c]
          else case split_modifier fmt1 of (wide, rest) \<Rightarrow>
            (case rest of
               [] \<Rightarrow> None
             | k # rest1 \<Rightarrow>
                 case conv_text wide k args of
                   None \<Rightarrow> None
                 | Some (t, args') \<Rightarrow> map_option ((@) t) (format_text rest1 args')))"
  by pat_completeness auto
termination
  by (relation "measure (\<lambda>(fmt, args). length fmt)") (auto dest!: split_modifier_less simp: less_SucI)

declare format_text.simps [simp del]

section \<open>The sink\<close>

text \<open>The sink has taken the text \<open>t\<close>: as much of it as fits before the last byte is stored.\<close>

definition sink_ok :: "nat \<Rightarrow> format_sink \<Rightarrow> u8 list \<Rightarrow> bool" where
  "sink_ok cap s t \<longleftrightarrow> sink_capacity s = cap \<and> length (sink_buffer s) = cap \<and> sink_length s = length t \<and>
     take (min (length t) (cap - 1)) (sink_buffer s) = take (cap - 1) t"

lemma sink_putc_ok:
  assumes "sink_ok cap s t"
  shows "\<exists>s'. sink_putc s c = Some s' \<and> sink_ok cap s' (t @ [c])"
proof (cases "length t + 1 < cap")
  case True
  then have "min (length t) (cap - 1) = length t" "take (cap - 1) t = t" by auto
  then have "take (length t) (sink_buffer s) = t" using assms unfolding sink_ok_def by metis
  then have "take (Suc (length t)) ((sink_buffer s)[length t := c]) = t @ [c]"
    using True assms by (simp add: sink_ok_def take_Suc_conv_app_nth)
  moreover have "min (length (t @ [c])) (cap - 1) = Suc (length t)" "take (cap - 1) (t @ [c]) = t @ [c]"
    using True by auto
  ultimately show ?thesis using True assms by (simp add: sink_putc_def sink_ok_def del: take_append)
next
  case False
  then have "min (length t) (cap - 1) = cap - 1" "min (length (t @ [c])) (cap - 1) = cap - 1" by auto
  then show ?thesis using False assms by (auto simp: sink_putc_def sink_ok_def)
qed

lemma sink_write_ok:
  "sink_ok cap s t \<Longrightarrow> terminated u \<Longrightarrow> \<exists>s'. sink_write s u = Some s' \<and> sink_ok cap s' (t @ cstr u)"
proof (induction u arbitrary: s t)
  case (Cons c u)
  show ?case
  proof (cases "c = 0")
    case True
    then show ?thesis using Cons.prems by (simp add: cstr_def)
  next
    case False
    obtain s' where s': "sink_putc s c = Some s'" "sink_ok cap s' (t @ [c])"
      using sink_putc_ok [OF Cons.prems(1)] by blast
    have "terminated u" using Cons.prems(2) False by (auto simp: terminated_def)
    from Cons.IH [OF s'(2) this] show ?thesis using False s' by (auto simp: cstr_def)
  qed
qed (simp add: terminated_def)

lemma emit_digits_ok:
  "sink_ok cap s t \<Longrightarrow> k \<le> length D \<Longrightarrow>
   \<exists>s'. emit_digits s D k = Some s' \<and> sink_ok cap s' (t @ rev (take k D))"
proof (induction k arbitrary: s t)
  case (Suc k)
  obtain s' where s': "sink_putc s (D ! k) = Some s'" "sink_ok cap s' (t @ [D ! k])"
    using sink_putc_ok [OF Suc.prems(1)] by blast
  from Suc.IH [OF s'(2)] Suc.prems(2) s'(1) show ?case by (simp add: take_Suc_conv_app_nth)
qed simp

section \<open>Numbers\<close>

lemma rdigits_step: "n \<noteq> 0 \<Longrightarrow> 2 \<le> b \<Longrightarrow> rdigits b n = n mod b # rdigits b (n div b)"
  by (simp add: rdigits.simps [of b n])

lemma rdigits_0 [simp]: "rdigits b 0 = []"
  by (simp add: rdigits.simps)

lemma rdigits_length: "n < b ^ k \<Longrightarrow> 2 \<le> b \<Longrightarrow> length (rdigits b n) \<le> k"
proof (induction k arbitrary: n)
  case (Suc k)
  show ?case
  proof (cases "n = 0")
    case False
    have "n div b < b ^ k" using Suc.prems by (simp add: less_mult_imp_div_less mult.commute)
    then show ?thesis using Suc False by (simp add: rdigits_step)
  qed simp
qed simp

lemma rdigits_value: "2 \<le> b \<Longrightarrow> foldr (\<lambda>d v. d + b * v) (rdigits b n) 0 = n"
proof (induction n rule: less_induct)
  case (less n)
  show ?case
  proof (cases "n = 0")
    case False
    then have "n div b < n" using less.prems by (simp add: div_less_dividend)
    then show ?thesis using less False by (simp add: rdigits_step)
  qed simp
qed

lemma alphabet_length: "length (alphabet up) = 17"
  by (simp add: alphabet_def lit_def)

lemma digits_loop_ok:
  assumes b: "2 \<le> unat b" "unat b \<le> 16"
  shows "length D = 32 \<Longrightarrow> n + length (rdigits (unat b) (unat v)) \<le> 32 \<Longrightarrow>
    \<exists>D'. digits_loop (alphabet up) v b D n = Some (D', n + length (rdigits (unat b) (unat v))) \<and>
      length D' = 32 \<and> take (n + length (rdigits (unat b) (unat v))) D' =
        take n D @ map (\<lambda>d. alphabet up ! d) (rdigits (unat b) (unat v))"
proof (induction "unat v" arbitrary: v D n rule: less_induct)
  case less
  show ?case
  proof (cases "v = 0")
    case True
    then show ?thesis using less.prems by (subst digits_loop.simps) simp
  next
    case False
    then have v: "unat v \<noteq> 0" by (simp add: unat_eq_0)
    have dv: "unat (v div b) = unat v div unat b" "unat (v mod b) = unat v mod unat b"
      by (simp_all add: unat_div unat_mod)
    have lt: "unat (v div b) < unat v" using v b(1) by (simp add: dv div_less_dividend)
    have step: "rdigits (unat b) (unat v) = unat (v mod b) # rdigits (unat b) (unat (v div b))"
      unfolding dv by (rule rdigits_step [OF v b(1)])
    have n: "n < 32" "n + 1 + length (rdigits (unat b) (unat (v div b))) \<le> 32"
      using less.prems(2) unfolding step by simp_all
    define D1 where "D1 = D[n := alphabet up ! unat (v mod b)]"
    have D1: "length D1 = 32" "take (n + 1) D1 = take n D @ [alphabet up ! unat (v mod b)]"
      using less.prems(1) n(1) by (simp_all add: D1_def take_Suc_conv_app_nth)
    have "unat v mod unat b < unat b" using b(1) by simp
    then have get: "getb (alphabet up) (unat (v mod b)) = Some (alphabet up ! unat (v mod b))"
      using b(2) by (simp add: dv alphabet_length)
    have set: "setb D n (alphabet up ! unat (v mod b)) = Some D1"
      using less.prems(1) n(1) by (simp add: D1_def)
    from less.hyps [OF lt D1(1) n(2)] show ?thesis
      unfolding step by (subst digits_loop.simps) (use False get set D1(2) in \<open>auto simp del: unat_mod\<close>)
  qed
qed

lemma sink_write_unsigned_ok:
  assumes s: "sink_ok cap s t" and b: "b = 10 \<or> b = 16"
  shows "\<exists>s'. sink_write_unsigned s v b up = Some s' \<and> sink_ok cap s' (t @ num_text up (unat b) (unat v))"
proof (cases "v = 0")
  case True
  then show ?thesis using sink_putc_ok [OF s] by (simp add: sink_write_unsigned_def num_text_def)
next
  case False
  have v: "unat v < 2 ^ 64" using unsigned_less [of v] by simp
  have ub: "2 \<le> unat b" "unat b \<le> 16" using b by auto
  have "length (rdigits (unat b) (unat v)) \<le> 20"
    using b v by (intro rdigits_length [OF _ ub(1)]) auto
  then obtain D k where D: "digits_loop (alphabet up) v b (replicate 32 0) 0 = Some (D, k)"
      "k = length (rdigits (unat b) (unat v))" "length D = 32"
      "take k D = map (\<lambda>d. alphabet up ! d) (rdigits (unat b) (unat v))"
    using digits_loop_ok [OF ub, of "replicate 32 0" 0 v up] by auto
  have "k \<le> length D" using D(2,3) \<open>length (rdigits (unat b) (unat v)) \<le> 20\<close> by simp
  from emit_digits_ok [OF s this] D False show ?thesis
    by (auto simp: sink_write_unsigned_def num_text_def rev_map unat_eq_0)
qed

lemma uint_of_int64: "0 \<le> k \<Longrightarrow> k \<le> 2 ^ 63 \<Longrightarrow> uint (word_of_int k :: u64) = k"
  by (simp only: uint_word_of_int_eq) (simp add: take_bit_int_eq_self)

lemma unat_magnitude:
  fixes v :: u64
  shows "sint v < 0 \<Longrightarrow> unat (- v) = nat (- sint v)" and "\<not> sint v < 0 \<Longrightarrow> unat v = nat (sint v)"
proof -
  have b: "- (2 ^ 63) \<le> sint v" "sint v < 2 ^ 63" using sint_ge [of v] sint_lt [of v] by simp_all
  show "unat (- v) = nat (- sint v)" if "sint v < 0"
    using uint_of_int64 [of "- sint v"] that b by (simp add: unat_eq_nat_uint)
  show "unat v = nat (sint v)" if "\<not> sint v < 0"
    using uint_of_int64 [of "sint v"] that b by (simp add: unat_eq_nat_uint)
qed

lemma sink_write_signed_ok:
  assumes s: "sink_ok cap s t"
  shows "\<exists>s'. sink_write_signed s v = Some s' \<and> sink_ok cap s' (t @ signed_text (sint v))"
proof (cases "sint v < 0")
  case True
  obtain s1 where s1: "sink_putc s (chr (CHR ''-'')) = Some s1" "sink_ok cap s1 (t @ [chr (CHR ''-'')])"
    using sink_putc_ok [OF s] by blast
  have "- (v + 1) + 1 = - v" by simp
  moreover note unat_magnitude(1) [OF True]
  ultimately show ?thesis
    using sink_write_unsigned_ok [OF s1(2), of 10 "- v" False] s1(1) True
    by (simp add: sink_write_signed_def signed_text_def)
next
  case False
  from unat_magnitude(2) [OF this] show ?thesis
    using sink_write_unsigned_ok [OF s, of 10 v False] False
    by (simp add: sink_write_signed_def signed_text_def)
qed

section \<open>Formats\<close>

lemma lit_terminated [simp]: "terminated (lit t)"
  by (simp add: lit_def terminated_def)

lemma va_str_ok: "va_str args = Some (t, rest) \<Longrightarrow> list_all arg_ok args \<Longrightarrow>
  terminated (case t of None \<Rightarrow> lit ''(null)'' | Some t \<Rightarrow> t) \<and> list_all arg_ok rest"
  by (cases args rule: va_str.cases) (auto simp: arg_ok_def split: option.splits)

lemma va_int_rest: "va_int args = Some (a, rest) \<Longrightarrow> list_all arg_ok args \<Longrightarrow> list_all arg_ok rest"
  by (cases args rule: va_int.cases) auto

lemma va_long_rest: "va_long args = Some (a, rest) \<Longrightarrow> list_all arg_ok args \<Longrightarrow> list_all arg_ok rest"
  by (cases args rule: va_long.cases) auto

lemma va_ptr_rest: "va_ptr args = Some (a, rest) \<Longrightarrow> list_all arg_ok args \<Longrightarrow> list_all arg_ok rest"
  by (cases args rule: va_ptr.cases) auto

lemmas va_rest_ok = va_int_rest va_long_rest va_ptr_rest

lemma va_wide_ok:
  "va_signed wide args = Some (a, rest) \<Longrightarrow> list_all arg_ok args \<Longrightarrow> list_all arg_ok rest"
  "va_unsigned wide args = Some (b, rest) \<Longrightarrow> list_all arg_ok args \<Longrightarrow> list_all arg_ok rest"
  by (auto simp: va_signed_def va_unsigned_def split: if_splits bind_splits dest: va_rest_ok)

text \<open>Each conversion appends its text; the seven conversions have distinct characters.\<close>

lemma conversion_chars:
  "distinct [chr (CHR ''%''), chr (CHR ''s''), chr (CHR ''c''), chr (CHR ''d''), chr (CHR ''i''),
     chr (CHR ''u''), chr (CHR ''x''), chr (CHR ''X''), chr (CHR ''p'')]"
  by (simp add: chr_def)

lemma convert_ok:
  assumes s: "sink_ok cap s t" and args: "list_all arg_ok args"
    and c: "conv_text wide c args = Some (u, rest)"
  shows "(\<exists>s'. convert wide c s args = Some (s', rest) \<and> sink_ok cap s' (t @ u)) \<and> list_all arg_ok rest"
proof -
  note num = sink_write_unsigned_ok [OF s]
  consider "c = chr (CHR ''%'')" | "c = chr (CHR ''s'')" | "c = chr (CHR ''c'')"
    | "c = chr (CHR ''d'') \<or> c = chr (CHR ''i'')" | "c = chr (CHR ''u'')"
    | "c = chr (CHR ''x'') \<or> c = chr (CHR ''X'')" | "c = chr (CHR ''p'')"
    | "c \<notin> set [chr (CHR ''%''), chr (CHR ''s''), chr (CHR ''c''), chr (CHR ''d''), chr (CHR ''i''),
     chr (CHR ''u''), chr (CHR ''x''), chr (CHR ''X''), chr (CHR ''p'')]"
    by auto
  then show ?thesis
  proof cases
    case 1
    then show ?thesis using c args sink_putc_ok [OF s, of "chr (CHR ''%'')"] by (auto simp: convert_def conv_text_def)
  next
    case 2
    then obtain v where v: "va_str args = Some (v, rest)" "u = str_text v"
      using c by (auto simp: conv_text_def chr_def)
    then show ?thesis
      using 2 va_str_ok [OF v(1) args] sink_write_ok [OF s]
      by (fastforce simp: convert_def chr_def str_text_def)
  next
    case 3
    then obtain v where v: "va_int args = Some (v, rest)" "u = [ucast v]"
      using c by (auto simp: conv_text_def chr_def)
    then show ?thesis
      using 3 va_rest_ok(1) [OF v(1) args] sink_putc_ok [OF s, of "ucast v"] by (auto simp: convert_def chr_def)
  next
    case 4
    then obtain v where v: "va_signed wide args = Some (v, rest)" "u = signed_text (sint v)"
      using c by (auto simp: conv_text_def chr_def)
    then show ?thesis
      using 4 va_wide_ok(1) [OF v(1) args] sink_write_signed_ok [OF s, of v] by (auto simp: convert_def chr_def)
  next
    case 5
    then obtain v where v: "va_unsigned wide args = Some (v, rest)" "u = num_text False 10 (unat v)"
      using c by (auto simp: conv_text_def chr_def)
    then show ?thesis
      using 5 va_wide_ok(2) [OF v(1) args] num [of 10 v False] by (auto simp: convert_def chr_def)
  next
    case 6
    then obtain v where v: "va_unsigned wide args = Some (v, rest)"
        "u = num_text (c = chr (CHR ''X'')) 16 (unat v)"
      using c by (auto simp: conv_text_def chr_def)
    then show ?thesis
      using 6 va_wide_ok(2) [OF v(1) args] num [of 16 v "c = chr (CHR ''X'')"] by (auto simp: convert_def chr_def)
  next
    case 7
    then obtain v where v: "va_ptr args = Some (v, rest)"
        "u = cstr (lit ''0x'') @ num_text False 16 (unat v)"
      using c by (auto simp: conv_text_def chr_def)
    obtain s1 where s1: "sink_write s (lit ''0x'') = Some s1" "sink_ok cap s1 (t @ cstr (lit ''0x''))"
      using sink_write_ok [OF s lit_terminated] by blast
    show ?thesis
      using 7 v s1(1) va_rest_ok(3) [OF v(1) args] sink_write_unsigned_ok [OF s1(2), of 16 v False]
      by (auto simp: convert_def chr_def)
  next
    case 8
    obtain s1 where s1: "sink_putc s (chr (CHR ''%'')) = Some s1" "sink_ok cap s1 (t @ [chr (CHR ''%'')])"
      using sink_putc_ok [OF s] by blast
    show ?thesis
      using 8 c args s1(1) sink_putc_ok [OF s1(2), of c] by (auto simp: convert_def conv_text_def)
  qed
qed

lemma modifier_text:
  assumes "0 \<notin> set f" "f \<noteq> []"
  shows "modifier (f @ 0 # r) = Some (fst (split_modifier f), snd (split_modifier f) @ 0 # r)"
  using assms by (cases f rule: split_modifier.cases; cases "tl f") (auto simp: modifier_def getb_def chr_def)

lemma split_modifier_nul: "0 \<notin> set f \<Longrightarrow> 0 \<notin> set (snd (split_modifier f))"
  by (cases f rule: split_modifier.cases; cases "tl f") auto

lemma format_loop_ok:
  "0 \<notin> set f \<Longrightarrow> list_all arg_ok args \<Longrightarrow> format_text f args = Some u \<Longrightarrow> sink_ok cap s t \<Longrightarrow>
   \<exists>s'. format_loop (f @ 0 # r) args s = Some s' \<and> sink_ok cap s' (t @ u)"
proof (induction f args arbitrary: s t u rule: format_text.induct)
  case (1 f args)
  show ?case
  proof (cases f)
    case Nil
    then show ?thesis using "1.prems" by (simp add: format_loop.simps format_text.simps)
  next
    case (Cons c f1)
    have nul: "c \<noteq> 0" "0 \<notin> set f1" using "1.prems"(1) Cons by auto
    show ?thesis
    proof (cases "c = chr (CHR ''%'')")
      case False
      then obtain u1 where u1: "format_text f1 args = Some u1" "u = c # u1"
        using "1.prems"(3) Cons by (auto simp: format_text.simps [of "_ # _"])
      obtain s1 where s1: "sink_putc s c = Some s1" "sink_ok cap s1 (t @ [c])"
        using sink_putc_ok [OF "1.prems"(4)] by blast
      from "1.IH"(1) [OF Cons False nul(2) "1.prems"(2) u1(1) s1(2)] show ?thesis
        unfolding Cons using u1(2) nul(1) False s1(1) by (subst format_loop.simps) simp
    next
      case pc: True
      show ?thesis
      proof (cases "f1 = []")
        case True
        then have "u = [c]" using "1.prems"(3) Cons pc by (simp add: format_text.simps [of "_ # _"])
        then show ?thesis
          unfolding Cons True using pc sink_putc_ok [OF "1.prems"(4), of c] nul(1)
          by (subst format_loop.simps) simp
      next
        case False
        obtain wide rest where m: "split_modifier f1 = (wide, rest)" by (cases "split_modifier f1")
        then obtain k rest1 where rest: "rest = k # rest1"
          using "1.prems"(3) Cons pc False by (cases rest) (auto simp: format_text.simps [of "_ # _"])
        obtain v args' where v: "conv_text wide k args = Some (v, args')"
          using "1.prems"(3) Cons pc False m rest
          by (cases "conv_text wide k args") (auto simp: format_text.simps [of "_ # _"])
        obtain u1 where u1: "format_text rest1 args' = Some u1" "u = v @ u1"
          using "1.prems"(3) Cons pc False m rest v by (auto simp: format_text.simps [of "_ # _"])
        obtain s1 where s1: "convert wide k s args = Some (s1, args')" "sink_ok cap s1 (t @ v)" "list_all arg_ok args'"
          using convert_ok [OF "1.prems"(4,2) v] by blast
        have "0 \<notin> set rest1" using split_modifier_nul [OF nul(2)] m rest by simp
        from "1.IH"(2) [OF Cons _ False m [symmetric] rest v refl this s1(3) u1(1) s1(2)] pc
        obtain s' where s': "format_loop (rest1 @ 0 # r) args' s1 = Some s'" "sink_ok cap s' (t @ u)"
          using u1(2) by auto
        have hd: "getb (f1 @ 0 # r) 0 = Some (hd f1)" "hd f1 \<noteq> 0"
          using False nul(2) by (cases f1; auto simp: getb_def)+
        show ?thesis
          unfolding Cons using pc nul hd s' s1(1) modifier_text [OF nul(2) False, of r] m rest
          by (subst format_loop.simps) (simp add: getb_def)
      qed
    qed
  qed
qed

lemma vsnprintf_ok:
  assumes "terminated fmt" and "list_all arg_ok args" and "length buffer = cap"
    and "format_text (cstr fmt) args = Some t"
  shows "\<exists>buf. xbks_vsnprintf buffer cap fmt args = Some (buf, min (int (length t)) 2147483647) \<and>
    length buf = cap \<and> (cap \<noteq> 0 \<longrightarrow> take (min (length t) (cap - 1) + 1) buf = take (cap - 1) t @ [0])"
proof -
  obtain f r where f: "fmt = f @ 0 # r" "0 \<notin> set f" "cstr fmt = f" using assms(1) by (rule terminatedE)
  have "sink_ok cap \<lparr>sink_buffer = buffer, sink_capacity = cap, sink_length = 0\<rparr> []"
    using assms(3) by (simp add: sink_ok_def)
  from format_loop_ok [OF f(2) assms(2) _ this, of t r] assms(4) f
  obtain s where s: "format_loop fmt args \<lparr>sink_buffer = buffer, sink_capacity = cap, sink_length = 0\<rparr> = Some s"
      "sink_ok cap s t" by auto
  define k where "k = min (length t) (cap - 1)"
  have sl: "sink_length s = length t" "length (sink_buffer s) = cap" "take k (sink_buffer s) = take (cap - 1) t"
    using s(2) by (auto simp: sink_ok_def k_def)
  have ret: "(if length t > 2147483647 then 2147483647 else int (length t)) = min (int (length t)) 2147483647"
    by auto
  show ?thesis
  proof (cases "cap = 0")
    case True
    then show ?thesis using s(1) sl ret by (simp add: xbks_vsnprintf_def Let_def)
  next
    case False
    have k: "(if length t < cap then length t else cap - 1) = k" "k < cap" using False by (auto simp: k_def)
    have "take (k + 1) ((sink_buffer s)[k := 0]) = take (cap - 1) t @ [0]"
      using k(2) sl by (simp add: take_Suc_conv_app_nth)
    moreover have "xbks_vsnprintf buffer cap fmt args =
        Some ((sink_buffer s)[k := 0], min (int (length t)) 2147483647)"
      unfolding xbks_vsnprintf_def Let_def s(1) bind.bind_lunit sl(1) k(1) ret using False k(2) sl(2) by simp
    ultimately show ?thesis unfolding k_def [symmetric] using sl(2) by simp
  qed
qed

section \<open>Properties\<close>

text \<open>
  Property C26. \<^verbatim>\<open>xbks_vsnprintf\<close> implements formatted output: for a NUL-terminated format whose
  text is defined (arguments of the right types, no dangling length modifier) it ends, writes
  only inside the buffer, leaves the longest prefix of the text that fits there followed by a NUL, and
  returns the length of the whole text, cut at \<^verbatim>\<open>INT32_MAX\<close>.
\<close>

theorem vsnprintf_correct:
  assumes "terminated fmt" and "list_all arg_ok args" and "length buffer = cap"
    and "format_text (cstr fmt) args = Some t"
  shows "\<exists>buf. xbks_vsnprintf buffer cap fmt args = Some (buf, min (int (length t)) 2147483647) \<and>
    length buf = cap \<and> (cap \<noteq> 0 \<longrightarrow> take (min (length t) (cap - 1) + 1) buf = take (cap - 1) t @ [0])"
  using assms by (rule vsnprintf_ok)

theorem vsnprintf_correct_witness:
  "\<exists>buf. xbks_vsnprintf (replicate 8 1) 8 (lit ''pid=%d!'') [ArgInt (- 12)] = Some (buf, 8) \<and>
    length buf = 8 \<and> take 8 buf = map chr ''pid=-12'' @ [0]"
proof -
  have t: "format_text (cstr (lit ''pid=%d!'')) [ArgInt (- 12)] = Some (map chr ''pid=-12!'')"
    by code_simp
  show ?thesis
    using vsnprintf_correct [OF lit_terminated _ _ t, of "replicate 8 1" 8] by (simp add: arg_ok_def eval_nat_numeral)
qed





end
