(* ===== verification/Devices.thy ===== *)
theory Devices
  imports Format_Lib
begin

text \<open>
  The character devices: the serial port (\<^verbatim>\<open>drivers/serial.c\<close>), the PS/2 keyboard
  (\<^verbatim>\<open>drivers/keyboard.c\<close>), the writing side of the terminal (\<^verbatim>\<open>drivers/tty.c\<close>) and the console and log
  on top of them (\<^verbatim>\<open>kernel/log.c\<close>).

  The environment answers the \<open>n\<close>-th port read of the kernel with a byte that nothing is assumed
  about; port writes and the bytes handed to the terminal emulator are recorded in order. A busy
  wait that never ends is \<^term>\<open>None\<close>.
\<close>

section \<open>Ports\<close>

record io_state =
  inputs :: "nat \<Rightarrow> u16 \<Rightarrow> u8" \<comment> \<open>what the n-th read finds at a port\<close>
  reads :: nat \<comment> \<open>reads so far\<close>
  outputs :: "(u16 \<times> u8) list" \<comment> \<open>port writes, in order\<close>
  shift_pressed :: bool
  tty_context :: u64 \<comment> \<open>the terminal emulator, 0 for none\<close>
  tty_output :: "u8 list" \<comment> \<open>bytes passed to \<^verbatim>\<open>flanterm_write\<close>, in order\<close>

definition xbks_inb :: "u16 \<Rightarrow> io_state \<Rightarrow> u8 \<times> io_state" where
  "xbks_inb port s = (inputs s (reads s) port, s\<lparr>reads := reads s + 1\<rparr>)"

definition xbks_outb :: "u16 \<Rightarrow> u8 \<Rightarrow> io_state \<Rightarrow> io_state" where
  "xbks_outb port v s = s\<lparr>outputs := outputs s @ [(port, v)]\<rparr>"

definition xbks_debugcon_write_byte :: "u8 \<Rightarrow> io_state \<Rightarrow> io_state" where
  "xbks_debugcon_write_byte v s = xbks_outb 0xe9 v s"

section \<open>Serial port\<close>

abbreviation XBKS_SERIAL_COM1 :: u16 where "XBKS_SERIAL_COM1 \<equiv> 0x3f8"
abbreviation SERIAL_DATA :: u16 where "SERIAL_DATA \<equiv> 0"
abbreviation SERIAL_INTERRUPT_ENABLE :: u16 where "SERIAL_INTERRUPT_ENABLE \<equiv> 1"
abbreviation SERIAL_FIFO_CONTROL :: u16 where "SERIAL_FIFO_CONTROL \<equiv> 2"
abbreviation SERIAL_LINE_CONTROL :: u16 where "SERIAL_LINE_CONTROL \<equiv> 3"
abbreviation SERIAL_MODEM_CONTROL :: u16 where "SERIAL_MODEM_CONTROL \<equiv> 4"
abbreviation SERIAL_LINE_STATUS :: u16 where "SERIAL_LINE_STATUS \<equiv> 5"

definition serial_transmit_empty :: "u16 \<Rightarrow> io_state \<Rightarrow> bool \<times> io_state" where
  "serial_transmit_empty port s =
     (case xbks_inb (port + SERIAL_LINE_STATUS) s of (v, s') \<Rightarrow> (v AND 0x20 \<noteq> 0, s'))"

definition serial_received :: "u16 \<Rightarrow> io_state \<Rightarrow> bool \<times> io_state" where
  "serial_received port s =
     (case xbks_inb (port + SERIAL_LINE_STATUS) s of (v, s') \<Rightarrow> (v AND 0x01 \<noteq> 0, s'))"

definition xbks_serial_init :: "u16 \<Rightarrow> io_state \<Rightarrow> bool \<times> io_state" where
  "xbks_serial_init port s = (True,
     fold (\<lambda>(register, v). xbks_outb (port + register) v)
       [(SERIAL_INTERRUPT_ENABLE, 0x00), (SERIAL_LINE_CONTROL, 0x80), (SERIAL_DATA, 0x03),
        (SERIAL_INTERRUPT_ENABLE, 0x00), (SERIAL_LINE_CONTROL, 0x03), (SERIAL_FIFO_CONTROL, 0xc7),
        (SERIAL_MODEM_CONTROL, 0x0b)] s)"

text \<open>The byte read, or \<^term>\<open>None\<close> where the C function returns false.\<close>

definition xbks_serial_read_byte :: "u16 \<Rightarrow> io_state \<Rightarrow> u8 option \<times> io_state" where
  "xbks_serial_read_byte port s =
     (case serial_received port s of (ready, s1) \<Rightarrow>
        if \<not> ready then (None, s1)
        else case xbks_inb port s1 of (v, s2) \<Rightarrow> (Some v, s2))"

partial_function (option) serial_wait :: "u16 \<Rightarrow> io_state \<Rightarrow> io_state option" where
  "serial_wait port s =
     (case serial_transmit_empty port s of (ready, s') \<Rightarrow>
        if \<not> ready then serial_wait port s' else Some s')"

declare serial_wait.simps [code]

definition xbks_serial_write_byte :: "u16 \<Rightarrow> u8 \<Rightarrow> io_state \<Rightarrow> io_state option" where
  "xbks_serial_write_byte port byte s = do {
     s' \<leftarrow> serial_wait port s;
     Some (xbks_outb port byte s') }"

fun xbks_serial_write :: "u16 \<Rightarrow> u8 list \<Rightarrow> io_state \<Rightarrow> io_state option" where
  "xbks_serial_write port [] s = Some s"
| "xbks_serial_write port (c # data) s = do {
     s1 \<leftarrow> (if c = 10 then xbks_serial_write_byte port 13 s else Some s);
     s2 \<leftarrow> xbks_serial_write_byte port c s1;
     xbks_serial_write port data s2 }"

fun xbks_serial_write_string :: "u16 \<Rightarrow> u8 list \<Rightarrow> io_state \<Rightarrow> io_state option" where
  "xbks_serial_write_string port [] s = None"
| "xbks_serial_write_string port (c # text) s =
     (if c \<noteq> 0 then do {
        s1 \<leftarrow> (if c = 10 then xbks_serial_write_byte port 13 s else Some s);
        s2 \<leftarrow> xbks_serial_write_byte port c s1;
        xbks_serial_write_string port text s2 }
      else Some s)"

section \<open>Keyboard\<close>

abbreviation PS2_DATA_PORT :: u16 where "PS2_DATA_PORT \<equiv> 0x60"
abbreviation PS2_STATUS_PORT :: u16 where "PS2_STATUS_PORT \<equiv> 0x64"
abbreviation PS2_STATUS_OUTPUT_FULL :: u8 where "PS2_STATUS_OUTPUT_FULL \<equiv> 1"

text \<open>The designated initialisers of the tables, from scancode 0 on; keys without one are 0.\<close>

definition normal_scancode_map :: "u8 list" where
  "normal_scancode_map =
     [0, 0x1b] @ map chr ''1234567890-='' @ [8, 9] @ map chr ''qwertyuiop[]'' @ [10, 0] @
     map chr ''asdfghjkl;'' @ [39] @ map chr ''`'' @ [0, 92] @ map chr ''zxcvbnm,./'' @
     [0, 0, 0, 32] @ replicate 70 0"

definition shifted_scancode_map :: "u8 list" where
  "shifted_scancode_map =
     [0, 0x1b] @ map chr ''!@#$%^&*()_+'' @ [8, 9] @ map chr ''QWERTYUIOP{}'' @ [10, 0] @
     map chr ''ASDFGHJKL:'' @ [34] @ map chr ''~'' @ [0, 124] @ map chr ''ZXCVBNM<>?'' @
     [0, 0, 0, 32] @ replicate 70 0"

definition xbks_keyboard_init :: "io_state \<Rightarrow> io_state" where
  "xbks_keyboard_init s = s\<lparr>shift_pressed := False\<rparr>"

text \<open>What the driver does with one scancode: the character, or none.\<close>

definition handle_scancode :: "u8 \<Rightarrow> io_state \<Rightarrow> u8 option \<times> io_state" where
  "handle_scancode scancode s =
     (let released = scancode AND 0x80 \<noteq> 0; key = scancode AND 0x7f in
      if key = 0x2a \<or> key = 0x36 then (None, s\<lparr>shift_pressed := \<not> released\<rparr>)
      else if released \<or> key \<ge> 128 then (None, s)
      else
        let ch = (if shift_pressed s then shifted_scancode_map ! unat key else normal_scancode_map ! unat key)
        in if ch = 0 then (None, s) else (Some ch, s))"

definition xbks_keyboard_read_char :: "io_state \<Rightarrow> u8 option \<times> io_state" where
  "xbks_keyboard_read_char s =
     (case xbks_serial_read_byte XBKS_SERIAL_COM1 s of
        (Some serial_byte, s1) \<Rightarrow> (Some (if serial_byte = 13 then 10 else serial_byte), s1)
      | (None, s1) \<Rightarrow>
          (case xbks_inb PS2_STATUS_PORT s1 of (status, s2) \<Rightarrow>
             if status AND PS2_STATUS_OUTPUT_FULL = 0 then (None, s2)
             else case xbks_inb PS2_DATA_PORT s2 of (scancode, s3) \<Rightarrow> handle_scancode scancode s3))"

partial_function (option) xbks_keyboard_read_char_blocking :: "io_state \<Rightarrow> (u8 \<times> io_state) option" where
  "xbks_keyboard_read_char_blocking s =
     (case xbks_keyboard_read_char s of
        (Some ch, s') \<Rightarrow> Some (ch, s')
      | (None, s') \<Rightarrow> xbks_keyboard_read_char_blocking s')"

declare xbks_keyboard_read_char_blocking.simps [code]

section \<open>Terminal, console and log\<close>

definition flanterm_write :: "u8 list \<Rightarrow> io_state \<Rightarrow> io_state" where
  "flanterm_write data s = s\<lparr>tty_output := tty_output s @ data\<rparr>"

definition xbks_tty_is_available :: "io_state \<Rightarrow> bool" where
  "xbks_tty_is_available s \<longleftrightarrow> tty_context s \<noteq> 0"

definition xbks_tty_write :: "u8 list \<Rightarrow> io_state \<Rightarrow> io_state" where
  "xbks_tty_write data s =
     (if tty_context s = 0 then s
      else fold (\<lambda>c. flanterm_write (if c = 10 then [13, 10] else [c])) data s)"

definition xbks_tty_write_string :: "u8 list \<Rightarrow> io_state \<Rightarrow> io_state option" where
  "xbks_tty_write_string text s =
     (if tty_context s = 0 then Some s
      else do { n \<leftarrow> strlen text; Some (flanterm_write (take n text) s) })"

datatype xbks_log_level = XBKS_LOG_DEBUG | XBKS_LOG_INFO | XBKS_LOG_WARN | XBKS_LOG_ERROR

fun level_name :: "xbks_log_level \<Rightarrow> u8 list" where
  "level_name XBKS_LOG_DEBUG = lit ''debug''"
| "level_name XBKS_LOG_INFO = lit ''info''"
| "level_name XBKS_LOG_WARN = lit ''warn''"
| "level_name XBKS_LOG_ERROR = lit ''error''"

definition xbks_log_init :: "io_state \<Rightarrow> io_state" where
  "xbks_log_init s = snd (xbks_serial_init XBKS_SERIAL_COM1 s)"

definition xbks_console_write :: "u8 list \<Rightarrow> io_state \<Rightarrow> io_state option" where
  "xbks_console_write data s = do {
     s2 \<leftarrow> xbks_serial_write XBKS_SERIAL_COM1 data (fold xbks_debugcon_write_byte data s);
     Some (xbks_tty_write data s2) }"

definition xbks_console_write_string :: "u8 list \<Rightarrow> io_state \<Rightarrow> io_state option" where
  "xbks_console_write_string text s = do {
     n \<leftarrow> strlen text;
     xbks_console_write (take n text) s }"

definition xbks_log_write :: "xbks_log_level \<Rightarrow> u8 list \<Rightarrow> io_state \<Rightarrow> io_state option" where
  "xbks_log_write level message s = do {
     s1 \<leftarrow> xbks_console_write_string (lit ''['') s;
     s2 \<leftarrow> xbks_console_write_string (level_name level) s1;
     s3 \<leftarrow> xbks_console_write_string (lit ''] '') s2;
     s4 \<leftarrow> xbks_console_write_string message s3;
     xbks_console_write_string [10, 0] s4 }"

definition xbks_log_printf :: "xbks_log_level \<Rightarrow> u8 list \<Rightarrow> fmt_arg list \<Rightarrow> io_state \<Rightarrow> io_state option" where
  "xbks_log_printf level fmt args s = do {
     (buffer, written) \<leftarrow> xbks_vsnprintf (replicate 512 0) 512 fmt args;
     xbks_log_write level buffer s }"

section \<open>Output\<close>

definition crlf :: "u8 list \<Rightarrow> u8 list" where
  "crlf data = concat (map (\<lambda>c. if c = 10 then [13, 10] else [c]) data)"

text \<open>The transmitter of the serial port becomes free again and again.\<close>

definition serial_fair :: "io_state \<Rightarrow> bool" where
  "serial_fair s \<longleftrightarrow> (\<forall>n. \<exists>m \<ge> n. inputs s m (XBKS_SERIAL_COM1 + SERIAL_LINE_STATUS) AND 0x20 \<noteq> 0)"

definition port_bytes :: "u16 \<Rightarrow> io_state \<Rightarrow> u8 list" where
  "port_bytes port s = map snd (filter (\<lambda>(p, v). p = port) (outputs s))"

text \<open>The devices have shown the text \<open>t\<close> between two states, and nothing else has changed.\<close>

definition wrote :: "io_state \<Rightarrow> u8 list \<Rightarrow> io_state \<Rightarrow> bool" where
  "wrote s t s' \<longleftrightarrow>
     inputs s' = inputs s \<and> shift_pressed s' = shift_pressed s \<and> tty_context s' = tty_context s \<and>
     reads s \<le> reads s' \<and>
     port_bytes 0xe9 s' = port_bytes 0xe9 s @ t \<and>
     port_bytes XBKS_SERIAL_COM1 s' = port_bytes XBKS_SERIAL_COM1 s @ crlf t \<and>
     (\<forall>port. port \<noteq> 0xe9 \<and> port \<noteq> XBKS_SERIAL_COM1 \<longrightarrow> port_bytes port s' = port_bytes port s) \<and>
     tty_output s' = tty_output s @ (if tty_context s = 0 then [] else crlf t)"

lemma crlf_append [simp]: "crlf (a @ b) = crlf a @ crlf b" "crlf [] = []"
  by (simp_all add: crlf_def)

lemma crlf_Cons: "crlf (c # data) = (if c = 10 then [13, 10] else [c]) @ crlf data"
  by (simp add: crlf_def)

lemma wrote_trans: "wrote s t s1 \<Longrightarrow> wrote s1 u s2 \<Longrightarrow> wrote s (t @ u) s2"
  by (auto simp: wrote_def)

lemma wrote_fair: "wrote s t s' \<Longrightarrow> serial_fair s \<Longrightarrow> serial_fair s'"
  by (simp add: wrote_def serial_fair_def)

lemma serial_wait_ok:
  assumes "serial_fair s"
  shows "\<exists>k. serial_wait XBKS_SERIAL_COM1 s = Some (s\<lparr>reads := reads s + k\<rparr>)"
proof -
  let ?ready = "\<lambda>n. inputs s n (XBKS_SERIAL_COM1 + SERIAL_LINE_STATUS) AND 0x20 \<noteq> 0"
  obtain m where "m \<ge> reads s" "?ready m" using assms unfolding serial_fair_def by blast
  then obtain d where "?ready (reads s + d)" by (metis le_add_diff_inverse)
  then show ?thesis
    using refl [of "inputs s"]
  proof (induction d arbitrary: s rule: less_induct)
    case (less d)
    let ?s1 = "s\<lparr>reads := reads s + 1\<rparr>"
    show ?case
    proof (cases "inputs s (reads s) (XBKS_SERIAL_COM1 + SERIAL_LINE_STATUS) AND 0x20 \<noteq> 0")
      case True
      then have "serial_wait XBKS_SERIAL_COM1 s = Some ?s1"
        by (subst serial_wait.simps) (simp add: serial_transmit_empty_def xbks_inb_def)
      then show ?thesis by blast
    next
      case False
      then have "d \<noteq> 0" using less.prems by (cases d) auto
      then have "inputs ?s1 (reads ?s1 + (d - 1)) (XBKS_SERIAL_COM1 + SERIAL_LINE_STATUS) AND 0x20 \<noteq> 0"
        using less.prems by simp
      from less.IH [OF _ this refl] \<open>d \<noteq> 0\<close>
      obtain k where "serial_wait XBKS_SERIAL_COM1 ?s1 = Some (?s1\<lparr>reads := reads ?s1 + k\<rparr>)" by auto
      then have "serial_wait XBKS_SERIAL_COM1 s = Some (s\<lparr>reads := reads s + Suc k\<rparr>)"
        using False by (subst serial_wait.simps) (simp add: serial_transmit_empty_def xbks_inb_def)
      then show ?thesis by blast
    qed
  qed
qed

lemma serial_write_byte_ok:
  assumes "serial_fair s"
  shows "\<exists>k. xbks_serial_write_byte XBKS_SERIAL_COM1 c s =
    Some (s\<lparr>reads := reads s + k, outputs := outputs s @ [(XBKS_SERIAL_COM1, c)]\<rparr>)"
  using serial_wait_ok [OF assms] by (auto simp: xbks_serial_write_byte_def xbks_outb_def)

lemma serial_write_ok:
  "serial_fair s \<Longrightarrow> \<exists>k. xbks_serial_write XBKS_SERIAL_COM1 data s =
     Some (s\<lparr>reads := reads s + k, outputs := outputs s @ map (Pair XBKS_SERIAL_COM1) (crlf data)\<rparr>)"
proof (induction data arbitrary: s)
  case Nil
  have "s = s\<lparr>reads := reads s + 0, outputs := outputs s @ map (Pair XBKS_SERIAL_COM1) (crlf [])\<rparr>" by simp
  then show ?case unfolding xbks_serial_write.simps by blast
next
  case (Cons c data)
  obtain k1 s1 where s1: "(if c = 10 then xbks_serial_write_byte XBKS_SERIAL_COM1 13 s else Some s) = Some s1"
      "s1 = s\<lparr>reads := reads s + k1,
        outputs := outputs s @ map (Pair XBKS_SERIAL_COM1) (if c = 10 then [13] else [])\<rparr>"
  proof (cases "c = 10")
    case True
    then show ?thesis using serial_write_byte_ok [OF Cons.prems, of 13] that by auto
  next
    case False
    then show ?thesis using that [of s 0] by simp
  qed
  have f1: "serial_fair s1" using Cons.prems s1(2) by (simp add: serial_fair_def)
  obtain k2 s2 where s2: "xbks_serial_write_byte XBKS_SERIAL_COM1 c s1 = Some s2"
      "s2 = s1\<lparr>reads := reads s1 + k2, outputs := outputs s1 @ [(XBKS_SERIAL_COM1, c)]\<rparr>"
    using serial_write_byte_ok [OF f1, of c] by blast
  have "serial_fair s2" using f1 s2(2) by (simp add: serial_fair_def)
  from Cons.IH [OF this] obtain k3 where k3: "xbks_serial_write XBKS_SERIAL_COM1 data s2 =
      Some (s2\<lparr>reads := reads s2 + k3, outputs := outputs s2 @ map (Pair XBKS_SERIAL_COM1) (crlf data)\<rparr>)" by blast
  have "s2\<lparr>reads := reads s2 + k3, outputs := outputs s2 @ map (Pair XBKS_SERIAL_COM1) (crlf data)\<rparr> =
      s\<lparr>reads := reads s + (k1 + k2 + k3),
        outputs := outputs s @ map (Pair XBKS_SERIAL_COM1) (crlf (c # data))\<rparr>"
    unfolding s2(2) s1(2) by (simp add: crlf_Cons)
  then show ?case using s1(1) s2(1) k3 by auto
qed

lemma debugcon_fold:
  "fold xbks_debugcon_write_byte data s = s\<lparr>outputs := outputs s @ map (Pair 0xe9) data\<rparr>"
  by (induction data arbitrary: s) (auto simp: xbks_debugcon_write_byte_def xbks_outb_def)

lemma tty_write_ok:
  "xbks_tty_write data s = s\<lparr>tty_output := tty_output s @ (if tty_context s = 0 then [] else crlf data)\<rparr>"
proof -
  have "fold (\<lambda>c. flanterm_write (if c = 10 then [13, 10] else [c])) data s =
      s\<lparr>tty_output := tty_output s @ crlf data\<rparr>" for s
    by (induction data arbitrary: s) (auto simp: flanterm_write_def crlf_Cons)
  then show ?thesis by (simp add: xbks_tty_write_def)
qed

lemma port_bytes_append:
  "port_bytes p (s\<lparr>outputs := outputs s @ map (Pair q) t\<rparr>) = port_bytes p s @ (if p = q then t else [])"
  by (induction t rule: rev_induct) (auto simp: port_bytes_def)

lemma console_write_ok:
  assumes "serial_fair s"
  shows "\<exists>s'. xbks_console_write data s = Some s' \<and> wrote s data s'"
proof -
  let ?s1 = "s\<lparr>outputs := outputs s @ map (Pair 0xe9) data\<rparr>"
  have "serial_fair ?s1" using assms by (simp add: serial_fair_def)
  from serial_write_ok [OF this, of data] obtain k where
    k: "xbks_serial_write XBKS_SERIAL_COM1 data ?s1 =
      Some (?s1\<lparr>reads := reads s + k, outputs := outputs ?s1 @ map (Pair XBKS_SERIAL_COM1) (crlf data)\<rparr>)" by auto
  have p: "port_bytes p (?s1\<lparr>reads := r, outputs := outputs ?s1 @ map (Pair XBKS_SERIAL_COM1) (crlf data),
      tty_output := z\<rparr>) =
    port_bytes p s @ (if p = 0xe9 then data else []) @ (if p = XBKS_SERIAL_COM1 then crlf data else [])" for p r z
    using port_bytes_append [of p ?s1 XBKS_SERIAL_COM1 "crlf data"] port_bytes_append [of p s "0xe9" data]
    by (auto simp: port_bytes_def)
  show ?thesis
    unfolding xbks_console_write_def debugcon_fold k using p
    by (auto simp: tty_write_ok wrote_def)
qed

lemma console_write_string_ok:
  assumes "serial_fair s" "terminated t"
  shows "\<exists>s'. xbks_console_write_string t s = Some s' \<and> wrote s (cstr t) s'"
proof -
  have "take (length (cstr t)) t = cstr t" unfolding cstr_def by (rule takeWhile_eq_take [symmetric])
  then show ?thesis
    using console_write_ok [OF assms(1), of "cstr t"] strlen_cstr [OF assms(2)]
    by (simp add: xbks_console_write_string_def)
qed

definition log_text :: "xbks_log_level \<Rightarrow> u8 list \<Rightarrow> u8 list" where
  "log_text level message = [chr (CHR ''['')] @ cstr (level_name level) @ [chr (CHR '']''), 32] @ message @ [10]"

lemma log_write_ok:
  assumes f: "serial_fair s" and m: "terminated message"
  shows "\<exists>s'. xbks_log_write level message s = Some s' \<and> wrote s (log_text level (cstr message)) s'"
proof -
  have lv: "terminated (level_name level)" by (cases level) simp_all
  have c: "cstr (lit ''['') = [chr (CHR ''['')]" "cstr (lit ''] '') = [chr (CHR '']''), 32]" "cstr [10, 0] = [10]"
      "terminated [10, 0]"
    by (simp_all add: cstr_def lit_def chr_def terminated_def)
  obtain s1 where s1: "xbks_console_write_string (lit ''['') s = Some s1" "wrote s [chr (CHR ''['')] s1"
    using console_write_string_ok [OF f lit_terminated, of "''[''"] c by auto
  obtain s2 where s2: "xbks_console_write_string (level_name level) s1 = Some s2" "wrote s1 (cstr (level_name level)) s2"
    using console_write_string_ok [OF wrote_fair [OF s1(2) f] lv] by auto
  note f2 = wrote_fair [OF s2(2) wrote_fair [OF s1(2) f]]
  obtain s3 where s3: "xbks_console_write_string (lit ''] '') s2 = Some s3" "wrote s2 [chr (CHR '']''), 32] s3"
    using console_write_string_ok [OF f2 lit_terminated, of "''] ''"] c by auto
  note f3 = wrote_fair [OF s3(2) f2]
  obtain s4 where s4: "xbks_console_write_string message s3 = Some s4" "wrote s3 (cstr message) s4"
    using console_write_string_ok [OF f3 m] by auto
  obtain s5 where s5: "xbks_console_write_string [10, 0] s4 = Some s5" "wrote s4 [10] s5"
    using console_write_string_ok [OF wrote_fair [OF s4(2) f3] c(4)] c by auto
  show ?thesis
    using s1(1) s2(1) s3(1) s4(1) s5(1)
      wrote_trans [OF s1(2) wrote_trans [OF s2(2) wrote_trans [OF s3(2) wrote_trans [OF s4(2) s5(2)]]]]
    by (simp add: xbks_log_write_def log_text_def)
qed

section \<open>Keyboard input\<close>

fun type_codes :: "u8 list \<Rightarrow> io_state \<Rightarrow> u8 list \<times> io_state" where
  "type_codes [] s = ([], s)"
| "type_codes (c # cs) s =
     (case handle_scancode c s of (r, s1) \<Rightarrow>
      case type_codes cs s1 of (t, s2) \<Rightarrow> ((case r of None \<Rightarrow> t | Some ch \<Rightarrow> ch # t), s2))"

definition is_shift_code :: "u8 \<Rightarrow> bool" where
  "is_shift_code c \<longleftrightarrow> c AND 0x7f = 0x2a \<or> c AND 0x7f = 0x36"

definition key_char :: "bool \<Rightarrow> u8 \<Rightarrow> u8" where
  "key_char shift c = (if c AND 0x80 \<noteq> 0 then 0 else
     (if shift then shifted_scancode_map else normal_scancode_map) ! unat (c AND 0x7f))"

lemma key_small: "\<not> (128 \<le> c AND (0x7f :: u8))"
proof -
  have "(0x7f :: u8) = mask 7" by (simp add: mask_eq_exp_minus_1)
  then show ?thesis using unat_and_mask [of c 7] by (simp add: word_le_nat_alt)
qed

lemma handle_other_code:
  "\<not> is_shift_code c \<Longrightarrow> handle_scancode c s =
     (if key_char (shift_pressed s) c = 0 then None else Some (key_char (shift_pressed s) c), s)"
  using key_small [of c] by (auto simp: handle_scancode_def Let_def is_shift_code_def key_char_def)

lemma type_other_codes:
  "list_all (\<lambda>c. \<not> is_shift_code c) cs \<Longrightarrow>
   type_codes cs s = (filter (\<lambda>x. x \<noteq> 0) (map (key_char (shift_pressed s)) cs), s)"
  by (induction cs) (auto simp: handle_other_code)

lemma type_codes_append: "type_codes (a @ b) s =
  (case type_codes a s of (t, s1) \<Rightarrow> case type_codes b s1 of (u, s2) \<Rightarrow> (t @ u, s2))"
  by (induction a arbitrary: s) (auto split: prod.splits option.splits)

lemma blocking_returns:
  "(\<forall>m \<ge> n. inputs s m (XBKS_SERIAL_COM1 + SERIAL_LINE_STATUS) AND 1 \<noteq> 0) \<Longrightarrow>
   \<exists>ch s'. xbks_keyboard_read_char_blocking s = Some (ch, s')"
proof (induction "n - reads s" arbitrary: s rule: less_induct)
  case less
  obtain r s1 where r: "xbks_keyboard_read_char s = (r, s1)" by (cases "xbks_keyboard_read_char s")
  show ?case
  proof (cases r)
    case None
    have adv: "inputs s1 = inputs s \<and> reads s < reads s1"
      using r by (auto simp: xbks_keyboard_read_char_def xbks_serial_read_byte_def serial_received_def
          xbks_inb_def handle_scancode_def Let_def split: if_splits prod.splits option.splits)
    have "reads s < n"
    proof (rule ccontr)
      assume "\<not> reads s < n"
      then have "inputs s (reads s) (XBKS_SERIAL_COM1 + SERIAL_LINE_STATUS) AND 1 \<noteq> 0"
        using less.prems by simp
      then show False using r None
        by (auto simp: xbks_keyboard_read_char_def xbks_serial_read_byte_def serial_received_def xbks_inb_def)
    qed
    then have "n - reads s1 < n - reads s" using adv diff_less_mono2 by blast
    from less.hyps [OF this] less.prems adv
    obtain ch s' where "xbks_keyboard_read_char_blocking s1 = Some (ch, s')" by auto
    then show ?thesis using r None by (subst xbks_keyboard_read_char_blocking.simps) simp
  next
    case (Some ch)
    then show ?thesis using r by (subst xbks_keyboard_read_char_blocking.simps) simp
  qed
qed

lemma log_printf_ok:
  assumes "serial_fair s" and "terminated fmt" and "list_all arg_ok args"
    and "format_text (cstr fmt) args = Some t" and "0 \<notin> set t"
  shows "\<exists>s'. xbks_log_printf level fmt args s = Some s' \<and> wrote s (log_text level (take 511 t)) s'"
proof -
  obtain buf where buf: "xbks_vsnprintf (replicate 512 0) 512 fmt args = Some (buf, min (int (length t)) 2147483647)"
      "length buf = 512" "take (min (length t) 511 + 1) buf = take 511 t @ [0]"
    using vsnprintf_ok [OF assms(2,3) _ assms(4), of "replicate 512 0" 512] by auto
  have "buf = (take 511 t @ [0]) @ drop (min (length t) 511 + 1) buf"
    unfolding buf(3) [symmetric] by (rule append_take_drop_id [symmetric])
  then have eq: "buf = take 511 t @ 0 # drop (min (length t) 511 + 1) buf" by simp
  have n: "0 \<notin> set (take 511 t)" using assms(5) by (auto dest: in_set_takeD)
  have "terminated buf" "cstr buf = take 511 t"
    using n by (subst eq, simp)+
  then show ?thesis
    using log_write_ok [OF assms(1), of buf level] buf(1) by (simp add: xbks_log_printf_def)
qed

section \<open>Properties\<close>

definition demo_io :: io_state where
  "demo_io = \<lparr>inputs = (\<lambda>n port. 0x21), reads = 0, outputs = [], shift_pressed = False,
     tty_context = 1, tty_output = []\<rparr>"

lemma demo_io_fair: "serial_fair demo_io"
  by (auto simp: serial_fair_def demo_io_def)

lemma list_all2_replicate: "P a b \<Longrightarrow> list_all2 P (replicate n a) (replicate n b)"
  by (induction n) simp_all

text \<open>
  Property C27. A log line reaches every device: when the serial transmitter becomes free again and
  again, \<^verbatim>\<open>xbks_log_printf\<close> ends and appends \<^verbatim>\<open>[level] message\<close> with a newline to the debug console,
  the same text with carriage returns before newlines to the serial port and to the terminal when
  there is one, and writes to no other port. The message is the text of the format, cut to the 511
  characters of the buffer.
\<close>

theorem log_printf_correct:
  assumes "serial_fair s" and "terminated fmt" and "list_all arg_ok args"
    and "format_text (cstr fmt) args = Some t" and "0 \<notin> set t"
  shows "\<exists>s'. xbks_log_printf level fmt args s = Some s' \<and> wrote s (log_text level (take 511 t)) s'"
  using assms by (rule log_printf_ok)

theorem log_printf_correct_witness:
  "\<exists>s'. xbks_log_printf XBKS_LOG_INFO (lit ''up %u'') [ArgInt 7] demo_io = Some s' \<and>
    wrote demo_io (map chr ''[info] up 7'' @ [10]) s'"
proof -
  have t: "format_text (cstr (lit ''up %u'')) [ArgInt 7] = Some (map chr ''up 7'')" by code_simp
  have "log_text XBKS_LOG_INFO (take 511 (map chr ''up 7'')) = map chr ''[info] up 7'' @ [10]" by code_simp
  then show ?thesis
    using log_printf_correct [OF demo_io_fair lit_terminated _ t, of XBKS_LOG_INFO]
    by (simp add: arg_ok_def chr_def)
qed



text \<open>
  The two keyboard tables agree: they give a character to the same keys, and where the
  plain table has a lower-case letter the shifted table has the same letter in upper case.
\<close>

lemma scancode_maps_agree:
  "length normal_scancode_map = 128 \<and> length shifted_scancode_map = 128 \<and>
   list_all2 (\<lambda>c d. (c = 0 \<longleftrightarrow> d = 0) \<and> (97 \<le> c \<and> c \<le> 122 \<longrightarrow> d = c - 32))
     normal_scancode_map shifted_scancode_map"
  by (simp add: normal_scancode_map_def shifted_scancode_map_def chr_def list_all2_replicate)

text \<open>
  Property C28. The blocking read of a character ends: if from some port access on the serial line
  reports a waiting byte, \<^verbatim>\<open>xbks_keyboard_read_char_blocking\<close> returns a character, however many
  empty polls come before.
\<close>

theorem keyboard_blocking_returns:
  assumes "\<forall>m \<ge> n. inputs s m (XBKS_SERIAL_COM1 + SERIAL_LINE_STATUS) AND 1 \<noteq> 0"
  shows "\<exists>ch s'. xbks_keyboard_read_char_blocking s = Some (ch, s')"
  using assms by (rule blocking_returns)

theorem keyboard_blocking_returns_witness:
  "\<exists>ch s'. xbks_keyboard_read_char_blocking (demo_io\<lparr>inputs := (\<lambda>n port. if n < 3 then 0 else 0x21)\<rparr>) =
     Some (ch, s')"
  by (rule keyboard_blocking_returns [of 3]) (simp add: demo_io_def)

end
