(* ===== verification/Format_Types.thy ===== *)
theory Format_Types
  imports Devices
begin

text \<open>
  The types of formats. A \<^verbatim>\<open>va_arg\<close> of the wrong type is undefined, so that a call of
  \<^verbatim>\<open>xbks_log_printf\<close> is correct only when its format agrees with its arguments. \<open>fits\<close> decides this from the
  format and the types of the arguments alone; a format that fits has a text for all values of its arguments.
  The components that log use it for the formats of the source.
\<close>

datatype arg_kind = KInt | KLong | KPtr | KStr

fun kind_of :: "fmt_arg \<Rightarrow> arg_kind" where
  "kind_of (ArgInt v) = KInt"
| "kind_of (ArgLong v) = KLong"
| "kind_of (ArgPtr v) = KPtr"
| "kind_of (ArgStr t) = KStr"

fun pop :: "arg_kind \<Rightarrow> arg_kind list \<Rightarrow> arg_kind list option" where
  "pop k [] = None"
| "pop k (k' # ks) = (if k = k' then Some ks else None)"

definition conv_kind :: "bool \<Rightarrow> u8 \<Rightarrow> arg_kind list \<Rightarrow> arg_kind list option" where
  "conv_kind wide c ks =
     (if c = chr (CHR ''%'') then Some ks
      else if c = chr (CHR ''s'') then pop KStr ks
      else if c = chr (CHR ''c'') then pop KInt ks
      else if c \<in> {chr (CHR ''d''), chr (CHR ''i''), chr (CHR ''u''), chr (CHR ''x''), chr (CHR ''X'')}
      then pop (if wide then KLong else KInt) ks
      else if c = chr (CHR ''p'') then pop KPtr ks
      else Some ks)"

function fits :: "u8 list \<Rightarrow> arg_kind list \<Rightarrow> bool" where
  "fits fmt ks =
     (case fmt of
        [] \<Rightarrow> True
      | c # fmt1 \<Rightarrow>
          if c \<noteq> chr (CHR ''%'') then fits fmt1 ks
          else if fmt1 = [] then True
          else case split_modifier fmt1 of (wide, rest) \<Rightarrow>
            (case rest of
               [] \<Rightarrow> False
             | k # rest1 \<Rightarrow> (case conv_kind wide k ks of None \<Rightarrow> False | Some ks' \<Rightarrow> fits rest1 ks')))"
  by pat_completeness auto
termination
  by (relation "measure (\<lambda>(fmt, ks). length fmt)") (auto dest!: split_modifier_less simp: less_SucI)

declare fits.simps [simp del]

lemma conv_kind_text:
  assumes "conv_kind wide c (map kind_of args) = Some ks"
  shows "\<exists>t args'. conv_text wide c args = Some (t, args') \<and> ks = map kind_of args'"
  using assms
  by (cases args; cases "hd args")
    (auto simp: conv_kind_def conv_text_def chr_def va_signed_def va_unsigned_def split: if_splits)

text \<open>A format that fits its arguments has a text.\<close>

lemma fits_text: "fits fmt (map kind_of args) \<Longrightarrow> \<exists>t. format_text fmt args = Some t"
proof (induction fmt args rule: format_text.induct)
  case (1 fmt args)
  show ?case
  proof (cases fmt)
    case Nil
    then show ?thesis by (simp add: format_text.simps)
  next
    case (Cons c fmt1)
    show ?thesis
    proof (cases "c = chr (CHR ''%'') \<and> fmt1 \<noteq> []")
      case False
      then show ?thesis using 1 Cons by (auto simp: fits.simps [of "_ # _"] format_text.simps [of "_ # _"])
    next
      case True
      obtain wide rest where m: "split_modifier fmt1 = (wide, rest)" by (cases "split_modifier fmt1")
      then obtain k rest1 ks where r: "rest = k # rest1" "conv_kind wide k (map kind_of args) = Some ks" "fits rest1 ks"
        using 1(3) Cons True by (auto simp: fits.simps [of "_ # _"] split: list.splits option.splits)
      obtain t args' where t: "conv_text wide k args = Some (t, args')" "ks = map kind_of args'"
        using conv_kind_text [OF r(2)] by blast
      have "\<exists>u. format_text rest1 args' = Some u"
        using 1(2) [OF Cons _ _ m [symmetric] r(1) t(1) refl] True r(3) t(2) by simp
      then show ?thesis using Cons True m r(1) t(1) by (auto simp: format_text.simps [of "_ # _"])
    qed
  qed
qed

lemma log_printf_fits:
  assumes "serial_fair s" "terminated fmt" "list_all arg_ok args" "fits (cstr fmt) (map kind_of args)"
  shows "\<exists>s' t. xbks_log_printf level fmt args s = Some s' \<and> wrote s (log_text level t) s'"
proof -
  obtain t where t: "format_text (cstr fmt) args = Some t" using fits_text [OF assms(4)] by blast
  obtain buf where buf: "xbks_vsnprintf (replicate 512 0) 512 fmt args = Some (buf, min (int (length t)) 2147483647)"
      "take (min (length t) 511 + 1) buf = take 511 t @ [0]"
    using vsnprintf_ok [OF assms(2,3) _ t, of "replicate 512 0" 512] by auto
  have "0 \<in> set (take (min (length t) 511 + 1) buf)" unfolding buf(2) by simp
  then have "terminated buf" unfolding terminated_def by (blast dest: in_set_takeD)
  then obtain s' where "xbks_log_write level buf s = Some s'" "wrote s (log_text level (cstr buf)) s'"
    using log_write_ok [OF assms(1)] by blast
  then show ?thesis using buf(1) by (auto simp: xbks_log_printf_def)
qed

lemma log_write_fair:
  assumes "serial_fair s" "terminated message"
  shows "\<exists>s' t. xbks_log_write level message s = Some s' \<and> wrote s t s' \<and> serial_fair s'"
  using log_write_ok [OF assms, of level] wrote_fair assms(1) by blast

text \<open>Numbers are printed without a NUL.\<close>

lemma rdigits_bound: "2 \<le> b \<Longrightarrow> d \<in> set (rdigits b n) \<Longrightarrow> d < b"
  by (induction b n rule: rdigits.induct) (subst (asm) (2) rdigits.simps, auto split: if_splits)

lemma num_text_no_nul: "0 \<notin> set (num_text False 10 n)"
proof -
  have "list_all (\<lambda>c. c \<noteq> 0) (take 10 (alphabet False))" by code_simp
  moreover have "length (alphabet False) = 17" by (rule alphabet_length)
  ultimately have "alphabet False ! d \<noteq> 0" if "d < 10" for d
    using that by (auto simp: list_all_length)
  then have "alphabet False ! d \<noteq> 0" if "d \<in> set (rdigits 10 n)" for d using that rdigits_bound [of 10 d n] by simp
  then have "0 \<notin> (\<lambda>d. alphabet False ! d) ` set (rdigits 10 n)" by (metis imageE)
  then show ?thesis by (simp add: num_text_def chr_def)
qed

section \<open>Properties\<close>

text \<open>
  Property C37. The typing of formats is sound: a format that fits the types of its arguments is printed without a fault
  whatever their values are. \<^verbatim>\<open>xbks_vsnprintf\<close> then reads each argument at its own type, stays in the buffer and returns,
  and \<^verbatim>\<open>xbks_log_printf\<close> writes one complete log line to every device.
\<close>

theorem well_typed_formats_run:
  assumes "terminated fmt" and "list_all arg_ok args" and "fits (cstr fmt) (map kind_of args)"
  shows "(\<exists>buf n. xbks_vsnprintf buffer (length buffer) fmt args = Some (buf, n) \<and> length buf = length buffer) \<and>
    (serial_fair s \<longrightarrow> (\<exists>s' t. xbks_log_printf level fmt args s = Some s' \<and> wrote s (log_text level t) s'))"
proof
  obtain t where t: "format_text (cstr fmt) args = Some t" using fits_text [OF assms(3)] by blast
  show "\<exists>buf n. xbks_vsnprintf buffer (length buffer) fmt args = Some (buf, n) \<and> length buf = length buffer"
    using vsnprintf_ok [OF assms(1,2) refl t] by blast
  show "serial_fair s \<longrightarrow> (\<exists>s' t. xbks_log_printf level fmt args s = Some s' \<and> wrote s (log_text level t) s')"
    using log_printf_fits [OF _ assms] by blast
qed

theorem well_typed_formats_run_witness:
  "\<exists>s' t. xbks_log_printf XBKS_LOG_DEBUG (lit ''mem[%llu] base=0x%llx length=0x%llx type=%s'')
     [ArgLong 0, ArgLong 0x1000, ArgLong 0x9e000, ArgStr (Some (lit ''usable''))] demo_io = Some s' \<and>
     wrote demo_io (log_text XBKS_LOG_DEBUG t) s'"
proof -
  have "fits (cstr (lit ''mem[%llu] base=0x%llx length=0x%llx type=%s'')) [KLong, KLong, KLong, KStr]" by code_simp
  then show ?thesis
    using well_typed_formats_run [OF lit_terminated, of "[ArgLong 0, ArgLong 0x1000, ArgLong 0x9e000, ArgStr (Some (lit ''usable''))]"]
      demo_io_fair lit_terminated by (simp add: arg_ok_def)
qed

end
