(* ===== verification/Fallible.thy ===== *)
theory Fallible
  imports Xbks_Prelude
begin

text \<open>
  Calls that may fault and calls that may fail. A fault of the C program (a read outside of a block, a write outside
  of an array, a signed overflow, a loop that does not end) is \<^term>\<open>None\<close>; a function that returns false has the result
  \<open>Some None\<close>. Lemmas that a call is defined are stated with \<open>runs\<close>, and with \<open>safe\<close> for a call that
  may return false: it is defined, and what it returns, if it does not return false, has a property.
\<close>

section \<open>Calls that may fail\<close>

text \<open>\<^verbatim>\<open>if (!m) { return false; }\<close>, and the rest of the function with the result of \<open>m\<close>.\<close>

definition chain :: "'a option option \<Rightarrow> ('a \<Rightarrow> 'b option option) \<Rightarrow> 'b option option" where
  "chain m f = Option.bind m (\<lambda>r. case r of None \<Rightarrow> Some None | Some v \<Rightarrow> f v)"

definition runs :: "('a \<Rightarrow> bool) \<Rightarrow> 'a option \<Rightarrow> bool" where
  "runs P r \<longleftrightarrow> (\<exists>v. r = Some v \<and> P v)"

definition safe :: "('a \<Rightarrow> bool) \<Rightarrow> 'a option option \<Rightarrow> bool" where
  "safe P r \<longleftrightarrow> runs (pred_option P) r"

named_theorems safe_intros \<open>safety of composed calls\<close>

lemma chain_cong [fundef_cong]:
  "m = m' \<Longrightarrow> (\<And>v. m' = Some (Some v) \<Longrightarrow> f v = f' v) \<Longrightarrow> chain m f = chain m' f'"
  by (cases m') (auto simp: chain_def split: option.splits)

lemma runs_Some [simp]: "runs P (Some v) \<longleftrightarrow> P v"
  by (simp add: runs_def)

lemma runs_None [simp]: "\<not> runs P None"
  by (simp add: runs_def)

lemma safe_Some [simp]: "safe P (Some None)" "safe P (Some (Some v)) \<longleftrightarrow> P v"
  by (simp_all add: safe_def)

lemma safe_None [simp]: "\<not> safe P None"
  by (simp add: safe_def)

lemma runs_bind [safe_intros]:
  "runs P m \<Longrightarrow> (\<And>v. P v \<Longrightarrow> m = Some v \<Longrightarrow> runs Q (f v)) \<Longrightarrow> runs Q (Option.bind m f)"
  by (auto simp: runs_def)

lemma safe_bind [safe_intros]:
  "runs P m \<Longrightarrow> (\<And>v. P v \<Longrightarrow> m = Some v \<Longrightarrow> safe Q (f v)) \<Longrightarrow> safe Q (Option.bind m f)"
  by (auto simp: runs_def)

lemma safe_chain [safe_intros]:
  "safe P m \<Longrightarrow> (\<And>v. P v \<Longrightarrow> m = Some (Some v) \<Longrightarrow> safe Q (f v)) \<Longrightarrow> safe Q (chain m f)"
  by (auto simp: runs_def safe_def chain_def option.pred_set split: option.splits)

lemma safe_if [safe_intros]: "(c \<Longrightarrow> safe P a) \<Longrightarrow> (\<not> c \<Longrightarrow> safe P b) \<Longrightarrow> safe P (if c then a else b)"
  by simp

lemma runs_if [safe_intros]: "(c \<Longrightarrow> runs P a) \<Longrightarrow> (\<not> c \<Longrightarrow> runs P b) \<Longrightarrow> runs P (if c then a else b)"
  by simp

lemma runs_mono: "runs P m \<Longrightarrow> (\<And>v. m = Some v \<Longrightarrow> P v \<Longrightarrow> Q v) \<Longrightarrow> runs Q m"
  by (auto simp: runs_def)

lemma safe_mono: "safe P m \<Longrightarrow> (\<And>v. m = Some (Some v) \<Longrightarrow> P v \<Longrightarrow> Q v) \<Longrightarrow> safe Q m"
  by (auto simp: runs_def safe_def option.pred_set)

end
