(* ===== verification/Console_Text.thy ===== *)
theory Console_Text
  imports Format_Types Fallible
begin

text \<open>
  Functions that write several times, one after the other: \<open>heard\<close> says that a function only writes, \<open>wrote\<close> with the
  text so far what it writes. The rules below put the writes of a function body together.
\<close>

section \<open>Any text\<close>

text \<open>A call that writes to the devices and does nothing else to them.\<close>

definition heard :: "io_state \<Rightarrow> io_state \<Rightarrow> bool" where
  "heard d d' \<longleftrightarrow> serial_fair d' \<and> (\<exists>t. wrote d t d')"

lemma wrote_refl [simp]: "wrote d [] d"
  by (simp add: wrote_def)

lemma heard_refl: "serial_fair d \<Longrightarrow> heard d d"
  unfolding heard_def using wrote_refl by blast

lemma heard_wrote: "heard d0 d \<Longrightarrow> wrote d t d' \<Longrightarrow> heard d0 d'"
  unfolding heard_def using wrote_trans wrote_fair by blast

lemma heard_trans: "heard a b \<Longrightarrow> heard b c \<Longrightarrow> heard a c"
  using heard_wrote unfolding heard_def by blast

lemma heard_context: "heard d d' \<Longrightarrow> tty_context d' = tty_context d"
  by (auto simp: heard_def wrote_def)

lemma log_write_heard: "heard d0 d \<Longrightarrow> terminated message \<Longrightarrow> runs (heard d0) (xbks_log_write level message d)"
  using log_write_ok [of d message level] heard_wrote [of d0 d] by (auto simp: heard_def runs_def)

lemma log_printf_heard:
  "heard d0 d \<Longrightarrow> terminated fmt \<Longrightarrow> list_all arg_ok args \<Longrightarrow> fits (cstr fmt) (map kind_of args) \<Longrightarrow>
   runs (heard d0) (xbks_log_printf level fmt args d)"
  using log_printf_fits [of d fmt args level] heard_wrote [of d0 d] by (auto simp: heard_def runs_def)

lemma console_write_heard: "heard d0 d \<Longrightarrow> runs (heard d0) (xbks_console_write data d)"
  using console_write_ok [of d data] heard_wrote [of d0 d] by (auto simp: heard_def runs_def)

lemma console_write_string_heard: "heard d0 d \<Longrightarrow> terminated t \<Longrightarrow> runs (heard d0) (xbks_console_write_string t d)"
  using console_write_string_ok [of d t] heard_wrote [of d0 d] by (auto simp: heard_def runs_def)

section \<open>The text\<close>

lemma console_write_says: "serial_fair d \<Longrightarrow> runs (wrote d data) (xbks_console_write data d)"
  using console_write_ok by (simp add: runs_def)

lemma console_write_string_says: "serial_fair d \<Longrightarrow> terminated t \<Longrightarrow> runs (wrote d (cstr t)) (xbks_console_write_string t d)"
  using console_write_string_ok by (simp add: runs_def)

lemma log_printf_says:
  "serial_fair d \<Longrightarrow> terminated fmt \<Longrightarrow> list_all arg_ok args \<Longrightarrow> format_text (cstr fmt) args = Some t \<Longrightarrow> 0 \<notin> set t \<Longrightarrow>
   runs (wrote d (log_text level (take 511 t))) (xbks_log_printf level fmt args d)"
  using log_printf_ok by (simp add: runs_def)

text \<open>One write after the other. The text of the whole is left to be computed: \<open>runs_wrote_eq\<close> compares it.\<close>

lemma says_bind:
  "runs (wrote d t) m \<Longrightarrow> serial_fair d \<Longrightarrow> (\<And>d'. serial_fair d' \<Longrightarrow> runs (wrote d' u) (f d')) \<Longrightarrow> runs (wrote d (t @ u)) (Option.bind m f)"
  using wrote_fair wrote_trans by (fastforce simp: runs_def)

lemma says_nothing: "runs (wrote d []) (Some d)"
  by simp

lemma runs_wrote_eq: "runs (wrote d t) m \<Longrightarrow> t = u \<Longrightarrow> runs (wrote d u) m"
  by simp

lemmas says_intros = says_bind [OF console_write_string_says] console_write_string_says says_nothing

end
