(* ===== verification/Boot_Memory.thy ===== *)
theory Boot_Memory
  imports Pmm Ramdisk Console_Text
begin

text \<open>
  What the boot loader hands over (\<^verbatim>\<open>include/xbks/boot_info.h\<close>) and the start of the memory manager, the last part of
  \<^verbatim>\<open>mm/mm.c\<close>: \<^verbatim>\<open>xbks_mm_init\<close> walks the memory map, logs its first eight entries and gives the pages of every usable
  region to the frame allocator.
\<close>

section \<open>Boot information\<close>

text \<open>
  The types of memory regions are the constants of the boot protocol; the cases of a \<^verbatim>\<open>switch\<close> tell them apart,
  whatever their numbers are.
\<close>

datatype memmap_type = LIMINE_MEMMAP_USABLE | LIMINE_MEMMAP_RESERVED | LIMINE_MEMMAP_ACPI_RECLAIMABLE | LIMINE_MEMMAP_ACPI_NVS
  | LIMINE_MEMMAP_BAD_MEMORY | LIMINE_MEMMAP_BOOTLOADER_RECLAIMABLE | LIMINE_MEMMAP_EXECUTABLE_AND_MODULES
  | LIMINE_MEMMAP_FRAMEBUFFER | LIMINE_MEMMAP_RESERVED_MAPPED | MEMMAP_OTHER

record limine_memmap_entry =
  me_base :: u64
  me_length :: u64
  me_type :: memmap_type

record limine_bootloader_info =
  bootloader_name :: "u8 list option"
  bootloader_version :: "u8 list option"

record limine_framebuffer =
  fb_address :: u64
  fb_width :: u64
  fb_height :: u64
  fb_pitch :: u64
  fb_bpp :: u16
  fb_masks :: "u8 list" \<comment> \<open>sizes and shifts of red, green and blue\<close>

record limine_framebuffers =
  framebuffer_count :: u64
  framebuffers :: "limine_framebuffer option list option"

text \<open>
  A response that is missing is \<^term>\<open>None\<close>. The kernel passes on the responses about the firmware and the executable
  file and never looks at them, so that they are the addresses of the responses.
\<close>

record xbks_boot_info =
  bi_bootloader :: "limine_bootloader_info option"
  bi_cmdline :: "u8 list option option"
  bi_firmware :: u64
  bi_hhdm :: "u64 option"
  bi_memmap :: "limine_memmap_entry list option"
  bi_executable_file :: u64
  bi_framebuffer :: "limine_framebuffers option"
  bi_modules :: module_response

section \<open>The memory map\<close>

fun memmap_type_name :: "memmap_type \<Rightarrow> u8 list" where
  "memmap_type_name LIMINE_MEMMAP_USABLE = lit ''usable''"
| "memmap_type_name LIMINE_MEMMAP_RESERVED = lit ''reserved''"
| "memmap_type_name LIMINE_MEMMAP_ACPI_RECLAIMABLE = lit ''acpi-reclaim''"
| "memmap_type_name LIMINE_MEMMAP_ACPI_NVS = lit ''acpi-nvs''"
| "memmap_type_name LIMINE_MEMMAP_BAD_MEMORY = lit ''bad''"
| "memmap_type_name LIMINE_MEMMAP_BOOTLOADER_RECLAIMABLE = lit ''bootloader''"
| "memmap_type_name LIMINE_MEMMAP_EXECUTABLE_AND_MODULES = lit ''kernel''"
| "memmap_type_name LIMINE_MEMMAP_FRAMEBUFFER = lit ''framebuffer''"
| "memmap_type_name LIMINE_MEMMAP_RESERVED_MAPPED = lit ''reserved-mapped''"
| "memmap_type_name MEMMAP_OTHER = lit ''unknown''"

definition log_entry :: "u64 \<Rightarrow> limine_memmap_entry \<Rightarrow> io_state \<Rightarrow> io_state option" where
  "log_entry i entry = xbks_log_printf XBKS_LOG_DEBUG (lit ''mem[%llu] base=0x%llx length=0x%llx type=%s'')
     [ArgLong i, ArgLong (me_base entry), ArgLong (me_length entry), ArgStr (Some (memmap_type_name (me_type entry)))]"

fun memmap_loop :: "u64 \<Rightarrow> limine_memmap_entry list \<Rightarrow> mm_state \<Rightarrow> io_state \<Rightarrow> (mm_state \<times> io_state) option" where
  "memmap_loop i [] m d = Some (m, d)"
| "memmap_loop i (entry # entries) m d = do {
     d' \<leftarrow> (if i < 8 then log_entry i entry d else Some d);
     m' \<leftarrow> (if me_type entry = LIMINE_MEMMAP_USABLE then add_usable_range (me_base entry) (me_length entry) m else Some m);
     memmap_loop (i + 1) entries m' d' }"

definition xbks_mm_init :: "xbks_boot_info \<Rightarrow> mm_state \<Rightarrow> io_state \<Rightarrow> (mm_state \<times> io_state) option" where
  "xbks_mm_init boot_info m0 d0 = do {
     let m1 = m0\<lparr>kernel_cr3_value := xbks_read_cr3 m0 AND NOT 0xfff\<rparr>;
     case bi_hhdm boot_info of
       None \<Rightarrow> map_option (Pair m1) (xbks_log_write XBKS_LOG_WARN (lit ''hhdm response unavailable'') d0)
     | Some offset \<Rightarrow> do {
         let m2 = m1\<lparr>hhdm_offset_value := offset\<rparr>;
         d1 \<leftarrow> xbks_log_printf XBKS_LOG_INFO (lit ''hhdm offset: 0x%llx'') [ArgLong offset] d0;
         case bi_memmap boot_info of
           None \<Rightarrow> map_option (Pair m2) (xbks_log_write XBKS_LOG_WARN (lit ''memory map response unavailable'') d1)
         | Some entries \<Rightarrow> do {
             d2 \<leftarrow> xbks_log_printf XBKS_LOG_INFO (lit ''memory map entries: %llu'') [ArgLong (of_nat (length entries))] d1;
             (m3, d3) \<leftarrow> memmap_loop 0 entries m2 d2;
             d4 \<leftarrow> xbks_log_printf XBKS_LOG_INFO (lit ''PMM initialized with %zu free frames'')
               [ArgLong (free_frame_count m3)] d3;
             Some (m3, d4) } } }"

section \<open>Logging\<close>

lemma memmap_type_name_terminated [simp]: "terminated (memmap_type_name t)"
  by (cases t) simp_all

lemma boot_formats:
  "fits (cstr (lit ''mem[%llu] base=0x%llx length=0x%llx type=%s'')) [KLong, KLong, KLong, KStr]"
  "fits (cstr (lit ''hhdm offset: 0x%llx'')) [KLong]"
  "fits (cstr (lit ''memory map entries: %llu'')) [KLong]"
  "fits (cstr (lit ''PMM initialized with %zu free frames'')) [KLong]"
  by code_simp+

lemma log_entry_heard: "heard d0 d \<Longrightarrow> runs (heard d0) (log_entry i entry d)"
  unfolding log_entry_def by (rule log_printf_heard) (simp_all add: boot_formats arg_ok_def)

section \<open>The frames of the memory map\<close>

definition region :: "limine_memmap_entry \<Rightarrow> u64 set" where
  "region e = whole_pages (unat (me_base e)) (unat (me_base e) + unat (me_length e))"

definition usable :: "limine_memmap_entry list \<Rightarrow> limine_memmap_entry list" where
  "usable entries = filter (\<lambda>e. me_type e = LIMINE_MEMMAP_USABLE) entries"

definition usable_pages :: "limine_memmap_entry list \<Rightarrow> u64 set" where
  "usable_pages entries = \<Union> (region ` set (usable entries))"

definition apart :: "limine_memmap_entry \<Rightarrow> limine_memmap_entry \<Rightarrow> bool" where
  "apart a b \<longleftrightarrow> unat (me_base a) + unat (me_length a) \<le> unat (me_base b) \<or> unat (me_base b) + unat (me_length b) \<le> unat (me_base a)"

text \<open>
  What the boot protocol promises of the memory map: usable regions do not overlap. They also lie below the end of the
  direct map, two pages short of the end of the address space.
\<close>

definition memmap_ok :: "u64 \<Rightarrow> limine_memmap_entry list \<Rightarrow> bool" where
  "memmap_ok offset entries \<longleftrightarrow>
     list_all (\<lambda>e. unat offset + unat (me_base e) + unat (me_length e) + 8192 < 2 ^ 64) (usable entries) \<and>
     sorted_wrt apart (usable entries)"

text \<open>The pages of a set have changed hands: nothing else of the memory has changed.\<close>

definition only_pages :: "u64 set \<Rightarrow> mm_state \<Rightarrow> mm_state \<Rightarrow> bool" where
  "only_pages A m m' \<longleftrightarrow> hhdm_offset_value m' = hhdm_offset_value m \<and> kernel_cr3_value m' = kernel_cr3_value m \<and>
     cr3 m' = cr3 m \<and> (\<forall>x. (\<forall>f \<in> A. \<not> page_at m f x) \<longrightarrow> kmem m' x = kmem m x)"

lemma only_pages_refl: "only_pages A m m"
  by (simp add: only_pages_def)

lemma only_pages_trans: "only_pages A m m1 \<Longrightarrow> only_pages B m1 m2 \<Longrightarrow> only_pages (A \<union> B) m m2"
  by (simp add: only_pages_def)

lemma only_pages_mono: "only_pages A m m' \<Longrightarrow> A \<subseteq> B \<Longrightarrow> only_pages B m m'"
  unfolding only_pages_def by blast

lemma free_frame_only: "aligned_page f \<Longrightarrow> only_pages (if f = 0 then {} else {f}) m (xbks_pmm_free_frame f m)"
  by (cases "f = 0") (auto simp: only_pages_def free_mem xbks_pmm_free_frame_def [of 0])

lemma add_usable_loop_only:
  assumes "aligned_page frame" "unat frame + 8192 \<le> 2 ^ 64" "unat stop + 8192 \<le> 2 ^ 64" "add_usable_loop frame stop m = Some m'"
  shows "only_pages (whole_pages (unat frame) (unat stop)) m m'"
  using assms
proof (induction "unat stop - unat frame" arbitrary: frame m rule: less_induct)
  case less
  have inc: "unat (frame + 4096) = unat frame + 4096" using less.prems(2) unat_add_lem [of frame 4096] by simp
  show ?case
  proof (cases "frame + 4096 \<le> stop")
    case False
    then show ?thesis using less.prems(4) by (subst (asm) add_usable_loop.simps) (simp add: only_pages_refl)
  next
    case True
    then have le: "unat frame + 4096 \<le> unat stop" using inc by (simp add: word_le_nat_alt)
    have "add_usable_loop (frame + 4096) stop (xbks_pmm_free_frame frame m) = Some m'"
      using less.prems(4) True by (subst (asm) add_usable_loop.simps) simp
    then have "only_pages (whole_pages (unat (frame + 4096)) (unat stop)) (xbks_pmm_free_frame frame m) m'"
      using less.prems(1-3) inc le by (intro less.hyps) (simp_all add: aligned_page_iff)
    from only_pages_trans [OF free_frame_only this] show ?thesis
      using whole_pages_step [OF less.prems(1) le] less.prems(1) inc by simp
  qed
qed

lemma add_usable_range_only:
  assumes "unat base + unat len + 8192 < 2 ^ 64" "add_usable_range base len m = Some m'"
  shows "only_pages (whole_pages (unat base) (unat base + unat len)) m m'"
proof -
  have sum: "unat (base + len) = unat base + unat len" using assms(1) unat_add_lem [of base len] by simp
  have start: "unat (align_up base 4096) = (unat base + 4095) div 4096 * 4096"
    using assms(1) by (intro unat_align_up_page) simp
  have "only_pages (whole_pages (unat (align_up base 4096)) (unat (align_down (base + len) 4096))) m m'"
    using assms by (intro add_usable_loop_only) (simp_all add: aligned_page_iff start sum unat_page_base add_usable_range_def)
  then show ?thesis by (simp add: start sum unat_page_base whole_pages_aligned_bounds)
qed

lemma region_apart: "apart a b \<Longrightarrow> region a \<inter> region b = {}"
  by (auto simp: apart_def region_def whole_pages_def)

lemma region_usable:
  assumes "unat (hhdm_offset_value m) + unat (me_base e) + unat (me_length e) + 8192 < 2 ^ 64" "f \<in> region e"
  shows "usable_frame m f"
proof -
  have f: "aligned_page f" "f \<noteq> 0" "unat f + 4096 \<le> unat (me_base e) + unat (me_length e)"
    using assms(2) by (auto simp: region_def whole_pages_def)
  then have "unat (f + hhdm_offset_value m) = unat f + unat (hhdm_offset_value m)"
    using assms(1) unat_add_lem [of f "hhdm_offset_value m"] by simp
  then show ?thesis using f(1,2) by (auto simp: usable_frame_def word_unat_eq_iff)
qed

lemma usable_simps [simp]: "usable [] = []"
  "usable (e # es) = (if me_type e = LIMINE_MEMMAP_USABLE then e # usable es else usable es)"
  by (simp_all add: usable_def)

lemma memmap_loop_runs:
  assumes "heard d0 d" "pmm_inv m fs" "memmap_ok (hhdm_offset_value m) es" "set fs \<inter> usable_pages es = {}"
  shows "runs (\<lambda>(m', d'). heard d0 d' \<and> only_pages (usable_pages es) m m' \<and>
    (\<exists>gs. pmm_inv m' (gs @ fs) \<and> set gs = usable_pages es)) (memmap_loop i es m d)"
  using assms
proof (induction es arbitrary: i m d fs)
  case Nil
  then show ?case by (auto simp: only_pages_refl usable_pages_def)
next
  case (Cons e es)
  have log: "runs (heard d0) (if i < 8 then log_entry i e d else Some d)"
    using Cons.prems(1) log_entry_heard by simp
  show ?case
  proof (cases "me_type e = LIMINE_MEMMAP_USABLE")
    case False
    then have "memmap_ok (hhdm_offset_value m) es" "usable_pages (e # es) = usable_pages es"
      using Cons.prems(3) by (simp_all add: memmap_ok_def usable_pages_def)
    then show ?thesis
      unfolding memmap_loop.simps
      by (intro log [THEN runs_bind]) (use False Cons.IH [OF _ Cons.prems(2)] Cons.prems(4) in simp)
  next
    case True
    have ok: "unat (hhdm_offset_value m) + unat (me_base e) + unat (me_length e) + 8192 < 2 ^ 64"
        "memmap_ok (hhdm_offset_value m) es" "\<forall>e' \<in> set (usable es). apart e e'"
      using Cons.prems(3) True by (simp_all add: memmap_ok_def)
    have pages: "usable_pages (e # es) = region e \<union> usable_pages es" using True by (simp add: usable_pages_def)
    have dis: "region e \<inter> usable_pages es = {}" using ok(3) region_apart unfolding usable_pages_def by blast
    obtain m1 gs where m1: "add_usable_range (me_base e) (me_length e) m = Some m1" "pmm_inv m1 (gs @ fs)" "set gs = region e"
      using add_usable_range_spec [OF _ Cons.prems(2), of "me_base e" "me_length e"] ok(1) region_usable [OF ok(1)] Cons.prems(4)
      unfolding pages region_def by fastforce
    have only: "only_pages (region e) m m1"
      using add_usable_range_only [OF _ m1(1)] ok(1) by (simp add: region_def)
    have "runs (\<lambda>(m', d'). heard d0 d' \<and> only_pages (usable_pages (e # es)) m m' \<and>
        (\<exists>hs. pmm_inv m' (hs @ fs) \<and> set hs = usable_pages (e # es))) (memmap_loop (i + 1) es m1 d1)" if d1: "heard d0 d1" for d1
    proof (rule runs_mono [OF Cons.IH [OF d1 m1(2), of "i + 1"]])
      show "memmap_ok (hhdm_offset_value m1) es" using ok(2) only by (simp add: only_pages_def)
      show "set (gs @ fs) \<inter> usable_pages es = {}" using dis m1(3) Cons.prems(4) pages by auto
      fix r assume "case r of (m', d') \<Rightarrow> heard d0 d' \<and> only_pages (usable_pages es) m1 m' \<and>
        (\<exists>hs. pmm_inv m' (hs @ gs @ fs) \<and> set hs = usable_pages es)"
      then obtain m' d' hs where r: "r = (m', d')" "heard d0 d'" "only_pages (usable_pages es) m1 m'"
          "pmm_inv m' ((hs @ gs) @ fs)" "set hs = usable_pages es" by auto
      moreover have "set (hs @ gs) = usable_pages (e # es)" using r(5) m1(3) pages by auto
      ultimately show "case r of (m', d') \<Rightarrow> heard d0 d' \<and> only_pages (usable_pages (e # es)) m m' \<and>
          (\<exists>hs. pmm_inv m' (hs @ fs) \<and> set hs = usable_pages (e # es))"
        using only_pages_trans [OF only r(3)] unfolding pages by blast
    qed
    then show ?thesis
      unfolding memmap_loop.simps by (intro log [THEN runs_bind]) (use True m1(1) in simp)
  qed
qed

text \<open>Before \<^verbatim>\<open>xbks_mm_init\<close> the allocator is as the program loader leaves it: zeroed.\<close>

definition no_frames :: "mm_state \<Rightarrow> bool" where
  "no_frames m \<longleftrightarrow> free_frames m = 0 \<and> free_frame_count m = 0"

lemma mm_init_runs:
  assumes "heard d0 d" "no_frames m" "bi_hhdm boot_info = Some h" "bi_memmap boot_info = Some es" "memmap_ok h es"
  shows "runs (\<lambda>(m', d'). heard d0 d' \<and> (\<exists>fs. pmm_inv m' fs \<and> set fs = usable_pages es) \<and>
    only_pages (usable_pages es) (m\<lparr>hhdm_offset_value := h, kernel_cr3_value := align_down (cr3 m) XBKS_PAGE_SIZE\<rparr>) m')
    (xbks_mm_init boot_info m d)"
proof -
  let ?m = "m\<lparr>hhdm_offset_value := h, kernel_cr3_value := align_down (cr3 m) XBKS_PAGE_SIZE\<rparr>"
  have m: "m\<lparr>kernel_cr3_value := xbks_read_cr3 m AND NOT 0xfff, hhdm_offset_value := h\<rparr> = ?m"
    by (simp add: xbks_read_cr3_def align_down_def)
  have inv: "pmm_inv ?m []" using assms(2) by (simp add: pmm_inv_def no_frames_def)
  have log: "runs (heard d0) (xbks_log_printf XBKS_LOG_INFO f [ArgLong v] d')"
    if "heard d0 d'" "f \<in> {lit ''hhdm offset: 0x%llx'', lit ''memory map entries: %llu'', lit ''PMM initialized with %zu free frames''}" for d' f v
    using that by (intro log_printf_heard) (auto simp: boot_formats arg_ok_def)
  show ?thesis
    unfolding xbks_mm_init_def Let_def assms(3,4) option.case m
    by (intro log [THEN runs_bind] memmap_loop_runs [OF _ inv, THEN runs_bind])
      (use assms(1,5) in \<open>auto simp: split_beta intro!: log [THEN runs_bind]\<close>)
qed

end
