(* ===== verification/Arch.thy ===== *)
theory Arch
  imports Boot_Memory
begin

text \<open>
  The set-up of the processor: model-specific registers (\<^verbatim>\<open>include/xbks/cpu.h\<close>), the descriptor table
  (\<^verbatim>\<open>arch/x86_64/gdt.c\<close>, \<^verbatim>\<open>gdt_entry.S\<close>), the registers behind \<^verbatim>\<open>syscall\<close> and \<^verbatim>\<open>sysret\<close>
  (\<^verbatim>\<open>syscall/syscall.c\<close>) and the two hooks of \<^verbatim>\<open>arch/x86_64/arch.c\<close>. The addresses of the table and of the entry point
  are chosen by the linker and are arguments.
\<close>

section \<open>Processor state\<close>

record gdt_pointer =
  gdt_limit :: u16
  gdt_base :: u64

record cpu_state =
  msr :: "u32 \<Rightarrow> u64"
  gdtr :: gdt_pointer
  seg_cs :: u16
  seg_ss :: u16
  seg_ds :: u16
  seg_es :: u16

abbreviation XBKS_MSR_EFER :: u32 where "XBKS_MSR_EFER \<equiv> 0xc0000080"
abbreviation XBKS_MSR_STAR :: u32 where "XBKS_MSR_STAR \<equiv> 0xc0000081"
abbreviation XBKS_MSR_LSTAR :: u32 where "XBKS_MSR_LSTAR \<equiv> 0xc0000082"
abbreviation XBKS_MSR_FMASK :: u32 where "XBKS_MSR_FMASK \<equiv> 0xc0000084"

text \<open>\<^verbatim>\<open>rdmsr\<close> and \<^verbatim>\<open>wrmsr\<close> move the two halves of a register through \<^verbatim>\<open>edx\<close> and \<^verbatim>\<open>eax\<close>.\<close>

definition xbks_rdmsr :: "u32 \<Rightarrow> cpu_state \<Rightarrow> u64" where
  "xbks_rdmsr r c =
     (let low = ucast (msr c r) :: u32; high = ucast (drop_bit 32 (msr c r)) :: u32
      in push_bit 32 (ucast high) OR ucast low)"

definition xbks_wrmsr :: "u32 \<Rightarrow> u64 \<Rightarrow> cpu_state \<Rightarrow> cpu_state" where
  "xbks_wrmsr r v c =
     (let low = ucast v :: u32; high = ucast (drop_bit 32 v) :: u32
      in c\<lparr>msr := (msr c)(r := push_bit 32 (ucast high) OR ucast low)\<rparr>)"

section \<open>Segments and system calls\<close>

definition gdt :: "u64 list" where
  "gdt = [0x0000000000000000, 0x00af9a000000ffff, 0x00cf92000000ffff, 0x0000000000000000, 0x00cff2000000ffff, 0x00affa000000ffff]"

definition xbks_x86_64_gdt_load :: "gdt_pointer \<Rightarrow> cpu_state \<Rightarrow> cpu_state" where
  "xbks_x86_64_gdt_load pointer c = c\<lparr>gdtr := pointer, seg_ds := 0x10, seg_es := 0x10, seg_ss := 0x10, seg_cs := 0x08\<rparr>"

definition xbks_gdt_init :: "u64 \<Rightarrow> cpu_state \<Rightarrow> cpu_state" where
  "xbks_gdt_init gdt_address c =
     xbks_x86_64_gdt_load \<lparr>gdt_limit = of_nat (length gdt * 8 - 1), gdt_base = gdt_address\<rparr> c"

abbreviation EFER_SYSCALL_ENABLE :: u64 where "EFER_SYSCALL_ENABLE \<equiv> 0x1"
abbreviation RFLAGS_INTERRUPT_ENABLE :: u64 where "RFLAGS_INTERRUPT_ENABLE \<equiv> 0x200"
abbreviation RFLAGS_DIRECTION_FLAG :: u64 where "RFLAGS_DIRECTION_FLAG \<equiv> 0x400"

definition xbks_syscall_init :: "u64 \<Rightarrow> cpu_state \<Rightarrow> io_state \<Rightarrow> (cpu_state \<times> io_state) option" where
  "xbks_syscall_init syscall_entry c d =
     (let efer = xbks_rdmsr XBKS_MSR_EFER c;
          c1 = xbks_wrmsr XBKS_MSR_EFER (efer OR EFER_SYSCALL_ENABLE) c;
          c2 = xbks_wrmsr XBKS_MSR_LSTAR syscall_entry c1;
          c3 = xbks_wrmsr XBKS_MSR_STAR (push_bit 32 0x08 OR push_bit 48 0x18) c2;
          c4 = xbks_wrmsr XBKS_MSR_FMASK (RFLAGS_INTERRUPT_ENABLE OR RFLAGS_DIRECTION_FLAG) c3
      in map_option (Pair c4) (xbks_log_write XBKS_LOG_INFO (lit ''x86_64 syscall MSRs configured'') d))"

definition xbks_arch_early_init :: "u64 \<Rightarrow> u64 \<Rightarrow> cpu_state \<Rightarrow> io_state \<Rightarrow> (cpu_state \<times> io_state) option" where
  "xbks_arch_early_init gdt_address syscall_entry c d = do {
     d1 \<leftarrow> xbks_log_write XBKS_LOG_INFO (lit ''x86_64 early architecture init'') d;
     let c1 = xbks_gdt_init gdt_address c;
     d2 \<leftarrow> xbks_log_write XBKS_LOG_INFO (lit ''x86_64 GDT installed'') d1;
     d3 \<leftarrow> xbks_log_write XBKS_LOG_WARN (lit ''IDT/PIC/APIC are interface stubs in this stage'') d2;
     xbks_syscall_init syscall_entry c1 d3 }"

definition xbks_arch_late_init :: "io_state \<Rightarrow> io_state option" where
  "xbks_arch_late_init d = xbks_log_write XBKS_LOG_INFO (lit ''x86_64 late architecture init'') d"

section \<open>What the processor makes of it\<close>

text \<open>
  The meaning of the registers, from the manual of the processor. A selector picks the descriptor at its
  upper thirteen bits; \<^verbatim>\<open>syscall\<close> and \<^verbatim>\<open>sysret\<close> compute their selectors from the register \<^verbatim>\<open>STAR\<close>.
\<close>

definition descriptor :: "u16 \<Rightarrow> u64" where
  "descriptor selector = (let i = unat (drop_bit 3 selector) in if i < length gdt then gdt ! i else 0)"

definition privilege :: "u64 \<Rightarrow> u64" where
  "privilege d = drop_bit 45 d AND 3"

text \<open>Present segments of code (64 bit) and of writable data.\<close>

definition code_segment :: "u64 \<Rightarrow> bool" where
  "code_segment d \<longleftrightarrow> bit d 47 \<and> bit d 44 \<and> bit d 43 \<and> bit d 53 \<and> \<not> bit d 54"

definition data_segment :: "u64 \<Rightarrow> bool" where
  "data_segment d \<longleftrightarrow> bit d 47 \<and> bit d 44 \<and> \<not> bit d 43 \<and> bit d 41"

definition syscall_cs :: "cpu_state \<Rightarrow> u16" where
  "syscall_cs c = ucast (drop_bit 32 (msr c XBKS_MSR_STAR)) AND 0xfffc"

definition syscall_ss :: "cpu_state \<Rightarrow> u16" where
  "syscall_ss c = ucast (drop_bit 32 (msr c XBKS_MSR_STAR)) + 8"

definition sysret_cs :: "cpu_state \<Rightarrow> u16" where
  "sysret_cs c = (ucast (drop_bit 48 (msr c XBKS_MSR_STAR)) + 16) OR 3"

definition sysret_ss :: "cpu_state \<Rightarrow> u16" where
  "sysret_ss c = (ucast (drop_bit 48 (msr c XBKS_MSR_STAR)) + 8) OR 3"

definition segments_ok :: "u64 \<Rightarrow> u16 \<Rightarrow> u16 \<Rightarrow> bool" where
  "segments_ok level code data \<longleftrightarrow>
     code_segment (descriptor code) \<and> privilege (descriptor code) = level \<and>
     data_segment (descriptor data) \<and> privilege (descriptor data) = level"

text \<open>The processor is ready for system calls.\<close>

definition syscalls_ready :: "u64 \<Rightarrow> u64 \<Rightarrow> cpu_state \<Rightarrow> bool" where
  "syscalls_ready gdt_address syscall_entry c \<longleftrightarrow>
     gdtr c = \<lparr>gdt_limit = 47, gdt_base = gdt_address\<rparr> \<and> segments_ok 0 (seg_cs c) (seg_ss c) \<and>
     bit (msr c XBKS_MSR_EFER) 0 \<and> msr c XBKS_MSR_LSTAR = syscall_entry \<and>
     syscall_cs c = seg_cs c \<and> syscall_ss c = seg_ss c \<and>
     segments_ok 3 (sysret_cs c) (sysret_ss c) \<and>
     bit (msr c XBKS_MSR_FMASK) 9 \<and> bit (msr c XBKS_MSR_FMASK) 10"

lemma halves: "push_bit 32 (ucast (ucast (drop_bit 32 v) :: u32)) OR ucast (ucast v :: u32) = (v :: u64)"
  by (rule bit_word_eqI) (auto simp: bit_simps)

lemma xbks_rdmsr_eq [simp]: "xbks_rdmsr r c = msr c r"
  by (simp add: xbks_rdmsr_def halves Let_def)

lemma xbks_wrmsr_eq [simp]: "xbks_wrmsr r v c = c\<lparr>msr := (msr c)(r := v)\<rparr>"
  by (simp add: xbks_wrmsr_def halves Let_def)

lemma segments: "segments_ok 0 0x08 0x10" "segments_ok 3 0x2b 0x23"
  by code_simp+

lemma star_selectors:
  assumes "msr c XBKS_MSR_STAR = push_bit 32 0x08 OR push_bit 48 0x18"
  shows "syscall_cs c = 0x08" "syscall_ss c = 0x10" "sysret_cs c = 0x2b" "sysret_ss c = 0x23"
  unfolding syscall_cs_def syscall_ss_def sysret_cs_def sysret_ss_def assms by code_simp+

lemma syscall_init_runs:
  assumes "heard d0 d" "c' = c\<lparr>msr := (msr c)(XBKS_MSR_EFER := msr c XBKS_MSR_EFER OR 1, XBKS_MSR_LSTAR := entry,
     XBKS_MSR_STAR := push_bit 32 0x08 OR push_bit 48 0x18, XBKS_MSR_FMASK := RFLAGS_INTERRUPT_ENABLE OR RFLAGS_DIRECTION_FLAG)\<rparr>"
  shows "runs (\<lambda>(c1, d'). c1 = c' \<and> heard d0 d') (xbks_syscall_init entry c d)"
  using log_write_heard [OF assms(1), of "lit ''x86_64 syscall MSRs configured''" XBKS_LOG_INFO] assms(2)
  by (auto simp: xbks_syscall_init_def Let_def runs_def)

lemma arch_early_init_runs:
  assumes "heard d0 d"
  shows "runs (\<lambda>(c', d'). heard d0 d' \<and> syscalls_ready gdt_address entry c' \<and>
      (\<forall>r. r \<notin> {XBKS_MSR_EFER, XBKS_MSR_STAR, XBKS_MSR_LSTAR, XBKS_MSR_FMASK} \<longrightarrow> msr c' r = msr c r) \<and>
      (\<forall>n. n \<noteq> 0 \<longrightarrow> bit (msr c' XBKS_MSR_EFER) n = bit (msr c XBKS_MSR_EFER) n))
    (xbks_arch_early_init gdt_address entry c d)"
proof -
  note logs = log_write_heard [THEN runs_bind]
  have ready: "syscalls_ready gdt_address entry c'"
    if "c' = (xbks_gdt_init gdt_address c)\<lparr>msr := (msr c)(XBKS_MSR_EFER := msr c XBKS_MSR_EFER OR 1, XBKS_MSR_LSTAR := entry,
      XBKS_MSR_STAR := push_bit 32 0x08 OR push_bit 48 0x18, XBKS_MSR_FMASK := RFLAGS_INTERRUPT_ENABLE OR RFLAGS_DIRECTION_FLAG)\<rparr>" for c'
  proof -
    have "msr c' XBKS_MSR_STAR = push_bit 32 0x08 OR push_bit 48 0x18" unfolding that by simp
    note sel = star_selectors [OF this]
    have "bit (0x200 OR 0x400 :: u64) 9" "bit (0x200 OR 0x400 :: u64) 10" by code_simp+
    then show ?thesis
      unfolding syscalls_ready_def sel
      using segments by (simp add: that xbks_gdt_init_def xbks_x86_64_gdt_load_def gdt_def bit_simps)
  qed
  show ?thesis
    unfolding xbks_arch_early_init_def Let_def
    by (intro logs assms lit_terminated runs_mono [OF syscall_init_runs])
      (use ready assms in \<open>auto simp: xbks_gdt_init_def xbks_x86_64_gdt_load_def bit_simps\<close>)
qed

end
