(* ===== verification/Vmm.thy ===== *)
theory Vmm
  imports Pmm
begin

text \<open>
  The four-level page tables of \<^verbatim>\<open>mm/mm.c\<close>. A table is a page of 512 64-bit entries reached
  through the direct map; every operation reads and writes it with the accesses of the C code.
  The abstract view is the walk along a path of indices (\<open>walk\<close>) and the leaf entry of an
  address (\<open>pte\<close>); \<open>vspace_inv\<close> states that the user half is a tree of frames that are neither
  shared nor free.
\<close>

section \<open>Operations\<close>

abbreviation XBKS_PAGE_PRESENT :: u64 where "XBKS_PAGE_PRESENT \<equiv> 1"
abbreviation XBKS_PAGE_WRITABLE :: u64 where "XBKS_PAGE_WRITABLE \<equiv> 2"
abbreviation XBKS_PAGE_USER :: u64 where "XBKS_PAGE_USER \<equiv> 4"
abbreviation ENTRY_ADDRESS :: u64 where "ENTRY_ADDRESS \<equiv> 0x000ffffffffff000"

text \<open>\<^verbatim>\<open>table[index]\<close> for a \<^verbatim>\<open>uint64_t *table\<close>, read and written.\<close>

definition table_get :: "mm_state \<Rightarrow> u64 \<Rightarrow> u64 \<Rightarrow> u64" where
  "table_get s table index = load64 (kmem s) (table + 8 * index)"

definition table_set :: "u64 \<Rightarrow> u64 \<Rightarrow> u64 \<Rightarrow> mm_state \<Rightarrow> mm_state" where
  "table_set table index v s = s\<lparr>kmem := store64 (kmem s) (table + 8 * index) v\<rparr>"

definition pml4_index :: "u64 \<Rightarrow> u64" where "pml4_index va = drop_bit 39 va AND 0x1ff"
definition pdpt_index :: "u64 \<Rightarrow> u64" where "pdpt_index va = drop_bit 30 va AND 0x1ff"
definition pd_index :: "u64 \<Rightarrow> u64" where "pd_index va = drop_bit 21 va AND 0x1ff"
definition pt_index :: "u64 \<Rightarrow> u64" where "pt_index va = drop_bit 12 va AND 0x1ff"

definition xbks_create_kernel_mapped_pml4 :: "mm_state \<Rightarrow> u64 \<times> mm_state" where
  "xbks_create_kernel_mapped_pml4 s =
     (let (pml4_frame, s1) = xbks_pmm_alloc_frame s
      in if pml4_frame = 0 then (0, s1)
         else
           let new_pml4 = xbks_phys_to_virt s1 pml4_frame;
               kernel_pml4 = xbks_phys_to_virt s1 (kernel_cr3_value s1 AND NOT 0xfff)
           in (pml4_frame,
               fold (\<lambda>i t. table_set new_pml4 i (table_get t kernel_pml4 i) t)
                 (indices 256 512) s1))"

definition page_table_from_entry :: "mm_state \<Rightarrow> u64 \<Rightarrow> u64" where
  "page_table_from_entry s entry = xbks_phys_to_virt s (entry AND ENTRY_ADDRESS)"

text \<open>The result is \<^verbatim>\<open>*out_next\<close>, or \<^term>\<open>None\<close> where the C function returns false.\<close>

definition ensure_next_table :: "u64 \<Rightarrow> u64 \<Rightarrow> u64 \<Rightarrow> mm_state \<Rightarrow> u64 option \<times> mm_state" where
  "ensure_next_table table index flags s =
     (if table_get s table index AND XBKS_PAGE_PRESENT = 0
      then
        let (frame, s1) = xbks_pmm_alloc_frame s
        in if frame = 0 then (None, s1)
           else
             let s2 = table_set table index
                   (frame OR flags OR XBKS_PAGE_PRESENT OR XBKS_PAGE_WRITABLE OR XBKS_PAGE_USER) s1
             in (Some (page_table_from_entry s2 (table_get s2 table index)), s2)
      else (Some (page_table_from_entry s (table_get s table index)), s))"

definition xbks_vmm_map_page :: "u64 \<Rightarrow> u64 \<Rightarrow> u64 \<Rightarrow> u64 \<Rightarrow> mm_state \<Rightarrow> bool \<times> mm_state" where
  "xbks_vmm_map_page pml4_frame virtual_address physical_address flags s =
     (let pml4 = xbks_phys_to_virt s pml4_frame
      in if virtual_address AND (XBKS_PAGE_SIZE - 1) \<noteq> 0 \<or>
            physical_address AND (XBKS_PAGE_SIZE - 1) \<noteq> 0
         then (False, s)
         else case ensure_next_table pml4 (pml4_index virtual_address) flags s of
           (None, s1) \<Rightarrow> (False, s1)
         | (Some pdpt, s1) \<Rightarrow>
             (case ensure_next_table pdpt (pdpt_index virtual_address) flags s1 of
                (None, s2) \<Rightarrow> (False, s2)
              | (Some pd, s2) \<Rightarrow>
                  (case ensure_next_table pd (pd_index virtual_address) flags s2 of
                     (None, s3) \<Rightarrow> (False, s3)
                   | (Some pt, s3) \<Rightarrow>
                       if table_get s3 pt (pt_index virtual_address) AND XBKS_PAGE_PRESENT \<noteq> 0
                       then (False, s3)
                       else (True, table_set pt (pt_index virtual_address)
                               (physical_address OR flags OR XBKS_PAGE_PRESENT) s3))))"

text \<open>
  The result is \<^verbatim>\<open>*out_physical_address\<close>, or \<^term>\<open>None\<close> where the C function returns false. Every
  caller passes the address of a local, so the null check of the out pointer is not represented.
\<close>

definition xbks_vmm_translate :: "mm_state \<Rightarrow> u64 \<Rightarrow> u64 \<Rightarrow> u64 option" where
  "xbks_vmm_translate s pml4_frame virtual_address =
     (let pml4 = xbks_phys_to_virt s pml4_frame;
          e4 = table_get s pml4 (pml4_index virtual_address)
      in if e4 AND XBKS_PAGE_PRESENT = 0 then None
         else
           let pdpt = page_table_from_entry s e4;
               e3 = table_get s pdpt (pdpt_index virtual_address)
           in if e3 AND XBKS_PAGE_PRESENT = 0 then None
              else
                let pd = page_table_from_entry s e3;
                    e2 = table_get s pd (pd_index virtual_address)
                in if e2 AND XBKS_PAGE_PRESENT = 0 then None
                   else
                     let pt = page_table_from_entry s e2;
                         e1 = table_get s pt (pt_index virtual_address)
                     in if e1 AND XBKS_PAGE_PRESENT = 0 then None
                        else Some ((e1 AND ENTRY_ADDRESS) OR
                                   (virtual_address AND (XBKS_PAGE_SIZE - 1))))"

definition clone_page_flags :: "u64 \<Rightarrow> u64" where
  "clone_page_flags source_entry = source_entry AND 0xfff"

definition va_of_indices :: "u64 \<Rightarrow> u64 \<Rightarrow> u64 \<Rightarrow> u64 \<Rightarrow> u64" where
  "va_of_indices i4 i3 i2 i1 =
     push_bit 39 i4 OR push_bit 30 i3 OR push_bit 21 i2 OR push_bit 12 i1"

text \<open>The body of the innermost loop of \<^verbatim>\<open>xbks_vmm_clone_user_space\<close>: one leaf entry.\<close>

definition clone_leaf :: "u64 \<Rightarrow> u64 \<Rightarrow> u64 \<Rightarrow> u64 \<Rightarrow> mm_state \<Rightarrow> bool \<times> mm_state" where
  "clone_leaf dest_pml4_frame user_top source_entry virtual_address s =
     (if source_entry AND XBKS_PAGE_PRESENT = 0 then (True, s)
      else if virtual_address \<ge> user_top then (True, s)
      else
        let source_physical = source_entry AND ENTRY_ADDRESS;
            (dest_physical, s1) = xbks_pmm_alloc_frame s
        in if dest_physical = 0 then (False, s1)
           else
             let s2 = s1\<lparr>kmem := memcpy (kmem s1) (xbks_phys_to_virt s1 dest_physical)
                       (xbks_phys_to_virt s1 source_physical) XBKS_PAGE_SIZE\<rparr>;
                 (ok, s3) = xbks_vmm_map_page dest_pml4_frame virtual_address dest_physical
                       (clone_page_flags source_entry) s2
             in if ok then (True, s3) else (False, xbks_pmm_free_frame dest_physical s3))"

definition xbks_vmm_clone_user_space :: "u64 \<Rightarrow> u64 \<Rightarrow> u64 \<Rightarrow> mm_state \<Rightarrow> bool \<times> mm_state" where
  "xbks_vmm_clone_user_space source_pml4_frame dest_pml4_frame user_top s0 =
     (let source_pml4 = xbks_phys_to_virt s0 source_pml4_frame
      in for_each (indices 0 256) (\<lambda>i4 s.
           let e4 = table_get s source_pml4 i4 in
           if e4 AND XBKS_PAGE_PRESENT = 0 then (True, s)
           else let source_pdpt = page_table_from_entry s e4 in
             for_each (indices 0 512) (\<lambda>i3 s.
               let e3 = table_get s source_pdpt i3 in
               if e3 AND XBKS_PAGE_PRESENT = 0 then (True, s)
               else let source_pd = page_table_from_entry s e3 in
                 for_each (indices 0 512) (\<lambda>i2 s.
                   let e2 = table_get s source_pd i2 in
                   if e2 AND XBKS_PAGE_PRESENT = 0 then (True, s)
                   else let source_pt = page_table_from_entry s e2 in
                     for_each (indices 0 512) (\<lambda>i1 s.
                       clone_leaf dest_pml4_frame user_top (table_get s source_pt i1)
                         (va_of_indices i4 i3 i2 i1) s) s) s) s) s0)"

text \<open>The three table levels of \<^verbatim>\<open>xbks_vmm_destroy_user_space\<close>, innermost loop first.\<close>

definition destroy_pt :: "u64 \<Rightarrow> (u64 \<Rightarrow> u64) \<Rightarrow> u64 \<Rightarrow> mm_state \<Rightarrow> mm_state" where
  "destroy_pt user_top va_of pt s0 =
     fold (\<lambda>i1 s.
       let entry = table_get s pt i1 in
       if entry AND XBKS_PAGE_PRESENT = 0 then s
       else if va_of i1 < user_top
       then table_set pt i1 0 (xbks_pmm_free_frame (entry AND ENTRY_ADDRESS) s)
       else s) (indices 0 512) s0"

definition destroy_pd :: "u64 \<Rightarrow> (u64 \<Rightarrow> u64 \<Rightarrow> u64) \<Rightarrow> u64 \<Rightarrow> mm_state \<Rightarrow> mm_state" where
  "destroy_pd user_top va_of pd s0 =
     fold (\<lambda>i2 s.
       if table_get s pd i2 AND XBKS_PAGE_PRESENT = 0 then s
       else
         let s1 = destroy_pt user_top (va_of i2) (page_table_from_entry s (table_get s pd i2)) s
         in table_set pd i2 0 (xbks_pmm_free_frame (table_get s1 pd i2 AND ENTRY_ADDRESS) s1))
       (indices 0 512) s0"

definition destroy_pdpt :: "u64 \<Rightarrow> (u64 \<Rightarrow> u64 \<Rightarrow> u64 \<Rightarrow> u64) \<Rightarrow> u64 \<Rightarrow> mm_state \<Rightarrow> mm_state" where
  "destroy_pdpt user_top va_of pdpt s0 =
     fold (\<lambda>i3 s.
       if table_get s pdpt i3 AND XBKS_PAGE_PRESENT = 0 then s
       else
         let s1 = destroy_pd user_top (va_of i3) (page_table_from_entry s (table_get s pdpt i3)) s
         in table_set pdpt i3 0 (xbks_pmm_free_frame (table_get s1 pdpt i3 AND ENTRY_ADDRESS) s1))
       (indices 0 512) s0"

definition xbks_vmm_destroy_user_space :: "u64 \<Rightarrow> u64 \<Rightarrow> mm_state \<Rightarrow> mm_state" where
  "xbks_vmm_destroy_user_space pml4_frame user_top s0 =
     (if pml4_frame = 0 then s0
      else
        let pml4 = xbks_phys_to_virt s0 pml4_frame
        in xbks_pmm_free_frame pml4_frame
             (fold (\<lambda>i4 s.
                if table_get s pml4 i4 AND XBKS_PAGE_PRESENT = 0 then s
                else
                  let s1 = destroy_pdpt user_top (va_of_indices i4)
                        (page_table_from_entry s (table_get s pml4 i4)) s
                  in table_set pml4 i4 0
                       (xbks_pmm_free_frame (table_get s1 pml4 i4 AND ENTRY_ADDRESS) s1))
                (indices 0 256) s0))"

section \<open>Table entries\<close>

definition entry :: "mm_state \<Rightarrow> u64 \<Rightarrow> u64 \<Rightarrow> u64" where
  "entry s t i = table_get s (t + hhdm_offset_value s) i"

definition present :: "u64 \<Rightarrow> bool" where
  "present e \<longleftrightarrow> e AND XBKS_PAGE_PRESENT \<noteq> 0"

lemma unat_entry_offset: "i < 512 \<Longrightarrow> unat (8 * i :: u64) = 8 * unat i"
  using unat_mult_lem [of 8 i] by (simp add: word_less_nat_alt)

lemma entry_cong:
  assumes "i < 512" "hhdm_offset_value s' = hhdm_offset_value s"
    and "\<And>x. page_at s t x \<Longrightarrow> kmem s' x = kmem s x"
  shows "entry s' t i = entry s t i"
proof -
  have "load64 (kmem s') (t + hhdm_offset_value s + 8 * i) =
      load64 (kmem s) (t + hhdm_offset_value s + 8 * i)"
    using assms(1)
    by (intro load_le_block [of "t + hhdm_offset_value s" 4096])
      (auto simp: unat_entry_offset word_less_nat_alt assms(3))
  then show ?thesis by (simp add: entry_def table_get_def assms(2))
qed

lemma entry_zero_page:
  assumes "i < 512" "\<And>x. page_at s t x \<Longrightarrow> kmem s x = 0"
  shows "entry s t i = 0"
proof -
  have "entry s t i = entry (s\<lparr>kmem := \<lambda>_. 0\<rparr>) t i"
    using assms by (intro entry_cong) auto
  also have "\<dots> = 0" by (simp add: entry_def table_get_def load_le_zero)
  finally show ?thesis .
qed

lemma table_set_static [simp]:
  "hhdm_offset_value (table_set t i v s) = hhdm_offset_value s"
  "kernel_cr3_value (table_set t i v s) = kernel_cr3_value s"
  "cr3 (table_set t i v s) = cr3 s"
  "free_frames (table_set t i v s) = free_frames s"
  "free_frame_count (table_set t i v s) = free_frame_count s"
  by (simp_all add: table_set_def)

lemma table_set_mem:
  assumes "i < 512" "\<not> page_at s t x"
  shows "kmem (table_set (t + hhdm_offset_value s) i v s) x = kmem s x"
proof -
  let ?b = "t + hhdm_offset_value s"
  have "\<not> in_block (?b + 8 * i) 8 x"
  proof
    assume "in_block (?b + 8 * i) 8 x"
    then have lt: "unat (x - ?b - 8 * i) < 8" by (simp add: in_block_def diff_diff_eq)
    have off: "unat (8 * i) \<le> 4088"
      using assms(1) by (simp add: unat_entry_offset word_less_nat_alt)
    have "unat (x - ?b) = unat (x - ?b - 8 * i) + unat (8 * i)"
      using lt off unat_add_lem [of "x - ?b - 8 * i" "8 * i"] by simp
    then show False using assms(2) lt off by (simp add: in_block_def)
  qed
  then show ?thesis by (simp add: table_set_def store_le_apply)
qed

lemma slots_disjoint:
  assumes "i < 512" "j < 512" "i \<noteq> j" "k < 8"
  shows "8 \<le> unat (8 * j + of_nat k - 8 * i :: u64)"
proof -
  have n: "unat (8 * i) = 8 * unat i" "unat (8 * j) = 8 * unat j"
    "unat i < 512" "unat j < 512" "unat i \<noteq> unat j"
    using assms by (simp_all add: unat_entry_offset word_less_nat_alt word_unat_eq_iff)
  have k: "unat (of_nat k :: u64) = k" using assms(4) by (simp add: unat_of_nat)
  have "unat (8 * j + of_nat k :: u64) = 8 * unat j + k"
    using n k assms(4) unat_add_lem [of "8 * j" "of_nat k"] by simp
  then show ?thesis using n assms(4) by (auto simp: unat_sub_if')
qed

lemma entry_set:
  assumes al: "aligned_page t" "aligned_page t'" and i: "i < 512" "j < 512"
  shows "entry (table_set (t + hhdm_offset_value s) i v s) t' j =
    (if t' = t \<and> j = i then v else entry s t' j)"
proof -
  let ?b = "t + hhdm_offset_value s"
  let ?s = "table_set ?b i v s"
  consider "t' \<noteq> t" | "t' = t" "j = i" | "t' = t" "j \<noteq> i" by blast
  then show ?thesis
  proof cases
    case 1
    have "entry ?s t' j = entry s t' j"
      using 1 al i blocks_disjoint by (intro entry_cong) (auto simp: table_set_mem)
    then show ?thesis using 1 by simp
  next
    case 2
    then show ?thesis by (simp add: entry_def table_get_def) (simp add: table_set_def)
  next
    case 3
    have "load64 (kmem ?s) (?b + 8 * j) = load64 (kmem s) (?b + 8 * j)"
    proof (rule load_le_cong)
      fix k :: nat assume k: "k < 8"
      have "?b + 8 * j + of_nat k - (?b + 8 * i) = 8 * j + of_nat k - 8 * i" by simp
      moreover have "8 \<le> unat (8 * j + of_nat k - 8 * i)"
        using 3 i k by (intro slots_disjoint) auto
      ultimately have "\<not> in_block (?b + 8 * i) 8 (?b + 8 * j + of_nat k)"
        unfolding in_block_def by (metis linorder_not_le)
      then show "kmem ?s (?b + 8 * j + of_nat k) = kmem s (?b + 8 * j + of_nat k)"
        by (simp add: table_set_def store_le_apply)
    qed
    then show ?thesis using 3 by (simp add: entry_def table_get_def)
  qed
qed

lemma pmm_inv_other_memory:
  assumes "pmm_inv s fs" "hhdm_offset_value s' = hhdm_offset_value s"
    "free_frames s' = free_frames s" "free_frame_count s' = free_frame_count s"
    and "\<And>f x. f \<in> set fs \<Longrightarrow> page_at s f x \<Longrightarrow> kmem s' x = kmem s x"
  shows "pmm_inv s' fs"
proof -
  have "free_chain (kmem s') (hhdm_offset_value s) (free_frames s) fs =
      free_chain (kmem s) (hhdm_offset_value s) (free_frames s) fs"
    by (rule free_chain_cong) (rule assms(5))
  then show ?thesis using assms(1-4) by (simp add: pmm_inv_def usable_frame_def)
qed

lemma pmm_inv_table_set:
  assumes "pmm_inv s fs" "aligned_page t" "t \<notin> set fs" "i < 512"
  shows "pmm_inv (table_set (t + hhdm_offset_value s) i v s) fs"
proof (rule pmm_inv_other_memory [OF assms(1)])
  fix f x assume f: "f \<in> set fs" and x: "page_at s f x"
  have "aligned_page f" "f \<noteq> t"
    using f assms pmm_inv_usable usable_frame_aligned by blast+
  then have "\<not> page_at s t x" using blocks_disjoint x assms(2) by blast
  then show "kmem (table_set (t + hhdm_offset_value s) i v s) x = kmem s x"
    by (rule table_set_mem [OF assms(4)])
qed simp_all

section \<open>Walks and the shape of an address space\<close>

definition next_table :: "mm_state \<Rightarrow> u64 \<Rightarrow> u64 \<Rightarrow> u64 option" where
  "next_table s t i = (if present (entry s t i) then Some (entry s t i AND ENTRY_ADDRESS) else None)"

fun walk :: "mm_state \<Rightarrow> u64 \<Rightarrow> u64 list \<Rightarrow> u64 option" where
  "walk s t [] = Some t"
| "walk s t (i # is) = (case next_table s t i of None \<Rightarrow> None | Some u \<Rightarrow> walk s u is)"

definition upath :: "u64 list \<Rightarrow> bool" where
  "upath p \<longleftrightarrow> length p \<le> 3 \<and> (\<forall>i \<in> set p. i < 512) \<and> (p \<noteq> [] \<longrightarrow> hd p < 256)"

definition va_path :: "u64 \<Rightarrow> u64 list" where
  "va_path va = [pml4_index va, pdpt_index va, pd_index va]"

definition pte :: "mm_state \<Rightarrow> u64 \<Rightarrow> u64 \<Rightarrow> u64 option" where
  "pte s root va =
     (case walk s root (va_path va) of
        None \<Rightarrow> None
      | Some t \<Rightarrow> if present (entry s t (pt_index va)) then Some (entry s t (pt_index va)) else None)"

definition vspace_inv :: "mm_state \<Rightarrow> u64 \<Rightarrow> u64 list \<Rightarrow> bool" where
  "vspace_inv s root fs \<longleftrightarrow>
     pmm_inv s fs \<and> (\<forall>f \<in> set fs. f AND ENTRY_ADDRESS = f) \<and>
     (\<forall>p t. upath p \<longrightarrow> walk s root p = Some t \<longrightarrow> aligned_page t \<and> t \<notin> set fs) \<and>
     (\<forall>p q t. upath p \<longrightarrow> upath q \<longrightarrow> walk s root p = Some t \<longrightarrow> walk s root q = Some t \<longrightarrow> p = q)"

definition user_va :: "u64 \<Rightarrow> bool" where
  "user_va va \<longleftrightarrow> va < 0x0000800000000000"

lemma walk_snoc:
  "walk s t (p @ [i]) = (case walk s t p of None \<Rightarrow> None | Some u \<Rightarrow> next_table s u i)"
  by (induction p arbitrary: t) (auto split: option.splits)

lemma upath_snoc: "upath (p @ [i]) \<Longrightarrow> upath p \<and> i < 512 \<and> length p \<le> 2"
  by (auto simp: upath_def)

lemma index_bound: "va AND 0x1ff < (512 :: u64)" for va :: u64
proof -
  have "va AND 0x1ff \<le> 0x1ff" by (rule word_and_le1)
  then show ?thesis by (simp add: word_le_nat_alt word_less_nat_alt)
qed

lemma index_bounds [simp]:
  "pml4_index va < 512" "pdpt_index va < 512" "pd_index va < 512" "pt_index va < 512"
  by (simp_all add: pml4_index_def pdpt_index_def pd_index_def pt_index_def index_bound)

lemma user_pml4_index: "user_va va \<Longrightarrow> pml4_index va < 256"
proof -
  assume "user_va va"
  then have "unat va < 2 ^ 47" by (simp add: user_va_def word_less_nat_alt)
  then have "unat (drop_bit 39 va) < 256"
    by (simp only: unat_drop_bit_eq) (simp add: drop_bit_eq_div less_mult_imp_div_less)
  moreover have "unat (drop_bit 39 va AND 0x1ff) \<le> unat (drop_bit 39 va)"
    by (simp add: word_and_le2 flip: word_le_nat_alt)
  ultimately show ?thesis by (simp add: pml4_index_def word_less_nat_alt)
qed

lemma upath_va_path [simp]: "user_va va \<Longrightarrow> upath (va_path va)"
  by (simp add: upath_def va_path_def user_pml4_index)

lemma upath_va_prefixes:
  assumes "user_va va"
  shows "upath []" "upath [pml4_index va]" "upath [pml4_index va, pdpt_index va]"
  using assms by (simp_all add: upath_def user_pml4_index)

lemma vspace_invD:
  assumes "vspace_inv s root fs"
  shows "pmm_inv s fs"
    and "f \<in> set fs \<Longrightarrow> f AND ENTRY_ADDRESS = f"
    and "upath p \<Longrightarrow> walk s root p = Some t \<Longrightarrow> aligned_page t"
    and "upath p \<Longrightarrow> walk s root p = Some t \<Longrightarrow> t \<notin> set fs"
    and "upath p \<Longrightarrow> upath q \<Longrightarrow> walk s root p = Some t \<Longrightarrow> walk s root q = Some t \<Longrightarrow> p = q"
  using assms unfolding vspace_inv_def by blast+

subsection \<open>Adding a table\<close>

lemma present_iff: "present e \<longleftrightarrow> bit e 0"
  by (simp add: present_def and_one_eq bit_0 mod_2_eq_odd)

lemma present_flags [simp]: "present (a OR b OR 1)" "present (a OR b OR 1 OR c OR d)"
  by (simp_all add: present_iff bit_or_iff)

lemma address_of_new_entry:
  assumes "f AND ENTRY_ADDRESS = f" "flags AND ENTRY_ADDRESS = 0"
  shows "(f OR flags OR 1 OR 2 OR 4) AND ENTRY_ADDRESS = f" "(f OR flags OR 1) AND ENTRY_ADDRESS = f"
  using assms by (simp_all add: bit.conj_disj_distrib2)

text \<open>The tables after a fresh frame \<open>f\<close> has been taken and entered in slot \<open>i\<close> of table \<open>t\<close>.\<close>

definition new_table_state :: "u64 \<Rightarrow> u64 \<Rightarrow> u64 \<Rightarrow> mm_state \<Rightarrow> mm_state" where
  "new_table_state t i e s =
     table_set (t + hhdm_offset_value s) i e (snd (xbks_pmm_alloc_frame s))"

lemma new_table_static [simp]:
  "hhdm_offset_value (new_table_state t i e s) = hhdm_offset_value s"
  "kernel_cr3_value (new_table_state t i e s) = kernel_cr3_value s"
  "cr3 (new_table_state t i e s) = cr3 s"
  by (simp_all add: new_table_state_def)

lemma new_table_entry:
  assumes inv: "pmm_inv s (f # fs)" and t: "aligned_page t" "t \<noteq> f" and i: "i < 512" "k < 512"
    and u: "aligned_page u"
  shows "entry (new_table_state t i e s) u k =
    (if u = f then 0 else if u = t \<and> k = i then e else entry s u k)"
proof -
  let ?s1 = "snd (xbks_pmm_alloc_frame s)"
  have f: "aligned_page f" using inv pmm_inv_usable usable_frame_aligned by fastforce
  have set: "entry (new_table_state t i e s) u k = (if u = t \<and> k = i then e else entry ?s1 u k)"
    using entry_set [of t u i k ?s1] t u i by (simp add: new_table_state_def)
  have "entry ?s1 f k = 0"
    using i alloc_mem [OF inv] by (intro entry_zero_page) auto
  moreover have "entry ?s1 u k = entry s u k" if "u \<noteq> f"
    using u f i that blocks_disjoint alloc_mem [OF inv] by (intro entry_cong) auto
  ultimately show ?thesis using set t by auto
qed

lemma new_table_walk:
  assumes inv: "vspace_inv s root (f # fs)" and p: "upath (p @ [i])" "walk s root p = Some t"
    and absent: "\<not> present (entry s t i)"
    and e: "present e" "e AND ENTRY_ADDRESS = f"
    and q: "upath q"
  shows "walk (new_table_state t i e s) root q = (if q = p @ [i] then Some f else walk s root q)"
  using q
proof (induction q rule: rev_induct)
  case Nil
  then show ?case by simp
next
  case (snoc j q)
  let ?s = "new_table_state t i e s"
  note up = upath_snoc [OF p(1)] and uq = upath_snoc [OF snoc.prems]
  have t: "aligned_page t" "t \<noteq> f" using vspace_invD(3,4) [OF inv] p(2) up by auto
  have f: "aligned_page f"
    using vspace_invD(1) [OF inv] pmm_inv_usable usable_frame_aligned by fastforce
  note entries = new_table_entry [OF vspace_invD(1) [OF inv] t, of i j _ e]
  have IH: "walk ?s root q = (if q = p @ [i] then Some f else walk s root q)"
    using snoc.IH uq by blast
  have none: "walk s root (p @ [i]) = None"
    using absent by (simp add: walk_snoc p(2) next_table_def)
  consider "q = p @ [i]" | "q \<noteq> p @ [i]" "walk s root q = None"
    | u where "q \<noteq> p @ [i]" "walk s root q = Some u" by fastforce
  then show ?case
  proof cases
    case 1
    have "walk ?s root (q @ [j]) = None"
      unfolding walk_snoc [of ?s root q j] using 1 IH entries [of f] f up uq
      by (simp add: next_table_def present_def)
    moreover have "walk s root (q @ [j]) = None"
      unfolding walk_snoc [of s root q j] using 1 none by simp
    ultimately show ?thesis using 1 by simp
  next
    case 2
    then show ?thesis using IH p(2) by (auto simp: walk_snoc)
  next
    case 3
    then have u: "aligned_page u" "u \<noteq> f" using vspace_invD(3,4) [OF inv] uq by auto
    have "u = t \<longleftrightarrow> q = p" using 3 p(2) vspace_invD(5) [OF inv] up uq by auto
    then show ?thesis
      using IH 3 entries [of u] u up uq e by (auto simp: walk_snoc next_table_def)
  qed
qed

lemma new_table_pte:
  assumes inv: "vspace_inv s root (f # fs)" and p: "upath (p @ [i])" "walk s root p = Some t"
    and absent: "\<not> present (entry s t i)"
    and e: "present e" "e AND ENTRY_ADDRESS = f" and va: "user_va va"
  shows "pte (new_table_state t i e s) root va = pte s root va"
proof -
  note up = upath_snoc [OF p(1)]
  have t: "aligned_page t" "t \<noteq> f" using vspace_invD(3,4) [OF inv] p(2) up by auto
  have f: "aligned_page f"
    using vspace_invD(1) [OF inv] pmm_inv_usable usable_frame_aligned by fastforce
  note entries = new_table_entry [OF vspace_invD(1) [OF inv] t, of i _ _ e]
  note w = new_table_walk [OF inv p absent e upath_va_path [OF va]]
  have none: "walk s root (p @ [i]) = None"
    using absent by (simp add: walk_snoc p(2) next_table_def)
  consider "va_path va = p @ [i]" | "va_path va \<noteq> p @ [i]" "walk s root (va_path va) = None"
    | u where "va_path va \<noteq> p @ [i]" "walk s root (va_path va) = Some u" by fastforce
  then show ?thesis
  proof cases
    case 1
    then show ?thesis using w none f entries [of "pt_index va" f] up
      by (simp add: pte_def present_def)
  next
    case 2
    then show ?thesis using w by (simp add: pte_def)
  next
    case 3
    then have u: "aligned_page u" "u \<noteq> f"
      using vspace_invD(3,4) [OF inv upath_va_path [OF va]] by auto
    have "va_path va \<noteq> p" using up by (auto simp: va_path_def)
    then have "u \<noteq> t" using 3 p(2) vspace_invD(5) [OF inv] up va by auto
    then show ?thesis using 3 w u entries [of "pt_index va" u] up by (simp add: pte_def)
  qed
qed

lemma new_table_inv:
  assumes inv: "vspace_inv s root (f # fs)" and p: "upath (p @ [i])" "walk s root p = Some t"
    and absent: "\<not> present (entry s t i)"
    and e: "present e" "e AND ENTRY_ADDRESS = f"
  shows "vspace_inv (new_table_state t i e s) root fs"
proof -
  let ?s = "new_table_state t i e s"
  note w = new_table_walk [OF inv p absent e] and D = vspace_invD [OF inv]
  have f: "aligned_page f" "f \<notin> set fs"
    using D(1) pmm_inv_usable usable_frame_aligned by (fastforce simp: pmm_inv_def)+
  have t: "aligned_page t" "t \<notin> set fs"
    using D(3,4) p upath_snoc [OF p(1)] by fastforce+
  have "pmm_inv ?s fs"
    using pmm_inv_table_set [OF alloc_inv [OF D(1)] t, of i e] upath_snoc [OF p(1)]
    by (simp add: new_table_state_def)
  moreover have "aligned_page u \<and> u \<notin> set fs" if "upath q" "walk ?s root q = Some u" for q u
    using that w [OF that(1)] f D(3,4) [OF that(1)] by (auto split: if_splits)
  moreover have "q = r" if "upath q" "upath r" "walk ?s root q = Some u" "walk ?s root r = Some u"
    for q r u
    using that w [OF that(1)] w [OF that(2)] D(4) D(5) [OF that(1,2)] by (auto split: if_splits)
  ultimately show ?thesis using D(2) by (auto simp: vspace_inv_def)
qed

subsection \<open>One level of a walk that creates missing tables\<close>

definition same_view :: "u64 \<Rightarrow> mm_state \<Rightarrow> mm_state \<Rightarrow> bool" where
  "same_view root s s' \<longleftrightarrow>
     hhdm_offset_value s' = hhdm_offset_value s \<and> kernel_cr3_value s' = kernel_cr3_value s \<and>
     cr3 s' = cr3 s \<and> (\<forall>va. user_va va \<longrightarrow> pte s' root va = pte s root va)"

lemma same_view_refl [simp]: "same_view root s s"
  by (simp add: same_view_def)

lemma same_view_trans: "same_view root s s' \<Longrightarrow> same_view root s' s'' \<Longrightarrow> same_view root s s''"
  by (simp add: same_view_def)

text \<open>
  The tables of an address space, and how an operation that adds tables changes memory: it takes them
  from the free frames and writes to tables only.
\<close>

definition tables :: "mm_state \<Rightarrow> u64 \<Rightarrow> u64 set" where
  "tables s root = {t. \<exists>p. upath p \<and> walk s root p = Some t}"

definition grows :: "u64 \<Rightarrow> u64 list \<Rightarrow> mm_state \<Rightarrow> mm_state \<Rightarrow> bool" where
  "grows root fs s s' \<longleftrightarrow> hhdm_offset_value s' = hhdm_offset_value s \<and>
     tables s root \<subseteq> tables s' root \<and> tables s' root \<subseteq> tables s root \<union> set fs \<and>
     (\<forall>x. (\<forall>t \<in> tables s' root. \<not> page_at s t x) \<longrightarrow> kmem s' x = kmem s x)"

lemma grows_refl [simp]: "grows root fs s s"
  by (auto simp: grows_def)

lemma grows_trans:
  assumes "grows root fs s s'" "grows root (drop k fs) s' s''"
  shows "grows root fs s s''"
proof -
  have "set (drop k fs) \<subseteq> set fs" by (rule set_drop_subset)
  then show ?thesis using assms unfolding grows_def by (auto 0 3)
qed

lemma new_table_grows:
  assumes inv: "vspace_inv s root (f # fs)" and p: "upath (p @ [i])" "walk s root p = Some t"
    and absent: "\<not> present (entry s t i)"
    and e: "present e" "e AND ENTRY_ADDRESS = f"
  shows "grows root (f # fs) s (new_table_state t i e s)"
proof -
  let ?s = "new_table_state t i e s"
  note w = new_table_walk [OF inv p absent e]
  have none: "walk s root (p @ [i]) = None" using absent by (simp add: walk_snoc p(2) next_table_def)
  have up: "upath p" "i < 512" using upath_snoc [OF p(1)] by auto
  have tabs: "tables ?s root = insert f (tables s root)"
  proof (intro equalityI subsetI)
    fix u assume "u \<in> tables ?s root"
    then obtain q where "upath q" "walk ?s root q = Some u" by (auto simp: tables_def)
    then show "u \<in> insert f (tables s root)" using w [of q] by (auto simp: tables_def split: if_splits)
  next
    fix u assume "u \<in> insert f (tables s root)"
    then consider "u = f" | q where "upath q" "walk s root q = Some u" by (auto simp: tables_def)
    then show "u \<in> tables ?s root"
    proof cases
      case 1
      then show ?thesis using w [OF p(1)] p(1) by (auto simp: tables_def)
    next
      case 2
      then have "walk ?s root q = Some u" using w [OF 2(1)] none by auto
      then show ?thesis using 2(1) by (auto simp: tables_def)
    qed
  qed
  have "kmem ?s x = kmem s x" if "\<forall>u \<in> tables ?s root. \<not> page_at s u x" for x
  proof -
    have "t \<in> tables s root" using up(1) p(2) by (auto simp: tables_def)
    then have "\<not> page_at s t x" "\<not> page_at s f x" using that tabs by auto
    then show ?thesis
      using table_set_mem [OF up(2), of t "snd (xbks_pmm_alloc_frame s)" x e] alloc_mem [OF vspace_invD(1) [OF inv]]
      by (simp add: new_table_state_def)
  qed
  then show ?thesis unfolding grows_def tabs by auto
qed

lemma ensure_next_table_spec:
  assumes inv: "vspace_inv s root fs" and p: "upath (p @ [i])" "walk s root p = Some t"
    and flags: "flags AND ENTRY_ADDRESS = 0"
  obtains
    (out_of_memory) "ensure_next_table (t + hhdm_offset_value s) i flags s = (None, s)" "fs = []"
      "walk s root (p @ [i]) = None"
  | (table) u s' k where
      "ensure_next_table (t + hhdm_offset_value s) i flags s = (Some (u + hhdm_offset_value s'), s')"
      "walk s' root (p @ [i]) = Some u" "vspace_inv s' root (drop k fs)" "k \<le> 1" "same_view root s s'"
      "grows root fs s s'"
proof -
  let ?h = "hhdm_offset_value s"
  note D = vspace_invD [OF inv]
  have get: "table_get s (t + ?h) i = entry s t i" by (simp add: entry_def)
  show ?thesis
  proof (cases "present (entry s t i)")
    case True
    show ?thesis
    proof (rule table)
      show "ensure_next_table (t + ?h) i flags s = (Some ((entry s t i AND ENTRY_ADDRESS) + ?h), s)"
        using True by (simp add: ensure_next_table_def get present_def page_table_from_entry_def
            xbks_phys_to_virt_def)
      show "walk s root (p @ [i]) = Some (entry s t i AND ENTRY_ADDRESS)"
        using True by (simp add: walk_snoc p(2) next_table_def)
      show "vspace_inv s root (drop 0 fs)" using inv by simp
    qed simp_all
  next
    case absent: False
    then have none: "walk s root (p @ [i]) = None" by (simp add: walk_snoc p(2) next_table_def)
    from D(1) show ?thesis
    proof (cases rule: pmm.alloc_cases)
      case 1
      then show ?thesis
        using absent none by (intro out_of_memory) (simp_all add: ensure_next_table_def get present_def)
    next
      case (2 f gs s1)
      let ?e = "f OR flags OR 1 OR 2 OR 4"
      let ?s = "new_table_state t i ?e s"
      have f: "f AND ENTRY_ADDRESS = f" using D(2) 2 by simp
      have e: "present ?e" "?e AND ENTRY_ADDRESS = f"
        by (rule present_flags) (rule address_of_new_entry [OF f flags])
      have al: "aligned_page t" "t \<noteq> f" using D(3,4) p 2 upath_snoc [OF p(1)] by fastforce+
      note inv' = inv [unfolded 2(1)]
      have h1: "hhdm_offset_value s1 = ?h" using alloc_static(1) [of s] 2(2) by simp
      have "entry ?s t i = ?e"
        using new_table_entry [OF vspace_invD(1) [OF inv'] al] al upath_snoc [OF p(1)] by simp
      then have got: "table_get ?s (t + ?h) i = ?e" by (simp add: entry_def)
      show ?thesis
      proof (rule table)
        show "ensure_next_table (t + ?h) i flags s = (Some (f + hhdm_offset_value ?s), ?s)"
          using absent 2 got e(2) h1
          by (simp add: ensure_next_table_def get present_def page_table_from_entry_def
              xbks_phys_to_virt_def new_table_state_def Let_def)
        show "walk ?s root (p @ [i]) = Some f"
          using new_table_walk [OF inv' p absent e p(1)] by simp
        show "vspace_inv ?s root (drop 1 fs)"
          using new_table_inv [OF inv' p absent e] 2(1) by simp
        show "grows root fs s ?s" using new_table_grows [OF inv' p absent e] 2(1) by simp
        show "same_view root s ?s"
          using new_table_pte [OF inv' p absent e]
          by (simp add: same_view_def)
      qed simp
    qed
  qed
qed

subsection \<open>Writing a leaf entry\<close>

lemma leaf_set_entry:
  assumes inv: "vspace_inv s root fs" and t: "upath p" "walk s root p = Some t"
    and u: "upath q" "walk s root q = Some u" and i: "i < 512" "j < 512"
  shows "entry (table_set (t + hhdm_offset_value s) i e s) u j =
    (if q = p \<and> j = i then e else entry s u j)"
proof -
  have "aligned_page t" "aligned_page u" "u = t \<longleftrightarrow> q = p"
    using vspace_invD(3) [OF inv t] vspace_invD(3) [OF inv u] vspace_invD(5) [OF inv t(1) u(1)] t u
    by auto
  then show ?thesis using entry_set i by simp
qed

lemma leaf_set_walk:
  assumes inv: "vspace_inv s root fs" and p: "upath p" "length p = 3" "walk s root p = Some t"
    and i: "i < 512" and q: "upath q"
  shows "walk (table_set (t + hhdm_offset_value s) i e s) root q = walk s root q"
  using q
proof (induction q rule: rev_induct)
  case Nil
  then show ?case by simp
next
  case (snoc j q)
  note uq = upath_snoc [OF snoc.prems]
  have "entry (table_set (t + hhdm_offset_value s) i e s) u j = entry s u j"
    if "walk s root q = Some u" for u
    using leaf_set_entry [OF inv p(1,3) _ that i] uq p(2) by auto
  then show ?case
    using snoc.IH uq by (auto simp: walk_snoc next_table_def split: option.splits)
qed

lemma leaf_set_inv:
  assumes inv: "vspace_inv s root fs" and p: "upath p" "length p = 3" "walk s root p = Some t"
    and i: "i < 512"
  shows "vspace_inv (table_set (t + hhdm_offset_value s) i e s) root fs"
proof -
  note w = leaf_set_walk [OF inv p i, of _ e] and D = vspace_invD [OF inv]
  have "pmm_inv (table_set (t + hhdm_offset_value s) i e s) fs"
    using D(1) D(3,4) [OF p(1,3)] i by (rule pmm_inv_table_set)
  then show ?thesis
    using D(2) D(3,4) D(5) w unfolding vspace_inv_def by simp
qed

lemma leaf_set_grows:
  assumes inv: "vspace_inv s root fs" and p: "upath p" "length p = 3" "walk s root p = Some t"
    and i: "i < 512"
  shows "grows root gs s (table_set (t + hhdm_offset_value s) i e s)"
proof -
  have tabs: "tables (table_set (t + hhdm_offset_value s) i e s) root = tables s root"
    using leaf_set_walk [OF inv p i, of _ e] by (auto simp: tables_def)
  have "t \<in> tables s root" using p by (auto simp: tables_def)
  then show ?thesis using table_set_mem [OF i] unfolding grows_def tabs by auto
qed

subsection \<open>Addresses of one page\<close>

lemma unat_index: "unat (drop_bit n va AND 0x1ff) = unat va div 2 ^ n mod 512" for va :: u64
proof -
  have "(0x1ff :: u64) = mask 9" by (simp add: mask_eq_exp_minus_1)
  then have "unat (drop_bit n va AND 0x1ff) = unat (drop_bit n va) mod 2 ^ 9"
    by (simp only: unat_and_mask)
  also have "unat (drop_bit n va) = unat va div 2 ^ n"
    by (simp only: unat_drop_bit_eq) (simp add: drop_bit_eq_div)
  finally show ?thesis by simp
qed

lemma unat_indices:
  "unat (pt_index va) = unat va div 4096 mod 512"
  "unat (pd_index va) = unat va div 4096 div 512 mod 512"
  "unat (pdpt_index va) = unat va div 4096 div 512 div 512 mod 512"
  "unat (pml4_index va) = unat va div 4096 div 512 div 512 div 512 mod 512"
  by (simp_all add: pt_index_def pd_index_def pdpt_index_def pml4_index_def unat_index
      flip: div_mult2_eq)

lemma digits_512:
  fixes n :: nat
  assumes "n < 512 * (512 * (512 * 512))"
  shows "n = n mod 512 + 512 * (n div 512 mod 512 + 512 * (n div 512 div 512 mod 512 +
    512 * (n div 512 div 512 div 512 mod 512)))"
proof -
  have "n div 512 div 512 div 512 < 512"
    using assms by (simp add: less_mult_imp_div_less flip: div_mult2_eq)
  then show ?thesis by simp
qed

lemma same_page_iff:
  assumes "user_va va" "user_va va'"
  shows "va_path va' = va_path va \<and> pt_index va' = pt_index va \<longleftrightarrow>
    align_down va' 4096 = align_down va 4096"
proof -
  have b: "unat a div 4096 < 512 * (512 * (512 * 512))" if "user_va a" for a
    using that by (simp add: user_va_def word_less_nat_alt less_mult_imp_div_less)
  have "align_down va' 4096 = align_down va 4096 \<longleftrightarrow> unat va' div 4096 = unat va div 4096"
    by (simp add: word_unat_eq_iff unat_page_base)
  moreover have "unat va' div 4096 = unat va div 4096"
    if "va_path va' = va_path va" "pt_index va' = pt_index va"
  proof -
    have "unat (pt_index va') = unat (pt_index va)" "unat (pd_index va') = unat (pd_index va)"
      "unat (pdpt_index va') = unat (pdpt_index va)" "unat (pml4_index va') = unat (pml4_index va)"
      using that by (simp_all add: va_path_def)
    then show ?thesis
      unfolding unat_indices
      using digits_512 [OF b [OF assms(1)]] digits_512 [OF b [OF assms(2)]] by metis
  qed
  moreover have "va_path va' = va_path va \<and> pt_index va' = pt_index va"
    if "unat va' div 4096 = unat va div 4096"
    unfolding va_path_def word_unat_eq_iff list.inject unat_indices that by simp
  ultimately show ?thesis by blast
qed

lemma leaf_set_pte:
  assumes inv: "vspace_inv s root fs" and va: "user_va va" "walk s root (va_path va) = Some t"
    and va': "user_va va'" and e: "present e"
  shows "pte (table_set (t + hhdm_offset_value s) (pt_index va) e s) root va' =
    (if align_down va' 4096 = align_down va 4096 then Some e else pte s root va')"
proof -
  have p: "upath (va_path va)" "length (va_path va) = 3"
    using va(1) by simp (simp add: va_path_def)
  note w = leaf_set_walk [OF inv p va(2) _ upath_va_path [OF va'], of "pt_index va" e]
  note ent = leaf_set_entry [OF inv p(1) va(2) upath_va_path [OF va'], of _ "pt_index va" "pt_index va'" e]
  show ?thesis
  proof (cases "walk s root (va_path va')")
    case None
    then have "va_path va' \<noteq> va_path va" using va(2) by auto
    then show ?thesis using None w same_page_iff [OF va(1) va'] by (auto simp: pte_def)
  next
    case (Some u)
    then show ?thesis
      using w ent [OF Some] same_page_iff [OF va(1) va'] e va(2) by (auto simp: pte_def)
  qed
qed

section \<open>Mapping and translation\<close>

lemma translate_pte:
  assumes "user_va va"
  shows "xbks_vmm_translate s root va =
    map_option (\<lambda>e. (e AND ENTRY_ADDRESS) OR (va AND 0xfff)) (pte s root va)"
  by (simp add: xbks_vmm_translate_def pte_def va_path_def next_table_def present_def entry_def
      page_table_from_entry_def xbks_phys_to_virt_def Let_def)

text \<open>What \<^verbatim>\<open>xbks_vmm_map_page\<close> does to an address space, whatever its outcome.\<close>

definition map_outcome :: "u64 \<Rightarrow> u64 \<Rightarrow> u64 \<Rightarrow> u64 list \<Rightarrow> mm_state \<Rightarrow> bool \<times> mm_state \<Rightarrow> bool" where
  "map_outcome root va e fs s r \<longleftrightarrow>
     (\<exists>k \<le> 3. vspace_inv (snd r) root (drop k fs)) \<and>
     hhdm_offset_value (snd r) = hhdm_offset_value s \<and>
     kernel_cr3_value (snd r) = kernel_cr3_value s \<and> cr3 (snd r) = cr3 s \<and>
     grows root fs s (snd r) \<and>
     (fst r \<longrightarrow> pte s root va = None) \<and>
     (\<not> fst r \<longrightarrow> pte s root va \<noteq> None \<or> length fs < 3) \<and>
     (\<forall>va'. user_va va' \<longrightarrow> pte (snd r) root va' =
        (if fst r \<and> align_down va' 4096 = va then Some e else pte s root va'))"

lemma map_fails:
  assumes "vspace_inv s' root (drop k fs)" "k \<le> 3" "same_view root s s'" "grows root fs s s'"
    and "pte s root va \<noteq> None \<or> length fs < 3"
  shows "map_outcome root va e fs s (False, s')"
  using assms by (auto simp: map_outcome_def same_view_def)

lemma map_page_refines:
  assumes inv: "vspace_inv s root fs" and va: "user_va va" "aligned_page va"
    and flags: "flags AND ENTRY_ADDRESS = 0" and pa: "pa AND ENTRY_ADDRESS = pa" "aligned_page pa"
  shows "map_outcome root va (pa OR flags OR 1) fs s (xbks_vmm_map_page root va pa flags s)"
proof -
  let ?i4 = "pml4_index va" and ?i3 = "pdpt_index va" and ?i2 = "pd_index va"
  have up: "upath ([] @ [?i4])" "upath ([?i4] @ [?i3])" "upath ([?i4, ?i3] @ [?i2])"
    using upath_va_prefixes [OF va(1)] upath_va_path [OF va(1)] by (simp_all add: va_path_def)
  have guard: "va AND 0xfff = 0" "pa AND 0xfff = 0"
    using va(2) pa(2) by (simp_all add: aligned_page_def)
  note m = xbks_vmm_map_page_def [of root va pa flags s] xbks_phys_to_virt_def Let_def guard
  have root: "walk s root [] = Some root" by simp
  from inv up(1) root flags show ?thesis
  proof (cases rule: ensure_next_table_spec)
    case out_of_memory
    then show ?thesis using map_fails [of s root 0 fs s va] inv by (simp add: m)
  next
    case (table t3 s1 k1)
    note l1 = this
    from l1(3) up(2) l1(2) [unfolded append_Nil] flags show ?thesis
    proof (cases rule: ensure_next_table_spec)
      case out_of_memory
      then show ?thesis using map_fails [of s1 root k1 fs s va] l1 by (simp add: m)
    next
      case (table t2 s2 k2)
      note l2 = this
      have v2: "same_view root s s2" using l1(5) l2(5) by (rule same_view_trans)
      have g2: "grows root fs s s2" using l1(6) l2(6) by (rule grows_trans)
      from l2(3) up(3) l2(2) [unfolded append_Cons append_Nil] flags show ?thesis
      proof (cases rule: ensure_next_table_spec)
        case out_of_memory
        then show ?thesis using map_fails [of s2 root "k2 + k1" fs s va] l1 l2 v2 g2 by (simp add: m)
      next
        case (table t1 s3 k3)
        note l3 = this
        have v3: "same_view root s s3" using v2 l3(5) by (rule same_view_trans)
        have g3: "grows root fs s s3" using g2 l3(6) [unfolded drop_drop] by (rule grows_trans)
        have inv3: "vspace_inv s3 root (drop (k3 + (k2 + k1)) fs)" using l3(3) by (simp add: add.assoc)
        have k: "k3 + (k2 + k1) \<le> 3" using l1(4) l2(4) l3(4) by simp
        have w: "walk s3 root (va_path va) = Some t1" using l3(2) by (simp add: va_path_def)
        have leaf: "table_get s3 (t1 + hhdm_offset_value s3) (pt_index va) = entry s3 t1 (pt_index va)"
          by (simp add: entry_def)
        have same: "pte s3 root va = pte s root va" using v3 va(1) by (simp add: same_view_def)
        show ?thesis
        proof (cases "present (entry s3 t1 (pt_index va))")
          case True
          then have "pte s3 root va \<noteq> None" using w by (simp add: pte_def)
          then have "pte s root va \<noteq> None" using same by simp
          then have "map_outcome root va (pa OR flags OR 1) fs s (False, s3)"
            using inv3 k v3 g3 by (intro map_fails) auto
          then show ?thesis using True l1(1) l2(1) l3(1) leaf by (simp add: m present_def)
        next
          case False
          let ?s = "table_set (t1 + hhdm_offset_value s3) (pt_index va) (pa OR flags OR 1) s3"
          have none: "pte s root va = None" using False w same by (auto simp: pte_def)
          have "vspace_inv ?s root (drop (k3 + (k2 + k1)) fs)"
            using leaf_set_inv [OF inv3 upath_va_path [OF va(1)] _ w] by (simp add: va_path_def)
          moreover have "pte ?s root va' = (if align_down va' 4096 = va then Some (pa OR flags OR 1)
              else pte s root va')" if "user_va va'" for va'
            using leaf_set_pte [OF inv3 va(1) w that] v3 that va(2)
            by (simp add: same_view_def page_base_id)
          moreover have "grows root fs s ?s"
            using grows_trans [OF g3, of 0] leaf_set_grows [OF inv3 upath_va_path [OF va(1)] _ w]
            by (simp add: va_path_def)
          ultimately have "map_outcome root va (pa OR flags OR 1) fs s (True, ?s)"
            using none k v3 by (auto simp: map_outcome_def same_view_def)
          then show ?thesis using False l1(1) l2(1) l3(1) leaf by (simp add: m present_def)
        qed
      qed
    qed
  qed
qed

section \<open>A new address space\<close>

lemma empty_vspace_inv:
  assumes "pmm_inv s fs" "\<forall>f \<in> set fs. f AND ENTRY_ADDRESS = f" "aligned_page root" "root \<notin> set fs"
    and absent: "\<And>i. i < 256 \<Longrightarrow> \<not> present (entry s root i)"
  shows "vspace_inv s root fs" and "user_va va \<Longrightarrow> pte s root va = None" and "tables s root = {root}"
proof -
  have walk: "walk s root p = (if p = [] then Some root else None)" if "upath p" for p
    using that absent by (cases p) (auto simp: upath_def next_table_def)
  then show "vspace_inv s root fs"
    using assms(1-4) unfolding vspace_inv_def by (auto split: if_splits)
  show "pte s root va = None" if "user_va va"
    using walk [OF upath_va_path [OF that]] by (simp add: pte_def va_path_def)
  have "upath []" by (simp add: upath_def)
  then show "tables s root = {root}" using walk by (force simp: tables_def split: if_splits)
qed

lemma copy_entries:
  assumes "aligned_page t" "aligned_page k" "k \<noteq> t" "\<forall>i \<in> set is. i < 512"
    and "h = hhdm_offset_value s"
    and "s' = fold (\<lambda>i u. table_set (t + h) i (table_get u (k + h) i) u) is s"
  shows "hhdm_offset_value s' = h \<and> kernel_cr3_value s' = kernel_cr3_value s \<and> cr3 s' = cr3 s \<and>
    (\<forall>u j. aligned_page u \<longrightarrow> j < 512 \<longrightarrow>
      entry s' u j = (if u = t \<and> j \<in> set is then entry s k j else entry s u j)) \<and>
    (\<forall>fs. pmm_inv s fs \<longrightarrow> t \<notin> set fs \<longrightarrow> pmm_inv s' fs) \<and>
    (\<forall>x. \<not> page_at s t x \<longrightarrow> kmem s' x = kmem s x)"
  using assms(4-)
proof (induction "is" arbitrary: s)
  case Nil
  then show ?case by simp
next
  case (Cons i "is")
  let ?s = "table_set (t + h) i (table_get s (k + h) i) s"
  have get: "table_get s (k + h) i = entry s k i" using Cons.prems by (simp add: entry_def)
  have ent: "entry ?s u j = (if u = t \<and> j = i then entry s k i else entry s u j)"
    if "aligned_page u" "j < 512" for u j
    using entry_set [OF assms(1) that(1), of i j s] that Cons.prems get by simp
  have inv: "pmm_inv ?s fs" if "pmm_inv s fs" "t \<notin> set fs" for fs
    using pmm_inv_table_set [OF that(1) assms(1) that(2), of i] Cons.prems by simp
  have mem: "kmem ?s x = kmem s x" if "\<not> page_at s t x" for x
    using table_set_mem [OF _ that, of i] Cons.prems by simp
  have "hhdm_offset_value s' = h \<and> kernel_cr3_value s' = kernel_cr3_value ?s \<and> cr3 s' = cr3 ?s \<and>
    (\<forall>u j. aligned_page u \<longrightarrow> j < 512 \<longrightarrow>
      entry s' u j = (if u = t \<and> j \<in> set is then entry ?s k j else entry ?s u j)) \<and>
    (\<forall>fs. pmm_inv ?s fs \<longrightarrow> t \<notin> set fs \<longrightarrow> pmm_inv s' fs) \<and>
    (\<forall>x. \<not> page_at ?s t x \<longrightarrow> kmem s' x = kmem ?s x)"
    using Cons.prems by (intro Cons.IH) auto
  then show ?case using ent inv mem assms(2,3) by auto
qed

lemma set_indices: "hi \<le> 2 ^ 64 \<Longrightarrow> set (indices lo hi) = {i. lo \<le> unat i \<and> unat i < hi}"
proof -
  assume hi: "hi \<le> 2 ^ 64"
  have "i \<in> set (indices lo hi)" if "lo \<le> unat i" "unat i < hi" for i
    unfolding indices_def set_map using that by (intro image_eqI [of _ _ "unat i"]) auto
  moreover have "lo \<le> unat i \<and> unat i < hi" if "i \<in> set (indices lo hi)" for i
    using that hi by (auto simp: indices_def unat_of_nat)
  ultimately show ?thesis by blast
qed

lemma create_pml4_spec:
  assumes inv: "pmm_inv s (f # fs)" and k: "kernel_cr3_value s \<notin> set (f # fs)"
    "aligned_page (kernel_cr3_value s)"
    and addr: "\<forall>f \<in> set fs. f AND ENTRY_ADDRESS = f"
    and s': "xbks_create_kernel_mapped_pml4 s = (root, s')"
  shows "root = f" "vspace_inv s' root fs" "user_va va \<Longrightarrow> pte s' root va = None"
    and "256 \<le> i \<Longrightarrow> i < 512 \<Longrightarrow> entry s' root i = entry s (kernel_cr3_value s) i"
    and "hhdm_offset_value s' = hhdm_offset_value s" "kernel_cr3_value s' = kernel_cr3_value s"
    "cr3 s' = cr3 s" and "tables s' root = {root}" and "\<not> page_at s f x \<Longrightarrow> kmem s' x = kmem s x"
proof -
  let ?k = "kernel_cr3_value s"
  obtain s1 where s1: "xbks_pmm_alloc_frame s = (f, s1)" "pmm_inv s1 fs"
    using pmm.alloc_some [OF inv] by (metis prod.collapse)
  have f: "f \<noteq> 0" "aligned_page f" "f \<notin> set fs"
    using inv by (auto simp: pmm_inv_def usable_frame_def)
  have st: "hhdm_offset_value s1 = hhdm_offset_value s" "kernel_cr3_value s1 = ?k" "cr3 s1 = cr3 s"
    using alloc_static [of s] s1(1) by simp_all
  have base: "?k AND NOT 0xfff = ?k"
    using page_base_id [OF k(2)] by (simp add: align_down_def)
  have res: "root = f" "s' = fold (\<lambda>i u. table_set (f + hhdm_offset_value s1) i
      (table_get u (?k + hhdm_offset_value s1) i) u) (indices 256 512) s1"
    using s' f(1) base
    by (auto simp: xbks_create_kernel_mapped_pml4_def s1(1) st xbks_phys_to_virt_def Let_def)
  have idx: "set (indices 256 512) = {i. 256 \<le> i \<and> i < 512}"
    by (auto simp: set_indices word_le_nat_alt word_less_nat_alt)
  have c: "hhdm_offset_value s' = hhdm_offset_value s1" "kernel_cr3_value s' = ?k" "cr3 s' = cr3 s"
    "aligned_page u \<Longrightarrow> j < 512 \<Longrightarrow>
      entry s' u j = (if u = f \<and> 256 \<le> j then entry s1 ?k j else entry s1 u j)"
    "pmm_inv s' fs" "\<forall>x. \<not> page_at s1 f x \<longrightarrow> kmem s' x = kmem s1 x" for u j
    using copy_entries [OF f(2) k(2) _ _ refl res(2)] k(1) s1(2) f(3)
    by (auto simp: idx st)
  have zero: "entry s1 f j = 0" if "j < 512" for j
    using that alloc_mem [OF inv] s1(1) st by (intro entry_zero_page) auto
  have absent: "\<not> present (entry s' f j)" if "j < 256" for j
    using c(4) [OF f(2), of j] zero [of j] that
    by (auto simp: word_less_nat_alt word_le_nat_alt present_def)
  show "root = f" by (rule res)
  show "vspace_inv s' root fs" "user_va va \<Longrightarrow> pte s' root va = None" "tables s' root = {root}"
    unfolding res(1) using empty_vspace_inv [OF c(5) addr f(2,3) absent] by blast+
  show "\<not> page_at s f x \<Longrightarrow> kmem s' x = kmem s x"
    using c(6) alloc_mem [OF inv, of x] s1(1) st(1) by simp
  have "entry s1 ?k i = entry s ?k i" if "i < 512"
  proof (rule entry_cong [OF that])
    fix x assume "page_at s ?k x"
    then have "\<not> page_at s f x" using blocks_disjoint [OF k(2) f(2)] k(1) by auto
    then show "kmem s1 x = kmem s x" using alloc_mem [OF inv, of x] s1(1) by simp
  qed (rule st)
  then show "256 \<le> i \<Longrightarrow> i < 512 \<Longrightarrow> entry s' root i = entry s ?k i"
    using c(4) [OF f(2), of i] res(1) by simp
  show "hhdm_offset_value s' = hhdm_offset_value s" "kernel_cr3_value s' = ?k" "cr3 s' = cr3 s"
    using c(1,2,3) st by simp_all
qed

section \<open>The address-space interface\<close>

text \<open>
  What the process code relies on when it fills an address space: a view of the mapped pages, and
  an operation that adds one page or reports failure without changing the view.
\<close>

locale page_mapper =
  fixes map_page :: "u64 \<Rightarrow> u64 \<Rightarrow> u64 \<Rightarrow> 's \<Rightarrow> bool \<times> 's"
    and view :: "'s \<Rightarrow> u64 \<Rightarrow> u64 option" and good :: "'s \<Rightarrow> bool"
    and valid :: "u64 \<Rightarrow> u64 \<Rightarrow> u64 \<Rightarrow> bool" and user :: "u64 \<Rightarrow> bool"
  assumes map_good: "good s \<Longrightarrow> valid va pa fl \<Longrightarrow> good (snd (map_page va pa fl s))"
    and map_view: "good s \<Longrightarrow> valid va pa fl \<Longrightarrow> user va' \<Longrightarrow>
      view (snd (map_page va pa fl s)) va' =
        (if fst (map_page va pa fl s) \<and> align_down va' 4096 = va
         then Some (pa OR fl OR 1) else view s va')"
    and map_fresh: "good s \<Longrightarrow> valid va pa fl \<Longrightarrow> fst (map_page va pa fl s) \<Longrightarrow> view s va = None"
    and valid_page: "valid va pa fl \<Longrightarrow> user va \<and> align_down va 4096 = va"
begin

lemma mapped: "good s \<Longrightarrow> valid va pa fl \<Longrightarrow> fst (map_page va pa fl s) \<Longrightarrow>
    view (snd (map_page va pa fl s)) va = Some (pa OR fl OR 1)"
  using map_view valid_page by fastforce

lemma map_keeps:
  "good s \<Longrightarrow> valid va pa fl \<Longrightarrow> user va' \<Longrightarrow> view s va' = Some e \<Longrightarrow> align_down va' 4096 \<noteq> va \<Longrightarrow>
   view (snd (map_page va pa fl s)) va' = Some e"
  using map_view by simp

lemma map_twice_fails:
  assumes "good s" "valid va pa fl" "valid va pa' fl'" "fst (map_page va pa fl s)"
  shows "\<not> fst (map_page va pa' fl' (snd (map_page va pa fl s)))"
  using mapped [OF assms(1,2,4)] map_fresh [OF map_good [OF assms(1,2)] assms(3)] by auto

end

definition mappable :: "u64 \<Rightarrow> u64 \<Rightarrow> u64 \<Rightarrow> bool" where
  "mappable va pa flags \<longleftrightarrow> user_va va \<and> aligned_page va \<and> flags AND ENTRY_ADDRESS = 0 \<and>
     pa AND ENTRY_ADDRESS = pa \<and> aligned_page pa"

lemma map_page_outcome:
  "vspace_inv s root fs \<Longrightarrow> mappable va pa flags \<Longrightarrow>
   map_outcome root va (pa OR flags OR 1) fs s (xbks_vmm_map_page root va pa flags s)"
  by (rule map_page_refines) (simp_all add: mappable_def)

interpretation vmm: page_mapper "xbks_vmm_map_page root" "\<lambda>s. pte s root"
    "\<lambda>s. \<exists>fs. vspace_inv s root fs" mappable user_va for root
proof (unfold_locales, goal_cases)
  case (1 s va pa fl)
  then obtain fs where "vspace_inv s root fs" by blast
  from map_page_outcome [OF this 1(2)] show ?case by (auto simp: map_outcome_def)
next
  case (2 s va pa fl va')
  then obtain fs where "vspace_inv s root fs" by blast
  from map_page_outcome [OF this 2(2)] 2(3) show ?case by (simp add: map_outcome_def)
next
  case (3 s va pa fl)
  then obtain fs where "vspace_inv s root fs" by blast
  from map_page_outcome [OF this 3(2)] 3(3) show ?case by (simp add: map_outcome_def)
qed (simp add: mappable_def page_base_id)

lemma five_frames_vspace:
  obtains s where "xbks_create_kernel_mapped_pml4 five_frames = (0x1000, s)"
    "vspace_inv s 0x1000 [0x2000, 0x3000, 0x4000, 0x5000]"
    "\<And>va. user_va va \<Longrightarrow> pte s 0x1000 va = None"
proof -
  obtain r s where c: "xbks_create_kernel_mapped_pml4 five_frames = (r, s)" by fastforce
  have "kernel_cr3_value five_frames \<notin> set [0x1000, 0x2000, 0x3000, 0x4000, 0x5000]"
    "aligned_page (kernel_cr3_value five_frames)"
    "\<forall>f \<in> set [0x2000, 0x3000, 0x4000, 0x5000]. f AND ENTRY_ADDRESS = f"
    by (simp_all add: five_frames_static aligned_page_def)
  note spec = create_pml4_spec [OF five_frames_pool this c]
  show ?thesis using spec(1) by (intro that [of s]) (use c spec(2,3) in auto)
qed

section \<open>Properties\<close>

text \<open>
  Property C12. \<^verbatim>\<open>xbks_vmm_map_page\<close> refines the insertion of one page into the map of an address
  space. In a well-formed space (a tree of unshared tables, none of them free) it keeps the space
  well-formed and takes at most three frames; it succeeds only on an unmapped page and fails only on
  a mapped one or for want of frames; on success exactly that page is mapped, to the given frame
  and flags, and on failure the mapping of every user address is what it was.
\<close>

theorem map_page_refines_insert:
  assumes "vspace_inv s root fs" and "user_va va" "aligned_page va"
    and "flags AND ENTRY_ADDRESS = 0" and "pa AND ENTRY_ADDRESS = pa" "aligned_page pa"
    and "xbks_vmm_map_page root va pa flags s = (ok, s')"
  shows "(\<exists>k \<le> 3. vspace_inv s' root (drop k fs)) \<and>
    (ok \<longrightarrow> pte s root va = None) \<and> (\<not> ok \<longrightarrow> pte s root va \<noteq> None \<or> length fs < 3) \<and>
    (\<forall>va'. user_va va' \<longrightarrow> pte s' root va' =
       (if ok \<and> align_down va' 4096 = va then Some (pa OR flags OR XBKS_PAGE_PRESENT)
        else pte s root va'))"
  using map_page_refines [OF assms(1-6)] assms(7) by (simp add: map_outcome_def)

theorem map_page_refines_insert_witness:
  "\<exists>s ok s' fs. vspace_inv s 0x1000 fs \<and> length fs = 4 \<and>
     xbks_vmm_map_page 0x1000 0x400000 0x8000 6 s = (ok, s') \<and> ok \<and>
     pte s' 0x1000 0x400000 = Some 0x8007"
proof -
  obtain s where s: "vspace_inv s 0x1000 [0x2000, 0x3000, 0x4000, 0x5000]"
    "\<And>va. user_va va \<Longrightarrow> pte s 0x1000 va = None"
    by (rule five_frames_vspace) blast
  obtain ok s' where m: "xbks_vmm_map_page 0x1000 0x400000 0x8000 6 s = (ok, s')" by fastforce
  have u: "user_va 0x400000" "aligned_page 0x400000" "aligned_page 0x8000"
    by (simp_all add: user_va_def aligned_page_def)
  have "ok \<and> pte s' 0x1000 0x400000 = Some 0x8007"
    using map_page_refines_insert [OF s(1) u(1,2) _ _ u(3) m] s(2) [OF u(1)] u
    by (simp add: page_base_id split: if_splits)
  then show ?thesis using s(1) m by (intro exI conjI) auto
qed

text \<open>
  After a successful \<^verbatim>\<open>xbks_vmm_map_page\<close>, \<^verbatim>\<open>xbks_vmm_translate\<close> sends every address
  of the mapped page to the same offset in the given frame, and translates every address of another
  user page as before.
\<close>

lemma map_page_then_translate:
  assumes "vspace_inv s root fs" and "mappable va pa flags"
    and "xbks_vmm_map_page root va pa flags s = (True, s')" and "user_va va'"
  shows "xbks_vmm_translate s' root va' =
    (if align_down va' 4096 = va then Some (pa OR (va' AND 0xfff))
     else xbks_vmm_translate s root va')"
proof -
  have "pte s' root va' = (if align_down va' 4096 = va then Some (pa OR flags OR 1) else pte s root va')"
    using vmm.map_view [OF exI [of _ fs], OF assms(1,2,4)] assms(3) by simp
  moreover have "(pa OR flags OR 1) AND ENTRY_ADDRESS = pa"
    using assms(2) by (intro address_of_new_entry) (auto simp: mappable_def)
  ultimately show ?thesis using assms(4) by (simp add: translate_pte)
qed

text \<open>
  Property C23. \<^verbatim>\<open>xbks_create_kernel_mapped_pml4\<close> takes the first free frame as a page-map root whose
  user half is empty and whose kernel half is the kernel's, entry by entry; the result is a
  well-formed address space.
\<close>

theorem create_kernel_mapped_pml4_correct:
  assumes "pmm_inv s (f # fs)" and "kernel_cr3_value s \<notin> set (f # fs)"
    and "aligned_page (kernel_cr3_value s)" and "\<forall>g \<in> set fs. g AND ENTRY_ADDRESS = g"
    and "xbks_create_kernel_mapped_pml4 s = (root, s')"
  shows "root = f \<and> vspace_inv s' root fs \<and> (\<forall>va. user_va va \<longrightarrow> xbks_vmm_translate s' root va = None) \<and>
    (\<forall>i. 256 \<le> i \<and> i < 512 \<longrightarrow> entry s' root i = entry s (kernel_cr3_value s) i)"
  using create_pml4_spec [OF assms] by (simp add: translate_pte)

theorem create_kernel_mapped_pml4_correct_witness:
  "\<exists>s'. xbks_create_kernel_mapped_pml4 five_frames = (0x1000, s') \<and>
     vspace_inv s' 0x1000 [0x2000, 0x3000, 0x4000, 0x5000]"
proof -
  obtain r s' where c: "xbks_create_kernel_mapped_pml4 five_frames = (r, s')" by fastforce
  have "r = 0x1000 \<and> vspace_inv s' r [0x2000, 0x3000, 0x4000, 0x5000]"
    using create_kernel_mapped_pml4_correct [OF five_frames_pool _ _ _ c]
    by (auto simp: five_frames_static aligned_page_def)
  then show ?thesis using c by auto
qed

end
