(* ===== verification/Ramdisk_Paths.thy ===== *)
theory Ramdisk_Paths
  imports Ramdisk "HOL-Library.Sublist"
begin

text \<open>
  What the path helpers of \<^verbatim>\<open>fs/ramdisk.c\<close> compute, stated on texts: each buffer routine is shown
  to stay inside its arrays and to leave a NUL-terminated text that is a plain function of the texts
  it was given. The theory of the archive loops works on these texts only.
\<close>

section \<open>Texts\<close>

definition is_slash :: "u8 \<Rightarrow> bool" where
  "is_slash c \<longleftrightarrow> c = SLASH"

definition rstrip :: "u8 list \<Rightarrow> u8 list" where
  "rstrip s = rev (dropWhile is_slash (rev s))"

function drop_dots :: "u8 list \<Rightarrow> u8 list" where
  "drop_dots s =
     (case s of
        [] \<Rightarrow> []
      | c # rest \<Rightarrow>
          if c = DOT \<and> (rest = [] \<or> is_slash (hd rest))
          then drop_dots (dropWhile is_slash rest) else s)"
  by pat_completeness auto
termination
  by (relation "measure length") (auto intro!: le_imp_less_Suc length_dropWhile_le)

declare drop_dots.simps [simp del]

text \<open>
  The canonical text of a path in a buffer of the given capacity: no leading slashes, no leading
  \<^verbatim>\<open>./\<close>, truncated to the buffer, no trailing slashes.
\<close>

definition norm_path :: "nat \<Rightarrow> u8 list \<Rightarrow> u8 list" where
  "norm_path cap s = rstrip (take (cap - 1) (drop_dots (dropWhile is_slash s)))"

text \<open>The text of a fixed-size field, and the path of an archive header before normalisation.\<close>

definition field_text :: "nat \<Rightarrow> u8 list \<Rightarrow> u8 list" where
  "field_text n b = takeWhile (\<lambda>c. c \<noteq> 0) (take n b)"

definition raw_path :: "tar_header \<Rightarrow> u8 list" where
  "raw_path h = (let p = field_text TAR_PREFIX_SIZE (hdr_prefix h);
                     n = field_text TAR_NAME_SIZE (hdr_name h)
     in take (RAMDISK_PATH_SIZE - 1) (if p = [] then n else p @ SLASH # n))"

definition entry_path :: "tar_header \<Rightarrow> u8 list" where
  "entry_path h = (if field_text TAR_NAME_SIZE (hdr_name h) = [] then []
                   else norm_path RAMDISK_PATH_SIZE (raw_path h))"

definition public_path :: "u8 list \<Rightarrow> u8 list" where
  "public_path s = take (RAMDISK_PATH_SIZE - 1) (SLASH # s)"

definition wf_header :: "tar_header \<Rightarrow> bool" where
  "wf_header h \<longleftrightarrow> length (hdr_name h) = 100 \<and> length (hdr_mode h) = 8 \<and>
     length (hdr_size h) = 12 \<and> length (hdr_prefix h) = 155"

definition is_octal :: "u8 \<Rightarrow> bool" where
  "is_octal c \<longleftrightarrow> 48 \<le> unat c \<and> unat c \<le> 55"

definition octal_value :: "u8 list \<Rightarrow> nat" where
  "octal_value s = foldl (\<lambda>v c. 8 * v + (unat c - 48)) 0
     (takeWhile is_octal (dropWhile (\<lambda>c. c = 32 \<or> c = 0) s))"

text \<open>A buffer holds a text: it is NUL-terminated, and what stands before the NUL is the text.\<close>

definition holds_text :: "u8 list \<Rightarrow> nat \<Rightarrow> u8 list \<Rightarrow> bool" where
  "holds_text buf n s \<longleftrightarrow> length buf = n \<and> terminated buf \<and> cstr buf = s"

section \<open>Buffers\<close>

lemma holds_textI: "length buf = n \<Longrightarrow> buf = s @ 0 # r \<Longrightarrow> 0 \<notin> set s \<Longrightarrow> holds_text buf n s"
  by (simp add: holds_text_def)

lemma holds_textD:
  assumes "holds_text buf n s"
  shows "length buf = n" "terminated buf" "cstr buf = s" "0 \<notin> set s" "length s < n"
    "strlen buf = Some (length s)"
  using assms length_cstr_less [of buf] nul_notin_cstr [of buf]
  by (auto simp: holds_text_def strlen_cstr)

lemma holds_textE:
  assumes "holds_text buf n s"
  obtains r where "buf = s @ 0 # r" "0 \<notin> set s" "length buf = n"
  using assms by (auto simp: holds_text_def elim: terminatedE)

lemma holds_text_cstr: "terminated buf \<Longrightarrow> holds_text buf (length buf) (cstr buf)"
  by (simp add: holds_text_def)

lemma strcmp_text:
  "holds_text a n s \<Longrightarrow> holds_text b m t \<Longrightarrow> \<exists>r. strcmp a b = Some r \<and> (r = 0 \<longleftrightarrow> s = t)"
  using strcmp_cstr [of a b] by (auto simp: holds_text_def)

lemma strncmp_text:
  "holds_text a n s \<Longrightarrow> holds_text b m t \<Longrightarrow>
   \<exists>r. strncmp a b (length t) = Some r \<and> (r = 0 \<longleftrightarrow> take (length t) s = t)"
  using strncmp_cstr [of a b "length t"] by (auto simp: holds_text_def)

lemma getb_text:
  "holds_text buf n s \<Longrightarrow> i \<le> length s \<Longrightarrow> getb buf i = Some (if i < length s then s ! i else 0)"
  by (erule holds_textE) (auto simp: getb_def nth_append)

lemma nul_iff_text: "holds_text buf n s \<Longrightarrow> i \<le> length s \<Longrightarrow>
   (if i < length s then s ! i else 0) = 0 \<longleftrightarrow> i = length s"
  using nth_mem [of i s] holds_textD(4) [of buf n s] by (auto simp del: nth_mem)

lemma copy_bytes_loop_apply:
  "i + n \<le> length src \<Longrightarrow> off + i + n \<le> length buf \<Longrightarrow>
   copy_bytes_loop buf off src i n =
     Some (take (off + i) buf @ take n (drop i src) @ drop (off + i + n) buf)"
proof (induction n arbitrary: buf i)
  case 0
  then show ?case by simp
next
  case (Suc n)
  have "take (off + Suc i) (buf[off + i := src ! i]) = take (off + i) buf @ [src ! i]"
    using Suc.prems by (simp add: take_Suc_conv_app_nth)
  moreover have "drop (off + Suc i + n) (buf[off + i := src ! i]) = drop (off + i + Suc n) buf"
    using Suc.prems by (simp add: drop_update_cancel)
  moreover have "take (Suc n) (drop i src) = src ! i # take n (drop (Suc i) src)"
    using Suc.prems by (simp add: take_Suc_conv_app_nth Cons_nth_drop_Suc [symmetric])
  ultimately show ?case using Suc by simp
qed

lemma copy_bytes_apply:
  assumes "0 < cap" "off + cap \<le> length buf" "min len (cap - 1) \<le> length src"
  shows "copy_bytes buf off cap src len =
    Some (take off buf @ take (min len (cap - 1)) src @ 0 # drop (off + min len (cap - 1) + 1) buf)"
proof -
  define k where "k = min len (cap - 1)"
  have k: "(if len \<ge> cap then cap - 1 else len) = k" "off + k < length buf" "k \<le> length src"
    using assms by (auto simp: k_def)
  have "(take off buf @ take k src @ drop (off + k) buf)[off + k := 0] =
      take off buf @ take k src @ 0 # drop (off + k + 1) buf"
    using k Cons_nth_drop_Suc [of "off + k" buf, symmetric] by (simp add: list_update_append)
  then show ?thesis
    unfolding k_def [symmetric] using assms(1,2) k
    by (simp add: copy_bytes_def Let_def copy_bytes_loop_apply)
qed

lemma copy_bytes_text:
  assumes "holds_text src m t" "0 < cap" "off + cap = n" "length buf = n"
    and "off \<le> length s" "take off buf = take off s" "0 \<notin> set (take off s)"
  shows "\<exists>buf'. copy_bytes buf off cap src (length t) = Some buf' \<and>
    holds_text buf' n (take off s @ take (cap - 1) t)"
proof -
  obtain r where r: "src = t @ 0 # r" "0 \<notin> set t" using assms(1) by (elim holds_textE)
  have "copy_bytes buf off cap src (length t) = Some (take off buf @
      take (min (length t) (cap - 1)) src @ 0 # drop (off + min (length t) (cap - 1) + 1) buf)"
    using assms r by (intro copy_bytes_apply) auto
  moreover have "take (min (length t) (cap - 1)) src = take (cap - 1) t"
    using r by (simp add: min_def)
  moreover have "0 \<notin> set (take off s @ take (cap - 1) t)"
    using r assms(7) by (auto dest: in_set_takeD)
  ultimately have eq: "copy_bytes buf off cap src (length t) = Some ((take off s @ take (cap - 1) t) @
      0 # drop (off + min (length t) (cap - 1) + 1) buf)" and nul: "0 \<notin> set (take off s @ take (cap - 1) t)"
    using assms(6) by simp_all
  have "holds_text ((take off s @ take (cap - 1) t) @ 0 # drop (off + min (length t) (cap - 1) + 1) buf)
      n (take off s @ take (cap - 1) t)"
    using assms(2-5) by (intro holds_textI [OF _ refl nul]) simp
  with eq show ?thesis by blast
qed

section \<open>Fixed-size fields\<close>

lemma bounded_strlen_text:
  "n \<le> length b \<Longrightarrow> bounded_strlen b n = Some (length (field_text n b))"
  by (induction b n rule: bounded_strlen.induct) (auto simp: field_text_def)

lemma field_text_take: "n \<le> length b \<Longrightarrow> take (length (field_text n b)) b = field_text n b"
  by (induction b n rule: bounded_strlen.induct) (auto simp: field_text_def)

lemma field_text_props: "0 \<notin> set (field_text n b)" "length (field_text n b) \<le> n"
proof -
  show "0 \<notin> set (field_text n b)" by (auto simp: field_text_def dest: set_takeWhileD)
  have "length (field_text n b) \<le> length (take n b)"
    unfolding field_text_def by (rule length_takeWhile_le)
  then show "length (field_text n b) \<le> n" by simp
qed

lemma octal_digit_iff: "sint (c :: u8) < 48 \<or> sint c > 55 \<longleftrightarrow> \<not> is_octal c"
proof -
  have u: "0 \<le> uint c" "uint c < 256" using uint_lt2p [of c] by simp_all
  then have "odd (uint c div 128) \<longleftrightarrow> 128 \<le> uint c" by presburger
  then have "sint c = (if uint c < 128 then uint c else uint c - 256)"
    using u by (simp add: sint_uint signed_take_bit_eq_take_bit_minus bit_iff_odd take_bit_eq_mod)
  moreover have "int (unat c) = uint c" by simp
  ultimately show ?thesis using u unfolding is_octal_def by presburger
qed

lemma octal_skip_apply:
  "n \<le> length b \<Longrightarrow> \<exists>rest m. octal_skip b n = Some (rest, m) \<and> m \<le> length rest \<and>
     take m rest = dropWhile (\<lambda>c. c = 32 \<or> c = 0) (take n b)"
  by (induction b n rule: octal_skip.induct) auto

lemma octal_digits_apply:
  "n \<le> length b \<Longrightarrow> v < 8 ^ k \<Longrightarrow> k + n \<le> 21 \<Longrightarrow>
   octal_digits (of_nat v) b n = Some (of_nat (foldl (\<lambda>v c. 8 * v + (unat c - 48)) v
     (takeWhile is_octal (take n b)))) \<and>
   foldl (\<lambda>v c. 8 * v + (unat c - 48)) v (takeWhile is_octal (take n b)) < 8 ^ (k + n)"
proof (induction "of_nat v :: u64" b n arbitrary: v k rule: octal_digits.induct)
  case (1 t)
  then show ?case by simp
next
  case (2 n)
  then show ?case by simp
next
  case (3 c t n)
  show ?case
  proof (cases "is_octal c")
    case True
    have u: "unat (c - 48) = unat c - 48" "unat c - 48 < 8"
      using True by (auto simp: is_octal_def unat_sub_if')
    have "ucast (c - 48) = (of_nat (unat (c - 48)) :: u64)" by simp
    then have eq: "push_bit 3 (of_nat v) + ucast (c - 48) = (of_nat (8 * v + (unat c - 48)) :: u64)"
      by (simp add: push_bit_eq_mult u(1))
    have "8 * v + (unat c - 48) < 8 ^ Suc k" using "3.prems"(2) u(2) by simp
    then show ?thesis
      using "3.hyps" [of "8 * v + (unat c - 48)" "Suc k"] "3.prems" True eq
      by (simp add: octal_digit_iff)
  next
    case False
    have "v < 8 ^ (k + Suc n)"
      using "3.prems"(2) by (rule less_le_trans) (rule power_increasing, simp_all)
    then show ?thesis using False by (simp add: octal_digit_iff)
  qed
qed

lemma parse_octal_apply:
  assumes "limit \<le> length b" "limit \<le> 21"
  shows "\<exists>v. parse_octal b limit = Some v \<and> unat v = octal_value (take limit b) \<and>
    octal_value (take limit b) < 8 ^ limit"
proof -
  obtain rest m where s: "octal_skip b limit = Some (rest, m)" "m \<le> length rest"
      "take m rest = dropWhile (\<lambda>c. c = 32 \<or> c = 0) (take limit b)"
    using octal_skip_apply [OF assms(1)] by blast
  have m: "m \<le> limit"
  proof -
    have "length (take m rest) \<le> length (take limit b)" unfolding s(3) by (rule length_dropWhile_le)
    then show ?thesis using s(2) by simp
  qed
  have d: "octal_digits 0 rest m = Some (of_nat (octal_value (take limit b)))"
      "octal_value (take limit b) < 8 ^ m"
    using octal_digits_apply [of m rest 0 0] s(2) m assms(2)
    by (simp_all add: octal_value_def s(3) [symmetric])
  have le: "(8::nat) ^ m \<le> 8 ^ limit" using m by (simp add: power_increasing)
  have "(8::nat) ^ m \<le> 8 ^ 21" using m assms(2) by (intro power_increasing) simp_all
  then have "octal_value (take limit b) < 2 ^ 64" using d(2) by simp
  moreover have "octal_value (take limit b) < 8 ^ limit" using d(2) le by (rule less_le_trans)
  ultimately show ?thesis using s(1) d(1) by (simp add: parse_octal_def unat_of_nat)
qed

section \<open>Paths\<close>

lemma skip_slashes_text:
  "0 \<notin> set s \<Longrightarrow> skip_slashes (s @ 0 # r) = Some (dropWhile is_slash s @ 0 # r)"
  by (induction s) (auto simp: is_slash_def)

lemma skip_dots_text: "0 \<notin> set s \<Longrightarrow> skip_dots (s @ 0 # r) = Some (drop_dots s @ 0 # r)"
proof (induction s rule: drop_dots.induct)
  case (1 s)
  show ?case
  proof (cases s)
    case Nil
    then show ?thesis by (simp add: skip_dots.simps [of "0 # r"] drop_dots.simps)
  next
    case (Cons c rest)
    show ?thesis
    proof (cases "c = DOT \<and> (rest = [] \<or> is_slash (hd rest))")
      case True
      have nul: "0 \<notin> set rest" "0 \<notin> set (dropWhile is_slash rest)"
        using "1.prems" Cons by (auto dest: set_dropWhileD)
      have "skip_dots (dropWhile is_slash rest @ 0 # r) = Some (drop_dots (dropWhile is_slash rest) @ 0 # r)"
        using "1.IH" [OF Cons True nul(2)] .
      then show ?thesis
        using True Cons skip_slashes_text [OF nul(1), of r]
        by (cases rest)
          (simp_all add: skip_dots.simps [of "DOT # _"] drop_dots.simps [of "DOT # _"] is_slash_def)
    next
      case False
      then show ?thesis
        using "1.prems" Cons
        by (cases rest) (auto simp: skip_dots.simps [of "_ # _"] drop_dots.simps [of "_ # _"] is_slash_def)
    qed
  qed
qed

lemma normalize_copy_text:
  "0 \<notin> set s \<Longrightarrow> length out = cap \<Longrightarrow> n < cap \<Longrightarrow>
   normalize_copy (s @ 0 # r) out n cap =
     Some (take n out @ take (cap - 1 - n) s @ drop (n + min (length s) (cap - 1 - n)) out,
           n + min (length s) (cap - 1 - n))"
proof (induction s arbitrary: out n)
  case Nil
  then show ?case by simp
next
  case (Cons c s)
  show ?case
  proof (cases "n + 1 < cap")
    case True
    define k where "k = cap - 1 - (n + 1)"
    have k: "cap - 1 - n = Suc k" using True by (simp add: k_def)
    have "normalize_copy (s @ 0 # r) (out[n := c]) (n + 1) cap =
      Some (take (n + 1) (out[n := c]) @ take k s @ drop (n + 1 + min (length s) k) (out[n := c]),
        n + 1 + min (length s) k)"
      unfolding k_def using Cons True by (intro Cons.IH) auto
    moreover have "take (n + 1) (out[n := c]) = take n out @ [c]"
      using Cons.prems by (simp add: take_Suc_conv_app_nth)
    ultimately show ?thesis
      using Cons.prems True unfolding k by (simp add: drop_update_cancel)
  next
    case False
    then show ?thesis using Cons.prems by simp
  qed
qed

lemma strip_slashes_text:
  "n \<le> length out \<Longrightarrow> strip_slashes out n = Some (length (rstrip (take n out)))"
proof (induction n)
  case (Suc n)
  have "take (Suc n) out = take n out @ [out ! n]"
    using Suc.prems by (simp add: take_Suc_conv_app_nth)
  then show ?case using Suc by (simp add: rstrip_def is_slash_def)
qed (simp add: rstrip_def)

lemma rstrip_prefix: "prefix (rstrip s) s"
  unfolding rstrip_def using suffix_dropWhile [of is_slash "rev s"] by (simp add: suffix_to_prefix)

lemma rstrip_take: "take (length (rstrip s)) s = rstrip s"
proof -
  obtain z where "s = rstrip s @ z" using rstrip_prefix [of s] by (rule prefixE)
  then have "take (length (rstrip s)) s = take (length (rstrip s)) (rstrip s @ z)" by simp
  then show ?thesis by simp
qed

lemma drop_dots_subset: "set (drop_dots s) \<subseteq> set s"
proof (induction s rule: drop_dots.induct)
  case (1 s)
  show ?case
  proof (cases s)
    case Nil
    then show ?thesis by (simp add: drop_dots.simps)
  next
    case (Cons c rest)
    have "set (dropWhile is_slash rest) \<subseteq> set rest" by (auto dest: set_dropWhileD)
    then show ?thesis using Cons "1.IH" [OF Cons] by (subst drop_dots.simps) auto
  qed
qed

lemma normalize_path_text:
  assumes path: "terminated path" and out: "length out = cap" "0 < cap"
  shows "\<exists>out'. normalize_path path out cap = Some out' \<and>
    holds_text out' cap (norm_path cap (cstr path))"
proof -
  obtain s r where s: "path = s @ 0 # r" "0 \<notin> set s" "cstr path = s"
    using path by (rule terminatedE)
  define t where "t = drop_dots (dropWhile is_slash s)"
  have nul: "0 \<notin> set (dropWhile is_slash s)" using s(2) by (auto dest: set_dropWhileD)
  have tn: "0 \<notin> set t" using nul drop_dots_subset [of "dropWhile is_slash s"] by (auto simp: t_def)
  define n where "n = min (length t) (cap - 1)"
  define out1 where "out1 = take (cap - 1) t @ drop n out"
  define u where "u = rstrip (take (cap - 1) t)"
  have copy: "normalize_copy (t @ 0 # r) out 0 cap = Some (out1, n)"
    using normalize_copy_text [OF tn out(1), of 0 r] out(2) by (simp add: out1_def n_def)
  have n: "n < cap" "take n t = take (cap - 1) t" using out(2) by (auto simp: n_def min_def)
  then have len: "length out1 = cap" "n < cap" "take n out1 = take (cap - 1) t"
    using out by (auto simp: out1_def n_def)
  have ulen: "length u \<le> n" "take (length u) out1 = u"
  proof -
    show le: "length u \<le> n"
      using prefix_length_le [OF rstrip_prefix [of "take (cap - 1) t"]] by (simp add: u_def n_def)
    have "take (length u) (take n out1) = u" unfolding len(3) u_def by (rule rstrip_take)
    then show "take (length u) out1 = u" using le by (simp add: min_def)
  qed
  have strip: "strip_slashes out1 n = Some (length u)"
    using strip_slashes_text [of n out1] len by (simp add: u_def)
  have run: "normalize_path path out cap = Some (out1[length u := 0])"
    using out(2) s skip_slashes_text [OF s(2), of r] skip_dots_text [OF nul, of r] copy strip len ulen
    by (simp add: normalize_path_def t_def [symmetric])
  have "out1[length u := 0] = u @ 0 # drop (Suc (length u)) out1"
    using ulen len by (simp add: upd_conv_take_nth_drop)
  moreover have "0 \<notin> set u"
    using tn set_mono_prefix [OF rstrip_prefix [of "take (cap - 1) t"]]
    by (auto simp: u_def dest: in_set_takeD)
  moreover have "length (out1[length u := 0]) = cap" using len by simp
  ultimately have "holds_text (out1[length u := 0]) cap u" by (intro holds_textI)
  then show ?thesis using run by (simp add: u_def t_def norm_path_def s(3))
qed

lemma make_public_path_text:
  assumes "holds_text p n s" "length out = RAMDISK_PATH_SIZE"
  shows "\<exists>out'. make_public_path p out RAMDISK_PATH_SIZE = Some out' \<and>
    holds_text out' RAMDISK_PATH_SIZE (public_path s)"
proof (cases "s = []")
  case True
  have "holds_text (lit ''/'') 2 [SLASH]" by (simp add: holds_text_def lit_def terminated_def cstr_def)
  from copy_bytes_text [OF this, of 256 0 256 out "[]"]
  show ?thesis
    using assms True getb_text [OF assms(1), of 0] by (simp add: make_public_path_def public_path_def)
next
  case False
  have c: "s ! 0 \<noteq> 0" using nul_iff_text [OF assms(1), of 0] False by auto
  have "take 1 (out[0 := SLASH]) = [SLASH]" using assms(2) by (cases out) auto
  then have "\<exists>out'. copy_bytes (out[0 := SLASH]) 1 255 p (length s) = Some out' \<and>
      holds_text out' 256 (take 1 [SLASH] @ take (255 - 1) s)"
    using copy_bytes_text [OF assms(1), of 255 1 256 "out[0 := SLASH]" "[SLASH]"] assms(2) by simp
  then show ?thesis
    using False c assms(2) getb_text [OF assms(1), of 0] holds_textD(6) [OF assms(1)]
    by (simp add: make_public_path_def public_path_def)
qed

lemma header_is_directory_text:
  assumes "holds_text p n s" "s = [] \<or> last s \<noteq> SLASH"
  shows "header_is_directory h p = Some (hdr_typeflag h = 53)"
  using assms(2) holds_textD(6) [OF assms(1)] getb_text [OF assms(1), of "length s - 1"]
  by (cases "s = []") (auto simp: header_is_directory_def last_conv_nth)

lemma last_norm_path: "norm_path cap s = [] \<or> last (norm_path cap s) \<noteq> SLASH"
proof -
  have "rstrip u = [] \<or> last (rstrip u) \<noteq> SLASH" for u
    unfolding rstrip_def using hd_dropWhile [of is_slash "rev u"] by (auto simp: last_rev is_slash_def)
  then show ?thesis unfolding norm_path_def .
qed

lemma last_entry_path: "entry_path h = [] \<or> last (entry_path h) \<noteq> SLASH"
  using last_norm_path by (auto simp: entry_path_def)

lemma combine_prefix:
  assumes h: "wf_header h" and p: "field_text 155 (hdr_prefix h) \<noteq> []"
  shows "\<exists>c. copy_bytes path_buffer 0 256 (hdr_prefix h) (length (field_text 155 (hdr_prefix h))) = Some c \<and>
    holds_text c 256 (field_text 155 (hdr_prefix h))"
proof -
  let ?p = "field_text 155 (hdr_prefix h)"
  have l: "length ?p \<le> 155" and len: "length (hdr_prefix h) = 155"
    using h field_text_props(2) by (auto simp: wf_header_def)
  then have "copy_bytes path_buffer 0 256 (hdr_prefix h) (length ?p) =
      Some (take 0 path_buffer @ take (min (length ?p) (256 - 1)) (hdr_prefix h) @
        0 # drop (0 + min (length ?p) (256 - 1) + 1) path_buffer)"
    by (intro copy_bytes_apply) simp_all
  moreover have "take (min (length ?p) (256 - 1)) (hdr_prefix h) = ?p"
    using field_text_take [of 155 "hdr_prefix h"] l len by (simp add: min_def)
  ultimately show ?thesis
    using l by (auto intro!: holds_textI [OF _ refl] simp: field_text_props(1))
qed

lemma combine_slash:
  assumes "holds_text c 256 s" "length s < 255"
  shows "\<exists>c2. setb c (length s) SLASH = Some c2 \<and>
    (\<exists>c3. setb c2 (length s + 1) 0 = Some c3 \<and> holds_text c3 256 (s @ [SLASH]))"
proof -
  obtain r where r: "c = s @ 0 # r" "0 \<notin> set s" "length c = 256" using assms(1) by (rule holds_textE)
  then obtain x r' where x: "r = x # r'" using assms(2) by (cases r) auto
  have "c[length s := SLASH, length s + 1 := 0] = (s @ [SLASH]) @ 0 # r'"
    unfolding r(1) x by (simp add: list_update_append)
  then have "holds_text (c[length s := SLASH, length s + 1 := 0]) 256 (s @ [SLASH])"
    using r x by (intro holds_textI) auto
  then show ?thesis using assms(2) r(3) by simp
qed

lemma combine_name:
  assumes h: "wf_header h" and c: "holds_text c 256 s" "length s < 256"
  shows "\<exists>c'. copy_bytes c (length s) (256 - length s) (hdr_name h) (length (field_text 100 (hdr_name h))) =
      Some c' \<and> holds_text c' 256 (take 255 (s @ field_text 100 (hdr_name h)))"
proof -
  let ?n = "field_text 100 (hdr_name h)" and ?k = "min (length (field_text 100 (hdr_name h))) (255 - length s)"
  obtain r where r: "c = s @ 0 # r" "0 \<notin> set s" "length c = 256" using c(1) by (rule holds_textE)
  have len: "length (hdr_name h) = 100" using h by (simp add: wf_header_def)
  have "copy_bytes c (length s) (256 - length s) (hdr_name h) (length ?n) =
      Some (take (length s) c @ take ?k (hdr_name h) @ 0 # drop (length s + ?k + 1) c)"
    using copy_bytes_apply [of "256 - length s" "length s" c "length ?n" "hdr_name h"] c(2) r(3) len
    by (simp add: min.coboundedI1 field_text_props(2))
  moreover have "take ?k (hdr_name h) = take (255 - length s) ?n"
  proof -
    have "take ?k (hdr_name h) = take (255 - length s) (take (length ?n) (hdr_name h))"
      by (simp add: min.commute)
    then show ?thesis using field_text_take [of 100 "hdr_name h"] len by simp
  qed
  moreover have "length (s @ take (255 - length s) ?n) = length s + ?k" by (simp add: min.commute)
  ultimately have run: "copy_bytes c (length s) (256 - length s) (hdr_name h) (length ?n) =
      Some ((s @ take (255 - length s) ?n) @ 0 # drop (length (s @ take (255 - length s) ?n) + 1) c)"
    using r(1) by simp
  have "take 255 (s @ ?n) = s @ take (255 - length s) ?n" using c(2) by simp
  moreover have "0 \<notin> set (s @ take (255 - length s) ?n)"
    using r(2) field_text_props(1) by (auto dest: in_set_takeD)
  ultimately show ?thesis
    unfolding run using r(3) c(2) by (auto intro!: holds_textI [OF _ append.assoc [symmetric]])
qed

lemma tar_path_text:
  assumes h: "wf_header h" and out: "length out = 256"
  shows "\<exists>out'. tar_path h out 256 = Some (entry_path h \<noteq> [], out') \<and>
    (entry_path h \<noteq> [] \<longrightarrow> holds_text out' 256 (entry_path h))"
proof (cases "field_text 100 (hdr_name h) = []")
  case True
  then show ?thesis using h
    by (auto simp: tar_path_def entry_path_def bounded_strlen_text wf_header_def)
next
  case False
  let ?p = "field_text 155 (hdr_prefix h)" and ?n = "field_text 100 (hdr_name h)"
  define s where "s = (if ?p = [] then [] else ?p @ [SLASH])"
  have sl: "length s < 256" using field_text_props(2) [of 155 "hdr_prefix h"] by (auto simp: s_def)
  have lens: "bounded_strlen (hdr_prefix h) 155 = Some (length ?p)"
      "bounded_strlen (hdr_name h) 100 = Some (length ?n)"
    using h by (simp_all add: bounded_strlen_text wf_header_def)
  have "\<exists>c. start_combined h (length ?p) = Some (c, length s) \<and> holds_text c 256 s"
  proof (cases "?p = []")
    case True
    have "path_buffer[0 := 0] = [] @ 0 # replicate 255 (0 :: u8)" by (simp add: numeral_eq_Suc)
    then have "holds_text (path_buffer[0 := 0]) 256 []" by (intro holds_textI) simp_all
    then show ?thesis using True by (simp add: s_def start_combined_def)
  next
    case False
    obtain c where c: "copy_bytes path_buffer 0 256 (hdr_prefix h) (length ?p) = Some c"
      "holds_text c 256 ?p" using combine_prefix [OF h False] by blast
    have "length ?p < 255" using field_text_props(2) [of 155 "hdr_prefix h"] by linarith
    with combine_slash [OF c(2)] show ?thesis
      using False c(1) holds_textD(6) [OF c(2)] by (auto simp: s_def start_combined_def)
  qed
  then obtain c where run: "start_combined h (length ?p) = Some (c, length s)" and c: "holds_text c 256 s"
    by blast
  obtain c' where c': "copy_bytes c (length s) (256 - length s) (hdr_name h) (length ?n) = Some c'"
    "holds_text c' 256 (take 255 (s @ ?n))" using combine_name [OF h c sl] by blast
  obtain out' where out': "normalize_path c' out 256 = Some out'"
    "holds_text out' 256 (norm_path 256 (cstr c'))"
    using normalize_path_text [OF holds_textD(2) [OF c'(2)] out] by auto
  have e: "norm_path 256 (cstr c') = entry_path h"
  proof -
    have "take 255 (s @ ?n) = raw_path h"
      unfolding s_def raw_path_def Let_def by (simp del: take_append)
    then show ?thesis using False holds_textD(3) [OF c'(2)] by (simp add: entry_path_def)
  qed
  have "getb out' 0 = Some (if 0 < length (entry_path h) then entry_path h ! 0 else 0)"
    using getb_text [OF out'(2), of 0] e by simp
  moreover have "entry_path h \<noteq> [] \<longrightarrow> entry_path h ! 0 \<noteq> 0"
    using nul_iff_text [OF out'(2) [unfolded e], of 0] by auto
  ultimately show ?thesis
    using False c'(1) out'(1) out'(2) [unfolded e]
    unfolding tar_path_def lens by (simp add: run)
qed

end
