(* ===== verification/Ramdisk_Tree.thy ===== *)
theory Ramdisk_Tree
  imports Ramdisk_Paths
begin

text \<open>
  The archive as the tree it stands for. \<open>tar_entries\<close> is the list of members of an archive, read
  off its bytes with natural numbers; a lookup is the first member with the wanted path, or a
  directory that some member lies below, and a directory listing has every child once, in the order
  the members first mention them. The C loops of \<^verbatim>\<open>fs/ramdisk.c\<close>, with their 64-bit offsets and path
  buffers, are shown to compute exactly these on every archive, well-formed or not.
\<close>

section \<open>Members of an archive\<close>

type_synonym entry = "nat \<times> tar_header \<times> nat \<times> nat" \<comment> \<open>offset, header, size, data offset\<close>

definition entry_at :: "u8 list \<Rightarrow> nat \<Rightarrow> (tar_header \<times> nat \<times> nat) option" where
  "entry_at data off =
     (let block = take 512 (drop off data); sz = octal_value (hdr_size (header_of block)) in
      if off + 512 \<le> length data \<and> \<not> block_is_zero block \<and> off + 512 + sz \<le> length data
      then Some (header_of block, sz, off + 512) else None)"

definition round_block :: "nat \<Rightarrow> nat" where
  "round_block n = (n + 511) div 512 * 512"

lemma entry_at_bounds:
  "entry_at data off = Some (h, sz, d) \<Longrightarrow> d = off + 512 \<and> d + sz \<le> length data"
  by (auto simp: entry_at_def Let_def split: if_splits)

function tar_entries :: "u8 list \<Rightarrow> nat \<Rightarrow> entry list" where
  "tar_entries data off =
     (case entry_at data off of
        None \<Rightarrow> []
      | Some (h, sz, d) \<Rightarrow> (off, h, sz, d) # tar_entries data (d + round_block sz))"
  by pat_completeness auto
termination
  by (relation "measure (\<lambda>(data, off). length data - off)") (auto dest: entry_at_bounds)

declare tar_entries.simps [simp del]

definition path_of :: "entry \<Rightarrow> u8 list" where
  "path_of e = (case e of (off, h, sz, d) \<Rightarrow> entry_path h)"

lemma path_of_simp [simp]: "path_of (off, h, sz, d) = entry_path h"
  by (simp add: path_of_def)

section \<open>Nodes, lookup and listing\<close>

record ram_node =
  node_path :: "u8 list"
  node_data :: "nat option"
  node_size :: nat
  node_dir :: bool
  node_exec :: bool

definition abs_file :: "xbks_ramdisk_file \<Rightarrow> ram_node" where
  "abs_file f = \<lparr>node_path = cstr (file_path f), node_data = map_option unat (file_data f),
     node_size = unat (file_size f), node_dir = directory f, node_exec = executable f\<rparr>"

definition is_exec :: "tar_header \<Rightarrow> bool" where
  "is_exec h \<longleftrightarrow> octal_value (hdr_mode h) AND 73 \<noteq> 0"

definition is_dir :: "tar_header \<Rightarrow> bool" where
  "is_dir h \<longleftrightarrow> hdr_typeflag h = 53"

definition entry_node :: "entry \<Rightarrow> ram_node" where
  "entry_node e = (case e of (off, h, sz, d) \<Rightarrow>
     \<lparr>node_path = public_path (entry_path h), node_data = Some d, node_size = sz,
      node_dir = is_dir h, node_exec = is_exec h\<rparr>)"

definition dir_node :: "u8 list \<Rightarrow> ram_node" where
  "dir_node q = \<lparr>node_path = public_path q, node_data = None, node_size = 0,
     node_dir = True, node_exec = False\<rparr>"

definition lies_below :: "u8 list \<Rightarrow> u8 list \<Rightarrow> bool" where
  "lies_below q p \<longleftrightarrow> prefix (q @ [SLASH]) p"

definition ram_lookup :: "entry list \<Rightarrow> u8 list \<Rightarrow> ram_node option" where
  "ram_lookup es q =
     (if q = [] then Some (dir_node q)
      else case List.find (\<lambda>e. path_of e = q) es of
        Some e \<Rightarrow> Some (entry_node e)
      | None \<Rightarrow> if list_ex (\<lambda>e. lies_below q (path_of e)) es then Some (dir_node q) else None)"

text \<open>The child of directory \<open>q\<close> that path \<open>p\<close> mentions, and whether \<open>p\<close> lies below that child.\<close>

definition child_of :: "u8 list \<Rightarrow> u8 list \<Rightarrow> (u8 list \<times> bool) option" where
  "child_of q p =
     (let rel = (if q = [] then p else if lies_below q p then drop (length q + 1) p else []);
          c = takeWhile (\<lambda>x. \<not> is_slash x) rel
      in if c = [] then None else Some (c, length c < length rel))"

definition join :: "u8 list \<Rightarrow> u8 list \<Rightarrow> u8 list" where
  "join q c = (if q = [] then c else q @ SLASH # c)"

definition child_node :: "u8 list \<Rightarrow> entry \<Rightarrow> u8 list \<Rightarrow> bool \<Rightarrow> ram_node" where
  "child_node q e c nested = (case e of (off, h, sz, d) \<Rightarrow>
     \<lparr>node_path = public_path (join q c), node_data = (if nested then None else Some d),
      node_size = (if nested then 0 else sz), node_dir = (nested \<or> is_dir h),
      node_exec = (\<not> (nested \<or> is_dir h) \<and> is_exec h)\<rparr>)"

fun dir_listing :: "u8 list \<Rightarrow> entry list \<Rightarrow> u8 list list \<Rightarrow> (u8 list \<times> ram_node) list" where
  "dir_listing q [] seen = []"
| "dir_listing q (e # es) seen =
     (case child_of q (path_of e) of
        None \<Rightarrow> dir_listing q es seen
      | Some (c, nested) \<Rightarrow>
          if c \<in> set seen then dir_listing q es seen
          else (c, child_node q e c nested) # dir_listing q es (c # seen))"

text \<open>
  The archive the boot loader hands over: its size is the length of the array, which does not reach
  across half of the address space.
\<close>

definition wf_ramdisk :: "ramdisk \<Rightarrow> bool" where
  "wf_ramdisk rd \<longleftrightarrow> unat (ramdisk_size rd) = length (ramdisk_data rd) \<and>
     length (ramdisk_data rd) < 2 ^ 63"

section \<open>Reading a member\<close>

lemma wf_header_of: "length b = 512 \<Longrightarrow> wf_header (header_of b)"
  by (simp add: wf_header_def header_of_def)

lemma octal_size_field:
  assumes "length b = 512"
  shows "\<exists>v. parse_octal (hdr_size (header_of b)) 12 = Some v \<and>
    unat v = octal_value (hdr_size (header_of b)) \<and> unat v < 2 ^ 36"
  using parse_octal_apply [of 12 "hdr_size (header_of b)"] assms by (auto simp: header_of_def)

lemma unat_align_to_tar_block:
  "unat v < 2 ^ 63 \<Longrightarrow> unat (align_to_tar_block v) = round_block (unat v)"
proof -
  assume v: "unat v < 2 ^ 63"
  have m: "(511 :: u64) = mask 9" by (simp add: mask_eq_exp_minus_1)
  have eq: "align_to_tar_block v = (v + 511) AND NOT (mask 9)"
    unfolding align_to_tar_block_def m [symmetric] by (simp add: algebra_simps)
  have "unat (v + 511) = unat v + 511" using v unat_add_lem [of v 511] by simp
  then show ?thesis unfolding eq by (simp add: unat_and_not_mask round_block_def)
qed

lemma next_offset:
  assumes "wf_ramdisk rd" "entry_at (ramdisk_data rd) off = Some (h, sz, d)"
  shows "of_nat d + align_to_tar_block (of_nat sz) = (of_nat (d + round_block sz) :: u64)"
proof -
  have "sz < 2 ^ 63" using entry_at_bounds [OF assms(2)] assms(1) by (simp add: wf_ramdisk_def)
  then have "unat (align_to_tar_block (of_nat sz)) = round_block sz"
    using unat_align_to_tar_block [of "of_nat sz"] by (simp add: unat_of_nat)
  from arg_cong [OF this, of "of_nat :: nat \<Rightarrow> u64"]
  have "align_to_tar_block (of_nat sz) = of_nat (round_block sz)" by simp
  then show ?thesis by simp
qed

lemma round_block_le: "round_block n \<le> n + 511"
  by (simp add: round_block_def)

lemma next_entry_apply:
  assumes rd: "wf_ramdisk rd" and off: "off \<le> length (ramdisk_data rd) + 511"
  shows "next_entry rd (of_nat off) =
    Some (map_option (\<lambda>(h, sz, d). (h, of_nat sz, of_nat d)) (entry_at (ramdisk_data rd) off))"
proof -
  let ?data = "ramdisk_data rd" and ?L = "length (ramdisk_data rd)"
  have L: "unat (ramdisk_size rd) = ?L" "?L < 2 ^ 63" using rd by (auto simp: wf_ramdisk_def)
  have o: "unat (of_nat off :: u64) = off" using off L by (simp add: unat_of_nat)
  have o512: "unat (of_nat off + 512 :: u64) = off + 512"
    using off L o unat_add_lem [of "of_nat off :: u64" 512] by simp
  have guard: "of_nat off + 512 \<le> ramdisk_size rd \<longleftrightarrow> off + 512 \<le> ?L"
    by (simp add: word_le_nat_alt o512 L)
  show ?thesis
  proof (cases "off + 512 \<le> ?L")
    case False
    then show ?thesis using guard by (simp add: next_entry_def entry_at_def Let_def)
  next
    case True
    define b where "b = take 512 (drop off ?data)"
    have b: "length b = 512" using True by (simp add: b_def)
    obtain v where v: "parse_octal (hdr_size (header_of b)) 12 = Some v"
        "unat v = octal_value (hdr_size (header_of b))" using octal_size_field [OF b] by blast
    have "unat (ramdisk_size rd - (of_nat off + 512)) = ?L - (off + 512)"
      using True L o512 by (simp add: unat_sub_if')
    then have room: "v > ramdisk_size rd - (of_nat off + 512) \<longleftrightarrow> \<not> off + 512 + unat v \<le> ?L"
      using True by (auto simp: word_less_nat_alt)
    have ov: "\<not> of_nat off + 512 > ramdisk_size rd" using guard True by simp
    have lhs: "next_entry rd (of_nat off) =
        (if block_is_zero b then Some None
         else if off + 512 + unat v \<le> ?L then Some (Some (header_of b, v, of_nat off + 512))
         else Some None)"
      using True guard o v(1) room ov unfolding next_entry_def Let_def b_def [symmetric]
      by (simp add: b_def [symmetric])
    have rhs: "entry_at ?data off =
        (if block_is_zero b \<or> \<not> off + 512 + unat v \<le> ?L then None
         else Some (header_of b, unat v, off + 512))"
      using True unfolding entry_at_def Let_def b_def [symmetric] v(2) by simp
    show ?thesis unfolding lhs rhs by simp
  qed
qed

lemma entry_wf: "entry_at data off = Some (h, sz, d) \<Longrightarrow> wf_header h"
  by (auto simp: entry_at_def Let_def intro!: wf_header_of split: if_splits)

lemma is_exec_apply:
  assumes "wf_header h"
  shows "\<exists>mode. parse_octal (hdr_mode h) 8 = Some mode \<and> (mode AND MODE_EXEC \<noteq> 0 \<longleftrightarrow> is_exec h)"
proof -
  have l: "length (hdr_mode h) = 8" using assms by (simp add: wf_header_def)
  obtain v where v: "parse_octal (hdr_mode h) 8 = Some v" "unat v = octal_value (hdr_mode h)"
    using parse_octal_apply [of 8 "hdr_mode h"] l by auto
  have "v AND 73 = 0 \<longleftrightarrow> unat (v AND 73) = 0" by (rule unat_eq_0 [symmetric])
  also have "\<dots> \<longleftrightarrow> unat v AND 73 = 0" by (simp only: unsigned_and_eq unat_numeral) simp
  finally show ?thesis using v by (simp add: is_exec_def)
qed

lemma fill_file_apply:
  assumes h: "wf_header h" and p: "holds_text p 256 (entry_path h)"
    and out: "length (file_path out) = 256"
    and sz: "sz < 2 ^ 63" and d: "d < 2 ^ 63"
  shows "\<exists>f. fill_file h p (of_nat d) (of_nat sz) out = Some f \<and> abs_file f = entry_node (off, h, sz, d)"
proof -
  obtain mode where m: "parse_octal (hdr_mode h) 8 = Some mode" "mode AND MODE_EXEC \<noteq> 0 \<longleftrightarrow> is_exec h"
    using is_exec_apply [OF h] by blast
  obtain b where b: "make_public_path p (file_path out) 256 = Some b"
      "holds_text b 256 (public_path (entry_path h))"
    using make_public_path_text [OF p out] by blast
  show ?thesis
    using m b(1) holds_textD(3) [OF b(2)] header_is_directory_text [OF p last_entry_path] sz d
    by (simp add: fill_file_def abs_file_def entry_node_def is_dir_def unat_of_nat)
qed

lemma is_directory_prefix_text:
  assumes p: "holds_text pb n p" and q: "holds_text qb m q" "q \<noteq> []"
  shows "is_directory_prefix pb qb = Some (lies_below q p)"
proof -
  obtain r where r: "strncmp pb qb (length q) = Some r" "r = 0 \<longleftrightarrow> take (length q) p = q"
    using strncmp_text [OF p q(1)] by blast
  have iff: "lies_below q p \<longleftrightarrow> take (length q) p = q \<and> length q < length p \<and> p ! length q = SLASH"
  proof
    assume "lies_below q p"
    then show "take (length q) p = q \<and> length q < length p \<and> p ! length q = SLASH"
      by (auto simp: lies_below_def prefix_def nth_append)
  next
    assume *: "take (length q) p = q \<and> length q < length p \<and> p ! length q = SLASH"
    then have "take (Suc (length q)) p = q @ [SLASH]" by (simp add: take_Suc_conv_app_nth)
    then show "lies_below q p" unfolding lies_below_def by (metis take_is_prefix)
  qed
  have le: "length q \<le> length p" if "take (length q) p = q"
    using arg_cong [OF that, of length] by simp
  show ?thesis
  proof (cases "take (length q) p = q")
    case True
    then show ?thesis
      using q(2) r holds_textD(6) [OF q(1)] getb_text [OF p le [OF True]] iff
      by (auto simp: is_directory_prefix_def)
  next
    case False
    then show ?thesis using q(2) r holds_textD(6) [OF q(1)] iff by (auto simp: is_directory_prefix_def)
  qed
qed

section \<open>Lookup\<close>

text \<open>One round of a loop over the archive, at the offset of a member or after the last one.\<close>

definition on_archive :: "ramdisk \<Rightarrow> nat \<Rightarrow> bool" where
  "on_archive rd off \<longleftrightarrow> wf_ramdisk rd \<and> off \<le> length (ramdisk_data rd) + 511"

lemma on_archive_next:
  assumes "on_archive rd off" "entry_at (ramdisk_data rd) off = Some (h, sz, d)"
  shows "next_entry rd (of_nat off) = Some (Some (h, of_nat sz, of_nat d))"
    "of_nat d + align_to_tar_block (of_nat sz) = (of_nat (d + round_block sz) :: u64)"
    "on_archive rd (d + round_block sz)" "wf_header h" "sz < 2 ^ 63" "d < 2 ^ 63" "off < d"
  using assms next_entry_apply [of rd off] next_offset [of rd off h sz d]
    entry_at_bounds [OF assms(2)] round_block_le [of sz] entry_wf [OF assms(2)]
  by (auto simp: on_archive_def wf_ramdisk_def)

lemma on_archive_stop:
  "on_archive rd off \<Longrightarrow> entry_at (ramdisk_data rd) off = None \<Longrightarrow> next_entry rd (of_nat off) = Some None"
  using next_entry_apply [of rd off] by (simp add: on_archive_def)

lemma tar_entries_Nil: "entry_at data off = None \<Longrightarrow> tar_entries data off = []"
  by (simp add: tar_entries.simps)

lemma tar_entries_Cons: "entry_at data off = Some (h, sz, d) \<Longrightarrow>
   tar_entries data off = (off, h, sz, d) # tar_entries data (d + round_block sz)"
  by (simp add: tar_entries.simps [of data off])

definition lookup_result :: "entry list \<Rightarrow> u8 list \<Rightarrow> bool \<Rightarrow> xbks_ramdisk_file option \<times> bool \<Rightarrow> bool" where
  "lookup_result es q dp r \<longleftrightarrow>
     (case List.find (\<lambda>e. path_of e = q) es of
        Some e \<Rightarrow> map_option abs_file (fst r) = Some (entry_node e)
      | None \<Rightarrow> r = (None, dp \<or> list_ex (\<lambda>e. lies_below q (path_of e)) es))"

lemma find_header_loop_apply:
  assumes q: "holds_text qb 256 q" "q \<noteq> []" and out: "length (file_path out) = 256"
  shows "on_archive rd off \<Longrightarrow> \<exists>r. find_header_loop rd qb out (of_nat off) dp = Some r \<and>
    lookup_result (tar_entries (ramdisk_data rd) off) q dp r"
proof (induction "ramdisk_data rd" off arbitrary: dp rule: tar_entries.induct)
  case (1 off)
  show ?case
  proof (cases "entry_at (ramdisk_data rd) off")
    case None
    then show ?thesis
      using on_archive_stop [OF "1.prems" None]
      by (subst find_header_loop.simps) (simp add: tar_entries_Nil lookup_result_def)
  next
    case (Some e)
    obtain h sz d where e: "e = (h, sz, d)" by (cases e)
    note step = on_archive_next [OF "1.prems" Some [unfolded e]]
    let ?rest = "tar_entries (ramdisk_data rd) (d + round_block sz)"
    have es: "tar_entries (ramdisk_data rd) off = (off, h, sz, d) # ?rest"
      by (rule tar_entries_Cons [OF Some [unfolded e]])
    have IH: "\<exists>r. find_header_loop rd qb out (of_nat (d + round_block sz)) dp' = Some r \<and>
        lookup_result ?rest q dp' r" for dp'
      using "1.hyps" [OF Some e [symmetric] refl step(3)] .
    obtain pb where pb: "tar_path h path_buffer 256 = Some (entry_path h \<noteq> [], pb)"
        "entry_path h \<noteq> [] \<longrightarrow> holds_text pb 256 (entry_path h)"
      using tar_path_text [OF step(4), of path_buffer] by auto
    show ?thesis
    proof (cases "entry_path h = []")
      case True
      have "\<not> lies_below q []" by (simp add: lies_below_def)
      then have "lookup_result (tar_entries (ramdisk_data rd) off) q dp r = lookup_result ?rest q dp r" for r
        unfolding es using True q(2) by (simp add: lookup_result_def split: option.split)
      then show ?thesis
        using IH [of dp] pb(1) True step(1,2) by (subst find_header_loop.simps) simp
    next
      case False
      then have p: "holds_text pb 256 (entry_path h)" using pb(2) by simp
      obtain r where r: "strcmp pb qb = Some r" "r = 0 \<longleftrightarrow> entry_path h = q"
        using strcmp_text [OF p q(1)] by blast
      obtain f where f: "fill_file h pb (of_nat d) (of_nat sz) out = Some f"
          "abs_file f = entry_node (off, h, sz, d)"
        using fill_file_apply [OF step(4) p out step(5,6)] by blast
      show ?thesis
      proof (cases "entry_path h = q")
        case True
        then show ?thesis
          using False step(1) pb(1) r f unfolding es
          by (subst find_header_loop.simps) (simp add: lookup_result_def)
      next
        case ne: False
        have "lookup_result (tar_entries (ramdisk_data rd) off) q dp r =
            lookup_result ?rest q (dp \<or> lies_below q (entry_path h)) r" for r
          unfolding es using ne by (simp add: lookup_result_def disj_assoc split: option.split)
        then show ?thesis
          using IH [of "dp \<or> lies_below q (entry_path h)"] False ne step(1,2) pb(1) r
            is_directory_prefix_text [OF p q]
          by (subst find_header_loop.simps) simp
      qed
    qed
  qed
qed

lemma implied_directory_apply:
  assumes "holds_text p 256 s" "length (file_path out) = 256"
  shows "\<exists>f. implied_directory p out = Some f \<and> abs_file f = dir_node s"
proof -
  obtain b where b: "make_public_path p (file_path out) 256 = Some b" "holds_text b 256 (public_path s)"
    using make_public_path_text [OF assms] by blast
  then show ?thesis
    using holds_textD(3) [OF b(2)] by (simp add: implied_directory_def abs_file_def dir_node_def)
qed

lemma uninit_path [simp]: "length (file_path uninit_file) = 256"
  by (simp add: uninit_file_def)

lemma ramdisk_find_apply:
  assumes rd: "wf_ramdisk rd" "ramdisk_available rd" and path: "terminated path"
  shows "\<exists>r. xbks_ramdisk_find rd (Some path) = Some r \<and>
    map_option abs_file r = ram_lookup (tar_entries (ramdisk_data rd) 0) (norm_path 256 (cstr path))"
proof -
  let ?q = "norm_path 256 (cstr path)" and ?es = "tar_entries (ramdisk_data rd) 0"
  obtain qb where qb: "normalize_path path path_buffer 256 = Some qb" "holds_text qb 256 ?q"
    using normalize_path_text [OF path, of path_buffer 256] by auto
  obtain f where f: "implied_directory qb uninit_file = Some f" "abs_file f = dir_node ?q"
    using implied_directory_apply [OF qb(2) uninit_path] by blast
  have g: "getb qb 0 = Some (if 0 < length ?q then ?q ! 0 else 0)" using getb_text [OF qb(2), of 0] by simp
  show ?thesis
  proof (cases "?q = []")
    case True
    then show ?thesis using qb(1) f g rd(2) by (simp add: xbks_ramdisk_find_def ram_lookup_def)
  next
    case False
    have c: "?q ! 0 \<noteq> 0" using nul_iff_text [OF qb(2), of 0] False by auto
    obtain r dp where r: "find_header rd qb uninit_file = Some (r, dp)" "lookup_result ?es ?q False (r, dp)"
      using find_header_loop_apply [OF qb(2) False uninit_path, of rd 0 False] rd(1)
      by (auto simp: find_header_def on_archive_def)
    then show ?thesis
      using qb(1) f g rd(2) False c
      by (cases r) (auto simp: xbks_ramdisk_find_def ram_lookup_def lookup_result_def split: option.splits)
  qed
qed

section \<open>Directory listings\<close>

lemma component_length_text:
  "0 \<notin> set s \<Longrightarrow> component_length (s @ 0 # r) = Some (length (takeWhile (\<lambda>x. \<not> is_slash x) s))"
  by (induction s) (auto simp: is_slash_def)

lemma holds_text_drop: "holds_text b n s \<Longrightarrow> k \<le> length s \<Longrightarrow> holds_text (drop k b) (n - k) (drop k s)"
  by (elim holds_textE) (auto intro!: holds_textI dest: in_set_dropD)

text \<open>The second half of \<^verbatim>\<open>child_name_for_directory\<close>, on the rest of the path.\<close>

lemma first_component_text:
  assumes rel: "holds_text rb k rel" "k \<le> 256" and buf: "length buf = 256"
  shows "\<exists>r. first_component rb buf 256 = Some r \<and>
    (let c = takeWhile (\<lambda>x. \<not> is_slash x) rel in
     if c = [] then r = None else \<exists>b. r = Some (b, length c < length rel) \<and> holds_text b 256 c)"
proof -
  define c where "c = takeWhile (\<lambda>x. \<not> is_slash x) rel"
  obtain z where z: "rb = rel @ 0 # z" "0 \<notin> set rel" "length rb = k" using rel(1) by (rule holds_textE)
  have g: "getb rb 0 = Some (if 0 < length rel then rel ! 0 else 0)" using getb_text [OF rel(1), of 0] by simp
  have cl: "component_length rb = Some (length c)"
    unfolding z(1) c_def by (rule component_length_text [OF z(2)])
  show ?thesis
  proof (cases "c = []")
    case True
    then show ?thesis using g cl by (simp add: c_def Let_def first_component_def)
  next
    case False
    then have ne: "rel \<noteq> []" by (auto simp: c_def)
    have r0: "rel ! 0 \<noteq> 0" using nul_iff_text [OF rel(1), of 0] ne by auto
    have pre: "length c \<le> length rel" "take (length c) rel = c"
      unfolding c_def by (rule length_takeWhile_le, rule takeWhile_eq_take [symmetric])
    have nul: "0 \<notin> set c" using z(2) by (auto simp: c_def dest: set_takeWhileD)
    have len: "length c < 256" using pre(1) z rel(2) by auto
    have "copy_bytes buf 0 256 rb (length c) =
        Some (take 0 buf @ take (min (length c) (256 - 1)) rb @ 0 # drop (0 + min (length c) (256 - 1) + 1) buf)"
      using buf len pre(1) z by (intro copy_bytes_apply) auto
    moreover have "take (min (length c) (256 - 1)) rb = c"
      using len pre unfolding z(1) by (simp add: min_def)
    ultimately have cp: "copy_bytes buf 0 256 rb (length c) = Some (c @ 0 # drop (length c + 1) buf)"
      using len by (simp add: min_def)
    have t: "holds_text (c @ 0 # drop (length c + 1) buf) 256 c"
      using buf len nul by (intro holds_textI [OF _ refl]) auto
    have sl: "rel ! length c = SLASH" if "length c < length rel"
      using nth_length_takeWhile [of "\<lambda>x. \<not> is_slash x" rel] that by (simp add: c_def is_slash_def)
    have e: "getb rb (length c) = Some (if length c < length rel then SLASH else 0)"
      using getb_text [OF rel(1) pre(1)] sl by simp
    show ?thesis
      using g ne r0 cl False cp e t by (simp add: c_def [symmetric] first_component_def)
  qed
qed

lemma child_name_text:
  assumes p: "holds_text pb 256 p" and q: "holds_text qb m q" and buf: "length buf = 256"
  shows "\<exists>r. child_name_for_directory pb qb buf 256 = Some r \<and>
    (case child_of q p of
       None \<Rightarrow> r = None
     | Some (c, nested) \<Rightarrow> \<exists>b. r = Some (b, nested) \<and> holds_text b 256 c)"
proof (cases "q = []")
  case True
  obtain r where "first_component pb buf 256 = Some r"
      "let c = takeWhile (\<lambda>x. \<not> is_slash x) p in
       if c = [] then r = None else \<exists>b. r = Some (b, length c < length p) \<and> holds_text b 256 c"
    using first_component_text [OF p order_refl buf] by blast
  then show ?thesis
    using True holds_textD(6) [OF q]
    by (cases r) (auto simp: child_name_for_directory_def child_of_def Let_def split: if_splits)
next
  case False
  obtain r where r: "strncmp pb qb (length q) = Some r" "r = 0 \<longleftrightarrow> take (length q) p = q"
    using strncmp_text [OF p q] by blast
  have dp: "is_directory_prefix pb qb = Some (lies_below q p)"
    by (rule is_directory_prefix_text [OF p q False])
  show ?thesis
  proof (cases "lies_below q p")
    case True
    then have le: "length q + 1 \<le> length p" by (auto simp: lies_below_def prefix_def)
    have r0: "r = 0" "getb pb (length q) = Some SLASH"
      using dp True r(1) holds_textD(6) [OF q] False
      by (auto simp: is_directory_prefix_def split: if_splits option.splits bind_splits)
    show ?thesis
      using first_component_text [OF holds_text_drop [OF p le] _ buf] r r0 holds_textD(6) [OF q] False True
      by (auto simp: child_name_for_directory_def child_of_def Let_def split: if_splits)
  next
    case nb: False
    then show ?thesis
      using dp r(1) holds_textD(6) [OF q] False
      by (auto simp: is_directory_prefix_def child_name_for_directory_def child_of_def Let_def
          split: if_splits bind_splits)
  qed
qed

text \<open>What a loop learns from one member about the children of a directory.\<close>

lemma entry_child_text:
  assumes h: "wf_header h" and q: "holds_text qb m q"
  shows "\<exists>pb child. tar_path h path_buffer 256 = Some (entry_path h \<noteq> [], pb) \<and>
    (if entry_path h \<noteq> [] then child_name_for_directory pb qb path_buffer 256 else Some None) = Some child \<and>
    (case child_of q (entry_path h) of
       None \<Rightarrow> child = None
     | Some (c, nested) \<Rightarrow> \<exists>b. child = Some (b, nested) \<and> holds_text b 256 c \<and>
         holds_text pb 256 (entry_path h))"
proof -
  obtain pb where pb: "tar_path h path_buffer 256 = Some (entry_path h \<noteq> [], pb)"
      "entry_path h \<noteq> [] \<longrightarrow> holds_text pb 256 (entry_path h)"
    using tar_path_text [OF h, of path_buffer] by auto
  show ?thesis
  proof (cases "entry_path h = []")
    case True
    then have "child_of q (entry_path h) = None" by (simp add: child_of_def lies_below_def)
    then show ?thesis using pb True by simp
  next
    case False
    then have p: "holds_text pb 256 (entry_path h)" using pb(2) by simp
    obtain r where r: "child_name_for_directory pb qb path_buffer 256 = Some r"
      "case child_of q (entry_path h) of None \<Rightarrow> r = None
       | Some (c, nested) \<Rightarrow> \<exists>b. r = Some (b, nested) \<and> holds_text b 256 c"
      using child_name_text [OF p q, of path_buffer] by auto
    show ?thesis using r pb False p by (auto split: option.splits)
  qed
qed

lemma tar_entries_ge: "e \<in> set (tar_entries data off) \<Longrightarrow> off \<le> fst e"
proof (induction data off rule: tar_entries.induct)
  case (1 data off)
  show ?case
  proof (cases "entry_at data off")
    case None
    then show ?thesis using "1.prems" by (simp add: tar_entries_Nil)
  next
    case (Some x)
    obtain h sz d where x: "x = (h, sz, d)" by (cases x)
    show ?thesis
      using "1.prems" "1.IH" [OF Some x [symmetric] refl] entry_at_bounds [OF Some [unfolded x]]
      unfolding tar_entries_Cons [OF Some [unfolded x]] by fastforce
  qed
qed

definition mentions :: "u8 list \<Rightarrow> u8 list \<Rightarrow> entry \<Rightarrow> bool" where
  "mentions q c e \<longleftrightarrow> map_option fst (child_of q (path_of e)) = Some c"

lemma child_seen_loop_apply:
  assumes q: "holds_text qb m q" and c: "holds_text cb n c"
    and cur: "cur \<le> length (ramdisk_data rd) + 511"
  shows "on_archive rd off \<Longrightarrow>
    child_seen_loop rd qb cb (of_nat cur) (of_nat off) =
      Some (\<exists>e \<in> set (tar_entries (ramdisk_data rd) off). fst e < cur \<and> mentions q c e)"
proof (induction "ramdisk_data rd" off rule: tar_entries.induct)
  case (1 off)
  have L: "length (ramdisk_data rd) < 2 ^ 63" using "1.prems" by (simp add: on_archive_def wf_ramdisk_def)
  have guard: "(of_nat off :: u64) < of_nat cur \<longleftrightarrow> off < cur"
    using cur L "1.prems" by (simp add: word_less_nat_alt unat_of_nat on_archive_def)
  show ?case
  proof (cases "off < cur")
    case False
    then have "\<not> (\<exists>e \<in> set (tar_entries (ramdisk_data rd) off). fst e < cur \<and> mentions q c e)"
      using tar_entries_ge by fastforce
    then show ?thesis using False guard by (subst child_seen_loop.simps) simp
  next
    case True
    show ?thesis
    proof (cases "entry_at (ramdisk_data rd) off")
      case None
      then show ?thesis
        using on_archive_stop [OF "1.prems" None] True guard
        by (subst child_seen_loop.simps) (simp add: tar_entries_Nil)
    next
      case (Some x)
      obtain h sz d where x: "x = (h, sz, d)" by (cases x)
      note step = on_archive_next [OF "1.prems" Some [unfolded x]]
      note IH = "1.hyps" [OF Some x [symmetric] refl step(3)]
      obtain pb child where t: "tar_path h path_buffer 256 = Some (entry_path h \<noteq> [], pb)"
        "(if entry_path h \<noteq> [] then child_name_for_directory pb qb path_buffer 256 else Some None) = Some child"
        "case child_of q (entry_path h) of None \<Rightarrow> child = None
         | Some (c, nested) \<Rightarrow> \<exists>b. child = Some (b, nested) \<and> holds_text b 256 c \<and> holds_text pb 256 (entry_path h)"
        using entry_child_text [OF step(4) q] by blast
      have cmp: "\<exists>r. (case child of None \<Rightarrow> Some 1 | Some (b, nested) \<Rightarrow> strcmp b cb) = Some r \<and>
          (r = 0 \<longleftrightarrow> mentions q c (off, h, sz, d))"
        using t(3) strcmp_text [OF _ c] by (auto simp: mentions_def split: option.splits)
      then show ?thesis
        using IH step(1,2) t(1,2) True guard unfolding tar_entries_Cons [OF Some [unfolded x]]
        by (subst child_seen_loop.simps) auto
    qed
  qed
qed

lemma empty_buffer_text: "holds_text path_buffer 256 []"
  by (rule holds_textI [of _ _ _ "replicate 255 0"]) (simp_all add: numeral_eq_Suc)

lemma copy_append_text:
  assumes b: "holds_text b 256 s" and t: "holds_text tb n t" and fit: "length s + length t \<le> 255"
  shows "\<exists>b'. copy_bytes b (length s) (256 - length s) tb (length t) = Some b' \<and> holds_text b' 256 (s @ t)"
proof -
  obtain r where r: "b = s @ 0 # r" "0 \<notin> set s" "length b = 256" using b by (rule holds_textE)
  have "\<exists>b'. copy_bytes b (length s) (256 - length s) tb (length t) = Some b' \<and>
      holds_text b' 256 (take (length s) s @ take (256 - length s - 1) t)"
    using r fit by (intro copy_bytes_text [OF t]) auto
  then show ?thesis using fit by simp
qed

lemma join_child_text:
  assumes q: "holds_text qb m q" and c: "holds_text cb n c" and fit: "length (join q c) \<le> 255"
  shows "\<exists>b. join_child qb cb = Some b \<and> holds_text b 256 (join q c)"
proof (cases "q = []")
  case True
  then show ?thesis
    using copy_append_text [OF empty_buffer_text c] fit getb_text [OF q, of 0] holds_textD(6) [OF c]
    by (simp add: join_child_def join_def)
next
  case False
  have fit': "length q + 1 + length c \<le> 255" using fit False by (simp add: join_def)
  obtain b1 where b1: "copy_bytes path_buffer 0 256 qb (length q) = Some b1" "holds_text b1 256 q"
    using copy_append_text [OF empty_buffer_text q] fit' by auto
  obtain b2 b3 where b2: "setb b1 (length q) SLASH = Some b2" "setb b2 (length q + 1) 0 = Some b3"
      "holds_text b3 256 (q @ [SLASH])"
    using combine_slash [OF b1(2)] fit' by auto
  obtain b4 where b4: "copy_bytes b3 (length q + 1) (256 - (length q + 1)) cb (length c) = Some b4"
      "holds_text b4 256 (q @ [SLASH] @ c)"
    using copy_append_text [OF b2(3) c] fit' by auto
  have "getb qb 0 = Some (q ! 0)" "q ! 0 \<noteq> 0"
    using getb_text [OF q, of 0] nul_iff_text [OF q, of 0] False by auto
  then show ?thesis
    using False b1(1) b2(1,2) b4 fit' holds_textD(6) [OF q] holds_textD(6) [OF c]
      holds_textD(6) [OF b1(2)] holds_textD(6) [OF b2(3)]
    by (simp add: join_child_def join_def)
qed

lemma child_of_length: "child_of q p = Some (c, nested) \<Longrightarrow> length (join q c) \<le> length p"
proof -
  assume *: "child_of q p = Some (c, nested)"
  define rel where "rel = (if q = [] then p else if lies_below q p then drop (length q + 1) p else [])"
  have c: "c = takeWhile (\<lambda>x. \<not> is_slash x) rel" "c \<noteq> []"
    using * by (auto simp: child_of_def Let_def rel_def split: if_splits)
  have "length c \<le> length rel" unfolding c(1) by (rule length_takeWhile_le)
  moreover have "rel \<noteq> []" using c by auto
  ultimately show ?thesis by (auto simp: join_def rel_def lies_below_def split: if_splits dest: prefix_length_le)
qed

lemma child_file_apply:
  assumes h: "wf_header h" and p: "holds_text pb 256 (entry_path h)" and q: "holds_text qb m q"
    and c: "child_of q (entry_path h) = Some (c, nested)" "holds_text cb n c"
    and out: "length (file_path out) = 256" and sz: "sz < 2 ^ 63" and d: "d < 2 ^ 63"
  shows "\<exists>f. child_file h pb qb cb nested (of_nat sz) (of_nat d) out = Some f \<and>
    abs_file f = child_node q (off, h, sz, d) c nested"
proof -
  have "length (join q c) \<le> 255" using child_of_length [OF c(1)] holds_textD(5) [OF p] by simp
  from join_child_text [OF q c(2) this]
  obtain jb where jb: "join_child qb cb = Some jb" "holds_text jb 256 (join q c)" by blast
  obtain b where b: "make_public_path jb (file_path out) 256 = Some b" "holds_text b 256 (public_path (join q c))"
    using make_public_path_text [OF jb(2) out] by blast
  obtain mode where m: "parse_octal (hdr_mode h) 8 = Some mode" "mode AND MODE_EXEC \<noteq> 0 \<longleftrightarrow> is_exec h"
    using is_exec_apply [OF h] by blast
  show ?thesis
    using jb(1) b(1) holds_textD(3) [OF b(2)] m header_is_directory_text [OF p last_entry_path] sz d
    by (simp add: child_file_def abs_file_def child_node_def is_dir_def unat_of_nat)
qed

definition nth_node :: "(u8 list \<times> ram_node) list \<Rightarrow> nat \<Rightarrow> ram_node option" where
  "nth_node l i = (if i < length l then Some (snd (l ! i)) else None)"

lemma nth_node_Cons [simp]:
  "nth_node (x # l) 0 = Some (snd x)" "nth_node (x # l) (Suc i) = nth_node l i" "nth_node [] i = None"
  by (simp_all add: nth_node_def)

lemma listing_Cons: "dir_listing q (e # es) seen =
  (case child_of q (path_of e) of
     None \<Rightarrow> dir_listing q es seen
   | Some (c, nested) \<Rightarrow>
       if c \<in> set seen then dir_listing q es seen
       else (c, child_node q e c nested) # dir_listing q es (c # seen))"
  by simp

text \<open>
  \<open>pre\<close> are the members before the one at \<open>off\<close>, and \<open>seen\<close> the children they mention.
\<close>

definition scanned :: "ramdisk \<Rightarrow> u8 list \<Rightarrow> nat \<Rightarrow> u8 list list \<Rightarrow> bool" where
  "scanned rd q off seen \<longleftrightarrow> on_archive rd off \<and>
     (\<exists>pre. tar_entries (ramdisk_data rd) 0 = pre @ tar_entries (ramdisk_data rd) off \<and>
        (\<forall>e \<in> set pre. fst e < off) \<and> (\<forall>c. c \<in> set seen \<longleftrightarrow> (\<exists>e \<in> set pre. mentions q c e)))"

lemma scanned_seen:
  assumes s: "scanned rd q off seen" and q: "holds_text qb m q" and c: "holds_text cb n c"
  shows "child_seen_before rd qb cb (of_nat off) = Some (c \<in> set seen)"
proof -
  have a: "on_archive rd off" using s by (simp add: scanned_def)
  obtain pre where pre: "tar_entries (ramdisk_data rd) 0 = pre @ tar_entries (ramdisk_data rd) off"
      "\<forall>e \<in> set pre. fst e < off" "\<forall>c. c \<in> set seen \<longleftrightarrow> (\<exists>e \<in> set pre. mentions q c e)"
    using s by (auto simp: scanned_def)
  have "(\<exists>e \<in> set (tar_entries (ramdisk_data rd) 0). fst e < off \<and> mentions q c e) \<longleftrightarrow> c \<in> set seen"
    unfolding pre(1) using pre(2,3) tar_entries_ge [of _ "ramdisk_data rd" off] by fastforce
  then show ?thesis
    using child_seen_loop_apply [OF q c, of off rd 0] a
    by (simp add: child_seen_before_def on_archive_def)
qed

lemma scanned_step:
  assumes s: "scanned rd q off seen" and e: "entry_at (ramdisk_data rd) off = Some (h, sz, d)"
    and seen': "\<And>c. c \<in> set seen' \<longleftrightarrow> c \<in> set seen \<or> mentions q c (off, h, sz, d)"
  shows "scanned rd q (d + round_block sz) seen'"
proof -
  have a: "on_archive rd off" using s by (simp add: scanned_def)
  note step = on_archive_next [OF a e]
  obtain pre where pre: "tar_entries (ramdisk_data rd) 0 = pre @ tar_entries (ramdisk_data rd) off"
      "\<forall>e \<in> set pre. fst e < off" "\<forall>c. c \<in> set seen \<longleftrightarrow> (\<exists>e \<in> set pre. mentions q c e)"
    using s by (auto simp: scanned_def)
  show ?thesis unfolding scanned_def
  proof (intro conjI exI)
    show "tar_entries (ramdisk_data rd) 0 =
        (pre @ [(off, h, sz, d)]) @ tar_entries (ramdisk_data rd) (d + round_block sz)"
      unfolding pre(1) tar_entries_Cons [OF e] by simp
    show "\<forall>e \<in> set (pre @ [(off, h, sz, d)]). fst e < d + round_block sz"
      using pre(2) step(7) by fastforce
    show "\<forall>c. c \<in> set seen' \<longleftrightarrow> (\<exists>e \<in> set (pre @ [(off, h, sz, d)]). mentions q c e)"
      using pre(3) seen' by auto
  qed (rule step(3))
qed

lemma read_dir_loop_apply:
  assumes q: "holds_text qb m q"
  shows "scanned rd q off seen \<Longrightarrow> unat ci \<le> unat index \<Longrightarrow>
    \<exists>r. read_dir_loop rd qb index (of_nat off) ci = Some r \<and>
      map_option abs_file r =
        nth_node (dir_listing q (tar_entries (ramdisk_data rd) off) seen) (unat index - unat ci)"
proof (induction "ramdisk_data rd" off arbitrary: ci seen rule: tar_entries.induct)
  case (1 off)
  have a: "on_archive rd off" using "1.prems" by (simp add: scanned_def)
  show ?case
  proof (cases "entry_at (ramdisk_data rd) off")
    case None
    then show ?thesis
      using on_archive_stop [OF a None] by (subst read_dir_loop.simps) (simp add: tar_entries_Nil)
  next
    case (Some x)
    obtain h sz d where x: "x = (h, sz, d)" by (cases x)
    note e = Some [unfolded x]
    note step = on_archive_next [OF a e]
    note IH = "1.hyps" [OF Some x [symmetric] refl]
    let ?rest = "tar_entries (ramdisk_data rd) (d + round_block sz)"
    obtain pb child where t: "tar_path h path_buffer 256 = Some (entry_path h \<noteq> [], pb)"
      "(if entry_path h \<noteq> [] then child_name_for_directory pb qb path_buffer 256 else Some None) = Some child"
      "case child_of q (entry_path h) of None \<Rightarrow> child = None
       | Some (c, nested) \<Rightarrow> \<exists>b. child = Some (b, nested) \<and> holds_text b 256 c \<and> holds_text pb 256 (entry_path h)"
      using entry_child_text [OF step(4) q] by blast
    note unfold = read_dir_loop.simps [of rd qb index "of_nat off" ci]
    show ?thesis
    proof (cases "child_of q (entry_path h)")
      case None
      then have "scanned rd q (d + round_block sz) seen"
        by (intro scanned_step [OF "1.prems"(1) e]) (simp add: mentions_def)
      from IH [OF this "1.prems"(2)] show ?thesis
        unfolding tar_entries_Cons [OF e] listing_Cons unfold using None t step(1,2) by simp
    next
      case (Some y)
      obtain c nested where y: "y = (c, nested)" by (cases y)
      note ch = Some [unfolded y]
      obtain b where b: "child = Some (b, nested)" "holds_text b 256 c" "holds_text pb 256 (entry_path h)"
        using t(3) ch by auto
      have seen: "child_seen_before rd qb b (of_nat off) = Some (c \<in> set seen)"
        by (rule scanned_seen [OF "1.prems"(1) q b(2)])
      obtain f where f: "child_file h pb qb b nested (of_nat sz) (of_nat d) uninit_file = Some f"
          "abs_file f = child_node q (off, h, sz, d) c nested"
        using child_file_apply [OF step(4) b(3) q ch b(2) uninit_path step(5,6)] by blast
      show ?thesis
      proof (cases "c \<in> set seen")
        case True
        then have "scanned rd q (d + round_block sz) seen"
          using ch by (intro scanned_step [OF "1.prems"(1) e]) (auto simp: mentions_def)
        from IH [OF this "1.prems"(2)] show ?thesis
          unfolding tar_entries_Cons [OF e] listing_Cons unfold using True ch t(1,2) b(1) seen step(1,2) by simp
      next
        case new: False
        have sc: "scanned rd q (d + round_block sz) (c # seen)"
          using ch by (intro scanned_step [OF "1.prems"(1) e]) (auto simp: mentions_def)
        show ?thesis
        proof (cases "ci = index")
          case True
          then show ?thesis
            unfolding tar_entries_Cons [OF e] listing_Cons unfold
            using new ch t(1,2) b(1) seen step(1) f by simp
        next
          case False
          then have "unat ci < unat index" using "1.prems"(2) by (simp add: word_unat_eq_iff)
          then have ci: "unat (ci + 1) = Suc (unat ci)" "unat (ci + 1) \<le> unat index"
              "unat index - unat ci = Suc (unat index - unat (ci + 1))"
            using unat_inc [of ci index] by (simp_all add: word_less_nat_alt)
          from IH [OF sc ci(2)] show ?thesis
            unfolding tar_entries_Cons [OF e] listing_Cons unfold ci(3)
            using new ch t(1,2) b(1) seen step(1,2) False by simp
        qed
      qed
    qed
  qed
qed

lemma ramdisk_read_dir_apply:
  assumes rd: "wf_ramdisk rd" "ramdisk_available rd" and path: "terminated path"
  shows "\<exists>r. xbks_ramdisk_read_dir rd (Some path) index = Some r \<and>
    map_option abs_file r =
      nth_node (dir_listing (norm_path 256 (cstr path)) (tar_entries (ramdisk_data rd) 0) []) (unat index)"
proof -
  obtain qb where qb: "normalize_path path path_buffer 256 = Some qb"
      "holds_text qb 256 (norm_path 256 (cstr path))"
    using normalize_path_text [OF path, of path_buffer 256] by auto
  have "scanned rd (norm_path 256 (cstr path)) 0 []"
    using rd(1) by (auto simp: scanned_def on_archive_def)
  from read_dir_loop_apply [OF qb(2) this, of 0 index] show ?thesis
    using qb(1) rd(2) by (simp add: xbks_ramdisk_read_dir_def)
qed

section \<open>Facts about listings and lookups\<close>

lemma listing_names:
  "set (map fst (dir_listing q es seen)) = {c. \<exists>e \<in> set es. mentions q c e} - set seen"
  by (induction q es seen rule: dir_listing.induct) (auto simp: mentions_def split: option.splits)

lemma listing_distinct: "distinct (map fst (dir_listing q es seen))"
proof (induction q es seen rule: dir_listing.induct)
  case (2 q e es seen)
  then show ?case using listing_names [of q es] by (auto split: option.splits simp flip: set_map)
qed simp

lemma tar_entries_in_archive: "(off, h, sz, d) \<in> set (tar_entries data o0) \<Longrightarrow> d + sz \<le> length data"
proof (induction data o0 rule: tar_entries.induct)
  case (1 data o0)
  show ?case
  proof (cases "entry_at data o0")
    case None
    then show ?thesis using "1.prems" by (simp add: tar_entries_Nil)
  next
    case (Some x)
    obtain h sz d where x: "x = (h, sz, d)" by (cases x)
    show ?thesis
      using "1.prems" "1.IH" [OF Some x [symmetric] refl] entry_at_bounds [OF Some [unfolded x]]
      unfolding tar_entries_Cons [OF Some [unfolded x]] by auto
  qed
qed

definition node_in :: "nat \<Rightarrow> ram_node \<Rightarrow> bool" where
  "node_in n x \<longleftrightarrow> (case node_data x of None \<Rightarrow> node_size x = 0 \<and> node_dir x | Some d \<Rightarrow> d + node_size x \<le> n)"

lemma entry_node_in: "e \<in> set (tar_entries data 0) \<Longrightarrow> node_in (length data) (entry_node e)"
  by (cases e) (auto simp: node_in_def entry_node_def dest: tar_entries_in_archive)

lemma child_node_in: "e \<in> set (tar_entries data 0) \<Longrightarrow> node_in (length data) (child_node q e c nested)"
  by (cases e) (auto simp: node_in_def child_node_def dest: tar_entries_in_archive)

lemma find_path:
  assumes "List.find (\<lambda>e. path_of e = q) es = Some e"
  shows "e \<in> set es" "path_of e = q"
  using assms by (auto simp: find_Some_iff)

lemma lookup_in_archive:
  assumes "ram_lookup (tar_entries data 0) q = Some x"
  shows "node_in (length data) x"
proof -
  have "x = dir_node q \<or> (\<exists>e \<in> set (tar_entries data 0). x = entry_node e)"
    using assms find_path(1) unfolding ram_lookup_def by (auto split: if_splits option.splits)
  then show ?thesis using entry_node_in by (auto simp: node_in_def dir_node_def)
qed

lemma listing_origin:
  "x \<in> set (dir_listing q es seen) \<Longrightarrow>
   \<exists>e \<in> set es. \<exists>nested. child_of q (path_of e) = Some (fst x, nested) \<and> snd x = child_node q e (fst x) nested"
proof (induction es arbitrary: seen)
  case (Cons e es)
  show ?case
  proof (cases "child_of q (path_of e)")
    case None
    then show ?thesis using Cons by auto
  next
    case (Some y)
    then show ?thesis using Cons.IH Cons.prems by (cases y) (auto split: if_splits)
  qed
qed simp

text \<open>What is handed out lies in the archive.\<close>

lemma files_in_archive:
  assumes "wf_ramdisk rd" and "terminated path"
    and "xbks_ramdisk_find rd (Some path) = Some (Some f) \<or>
      xbks_ramdisk_read_dir rd (Some path) index = Some (Some f)"
  shows "case file_data f of
      None \<Rightarrow> file_size f = 0 \<and> directory f
    | Some d \<Rightarrow> unat d + unat (file_size f) \<le> length (ramdisk_data rd)"
proof -
  let ?es = "tar_entries (ramdisk_data rd) 0" and ?q = "norm_path 256 (cstr path)"
  have av: "ramdisk_available rd"
    using assms(3) by (auto simp: xbks_ramdisk_find_def xbks_ramdisk_read_dir_def split: if_splits)
  have "ram_lookup ?es ?q = Some (abs_file f) \<or> nth_node (dir_listing ?q ?es []) (unat index) = Some (abs_file f)"
    using assms(3) ramdisk_find_apply [OF assms(1) av assms(2)]
      ramdisk_read_dir_apply [OF assms(1) av assms(2), of index] by force
  then have "node_in (length (ramdisk_data rd)) (abs_file f)"
  proof
    assume "nth_node (dir_listing ?q ?es []) (unat index) = Some (abs_file f)"
    then obtain x where "x \<in> set (dir_listing ?q ?es [])" "snd x = abs_file f"
      unfolding nth_node_def by (metis nth_mem option.distinct(1) option.inject)
    then show ?thesis using listing_origin child_node_in by metis
  qed (rule lookup_in_archive)
  then show ?thesis by (auto simp: node_in_def abs_file_def unat_eq_0 split: option.splits)
qed

section \<open>A small archive\<close>

definition demo_header :: "string \<Rightarrow> string \<Rightarrow> string \<Rightarrow> u8 \<Rightarrow> u8 list" where
  "demo_header nm mode sz typeflag =
     lit nm @ replicate (99 - length nm) 0 @ lit mode @ replicate (23 - length mode) 0 @
     lit sz @ replicate (31 - length sz) 0 @ [typeflag] @ replicate 355 0"

text \<open>\<^verbatim>\<open>bin/sh\<close>, an executable of three bytes, and the old-style directory \<^verbatim>\<open>etc/\<close>.\<close>

definition demo_ramdisk :: ramdisk where
  "demo_ramdisk = \<lparr>ramdisk_data = demo_header ''bin/sh'' ''755'' ''3'' 48 @ [1, 2, 3] @ replicate 509 0 @
      demo_header ''etc/'' ''755'' ''0'' 48,
    ramdisk_size = 1536, ramdisk_available = True\<rparr>"

lemma demo_wf: "wf_ramdisk demo_ramdisk" "ramdisk_available demo_ramdisk"
  by (simp_all add: demo_ramdisk_def wf_ramdisk_def demo_header_def lit_def)

lemma demo_members:
  "tar_entries (ramdisk_data demo_ramdisk) 0 =
     [(0, header_of (demo_header ''bin/sh'' ''755'' ''3'' 48), 3, 512),
      (1024, header_of (demo_header ''etc/'' ''755'' ''0'' 48), 0, 1536)]"
proof -
  let ?a = "demo_header ''bin/sh'' ''755'' ''3'' 48" and ?b = "demo_header ''etc/'' ''755'' ''0'' 48"
  let ?d = "ramdisk_data demo_ramdisk"
  have l: "length ?a = 512" "length ?b = 512" by (simp_all add: demo_header_def lit_def)
  have d: "?d = ?a @ [1, 2, 3] @ replicate 509 0 @ ?b" by (simp add: demo_ramdisk_def)
  have z: "\<not> block_is_zero ?a" "\<not> block_is_zero ?b"
    by (simp_all add: block_is_zero_def demo_header_def lit_def)
  have sz: "octal_value (hdr_size (header_of ?a)) = 3" "octal_value (hdr_size (header_of ?b)) = 0"
    by code_simp+
  have "entry_at ?d 0 = Some (header_of ?a, 3, 512)" "entry_at ?d 1024 = Some (header_of ?b, 0, 1536)"
      "entry_at ?d 1536 = None"
    unfolding d using l z sz by (simp_all add: entry_at_def Let_def)
  then show ?thesis
    by (simp add: tar_entries_Cons tar_entries_Nil round_block_def)
qed

lemma demo_paths:
  "entry_path (header_of (demo_header ''bin/sh'' ''755'' ''3'' 48)) = cstr (lit ''bin/sh'')"
  "entry_path (header_of (demo_header ''etc/'' ''755'' ''0'' 48)) = cstr (lit ''etc'')"
  "norm_path 256 (cstr (lit ''/bin/sh'')) = cstr (lit ''bin/sh'')" "norm_path 256 (cstr (lit ''/'')) = []"
  by code_simp+

lemma demo_lookup:
  "ram_lookup (tar_entries (ramdisk_data demo_ramdisk) 0) (norm_path 256 (cstr (lit ''/bin/sh''))) =
     Some \<lparr>node_path = cstr (lit ''/bin/sh''), node_data = Some 512, node_size = 3,
       node_dir = False, node_exec = True\<rparr>"
proof -
  have h: "is_exec (header_of (demo_header ''bin/sh'' ''755'' ''3'' 48))"
    "\<not> is_dir (header_of (demo_header ''bin/sh'' ''755'' ''3'' 48))"
    "public_path (cstr (lit ''bin/sh'')) = cstr (lit ''/bin/sh'')" "cstr (lit ''bin/sh'') \<noteq> []"
    by code_simp+
  show ?thesis unfolding demo_members demo_paths ram_lookup_def
    by (simp add: demo_paths entry_node_def h)
qed

lemma demo_listing:
  "map node_path (map snd (dir_listing (norm_path 256 (cstr (lit ''/''))) (tar_entries (ramdisk_data demo_ramdisk) 0) [])) =
     [cstr (lit ''/bin''), cstr (lit ''/etc'')]"
proof -
  have h: "child_of [] (cstr (lit ''bin/sh'')) = Some (cstr (lit ''bin''), True)"
    "child_of [] (cstr (lit ''etc'')) = Some (cstr (lit ''etc''), False)"
    "cstr (lit ''etc'') \<noteq> cstr (lit ''bin'')"
    "public_path (cstr (lit ''bin'')) = cstr (lit ''/bin'')" "public_path (cstr (lit ''etc'')) = cstr (lit ''/etc'')"
    by code_simp+
  show ?thesis unfolding demo_members demo_paths by (simp add: demo_paths h child_node_def join_def)
qed

lemma demo_terminated: "terminated (lit ''/bin/sh'')" "terminated (lit ''/'')"
  by (simp_all add: lit_def terminated_def)

section \<open>Properties\<close>

text \<open>
  Property C13. \<^verbatim>\<open>xbks_ramdisk_find\<close> refines the lookup in the tree of the archive, on every archive
  and every NUL-terminated path: the call ends, reads and writes inside its arrays only, and returns
  the first member with the normalised path, else a directory when some member lies below the path
  (or the path is the root), else nothing.
\<close>

theorem ramdisk_find_refines_lookup:
  assumes "wf_ramdisk rd" and "ramdisk_available rd" and "terminated path"
  shows "\<exists>r. xbks_ramdisk_find rd (Some path) = Some r \<and>
    map_option abs_file r = ram_lookup (tar_entries (ramdisk_data rd) 0) (norm_path 256 (cstr path))"
  using assms by (rule ramdisk_find_apply)

theorem ramdisk_find_refines_lookup_witness:
  "\<exists>r. xbks_ramdisk_find demo_ramdisk (Some (lit ''/bin/sh'')) = Some r \<and>
    map_option abs_file r = Some \<lparr>node_path = cstr (lit ''/bin/sh''), node_data = Some 512, node_size = 3,
      node_dir = False, node_exec = True\<rparr>"
  using ramdisk_find_refines_lookup [OF demo_wf demo_terminated(1)] unfolding demo_lookup .

text \<open>
  Property C14. \<^verbatim>\<open>xbks_ramdisk_read_dir\<close> refines the directory listing: for every index the call ends,
  stays inside its arrays, and returns the entry of the listing at that index, or nothing past its
  end. The listing has exactly the children that some member mentions, each of them once.
\<close>

theorem ramdisk_read_dir_refines_listing:
  assumes "wf_ramdisk rd" and "ramdisk_available rd" and "terminated path"
    and "es = tar_entries (ramdisk_data rd) 0" and "q = norm_path 256 (cstr path)"
  shows "(\<forall>index. \<exists>r. xbks_ramdisk_read_dir rd (Some path) index = Some r \<and>
      map_option abs_file r = nth_node (dir_listing q es []) (unat index)) \<and>
    distinct (map fst (dir_listing q es [])) \<and>
    set (map fst (dir_listing q es [])) = {c. \<exists>e \<in> set es. mentions q c e}"
proof (intro conjI allI)
  show "\<exists>r. xbks_ramdisk_read_dir rd (Some path) index = Some r \<and>
      map_option abs_file r = nth_node (dir_listing q es []) (unat index)" for index
    unfolding assms(4,5) by (rule ramdisk_read_dir_apply [OF assms(1-3)])
  show "distinct (map fst (dir_listing q es []))" by (rule listing_distinct)
  show "set (map fst (dir_listing q es [])) = {c. \<exists>e \<in> set es. mentions q c e}"
    using listing_names [of q es "[]"] by simp
qed

theorem ramdisk_read_dir_refines_listing_witness:
  "\<exists>r. xbks_ramdisk_read_dir demo_ramdisk (Some (lit ''/'')) 1 = Some r \<and>
    map_option (\<lambda>f. node_path (abs_file f)) r = Some (cstr (lit ''/etc''))"
proof -
  let ?l = "dir_listing (norm_path 256 (cstr (lit ''/''))) (tar_entries (ramdisk_data demo_ramdisk) 0) []"
  have "length ?l = 2" "node_path (snd (?l ! 1)) = cstr (lit ''/etc'')"
    using arg_cong [OF demo_listing, of length] arg_cong [OF demo_listing, of "\<lambda>l. l ! 1"] by simp_all
  then have e: "map_option node_path (nth_node ?l 1) = Some (cstr (lit ''/etc''))"
    by (simp add: nth_node_def)
  obtain r where r: "xbks_ramdisk_read_dir demo_ramdisk (Some (lit ''/'')) 1 = Some r"
      "map_option abs_file r = nth_node (dir_listing (norm_path 256 (cstr (lit ''/'')))
        (tar_entries (ramdisk_data demo_ramdisk) 0) []) (unat (1 :: u64))"
    using ramdisk_read_dir_refines_listing [OF demo_wf demo_terminated(2) refl refl] by blast
  have "map_option node_path (map_option abs_file r) = Some (cstr (lit ''/etc''))"
    unfolding r(2) using e by simp
  then show ?thesis using r(1) by (simp add: option.map_comp comp_def)
qed

text \<open>
  Property C24. Every file that \<^verbatim>\<open>xbks_ramdisk_find\<close> or \<^verbatim>\<open>xbks_ramdisk_read_dir\<close> hands out lies
  inside the archive, whatever the archive holds: its data pointer is null only for a directory of
  size 0, and otherwise the data block of the stated size is a part of the archive.
\<close>

theorem ramdisk_files_in_archive:
  assumes "wf_ramdisk rd" and "terminated path"
    and "xbks_ramdisk_find rd (Some path) = Some (Some f) \<or>
      xbks_ramdisk_read_dir rd (Some path) index = Some (Some f)"
  shows "case file_data f of
      None \<Rightarrow> file_size f = 0 \<and> directory f
    | Some d \<Rightarrow> unat d + unat (file_size f) \<le> length (ramdisk_data rd)"
  using assms by (rule files_in_archive)

theorem ramdisk_files_in_archive_witness:
  "\<exists>f. xbks_ramdisk_find demo_ramdisk (Some (lit ''/bin/sh'')) = Some (Some f) \<and>
    (case file_data f of
       None \<Rightarrow> file_size f = 0 \<and> directory f
     | Some d \<Rightarrow> unat d + unat (file_size f) \<le> length (ramdisk_data demo_ramdisk))"
proof -
  obtain f where f: "xbks_ramdisk_find demo_ramdisk (Some (lit ''/bin/sh'')) = Some (Some f)"
    using ramdisk_find_apply [OF demo_wf demo_terminated(1)] unfolding demo_lookup by auto
  then show ?thesis
    using ramdisk_files_in_archive [OF demo_wf(1) demo_terminated(1), of f] by blast
qed

text \<open>
  Property C32. The paths of members never end in a slash once they are normalised, so that the test
  of \<^verbatim>\<open>header_is_directory\<close> for a trailing slash never holds: a member is a directory exactly when its
  type flag is \<^verbatim>\<open>'5'\<close>, and an old-style directory member (\<^verbatim>\<open>name/\<close> with flag \<^verbatim>\<open>'0'\<close>) is taken for a file.
\<close>

theorem directory_only_by_typeflag:
  assumes "wf_header h" and "length out = 256" and "tar_path h out 256 = Some (True, path)"
  shows "header_is_directory h path = Some (hdr_typeflag h = 53)"
  using tar_path_text [OF assms(1,2)] assms(3) header_is_directory_text [OF _ last_entry_path] by auto

theorem directory_only_by_typeflag_witness:
  "\<exists>path. tar_path (header_of (demo_header ''etc/'' ''755'' ''0'' 48)) path_buffer 256 = Some (True, path) \<and>
    header_is_directory (header_of (demo_header ''etc/'' ''755'' ''0'' 48)) path = Some False"
proof -
  let ?h = "header_of (demo_header ''etc/'' ''755'' ''0'' 48)"
  have h: "wf_header ?h" by (rule wf_header_of) (simp add: demo_header_def lit_def)
  have "entry_path ?h \<noteq> []" "hdr_typeflag ?h \<noteq> 53" by code_simp+
  with tar_path_text [OF h, of path_buffer]
  obtain path where p: "tar_path ?h path_buffer 256 = Some (True, path)" by auto
  with directory_only_by_typeflag [OF h _ p] \<open>hdr_typeflag ?h \<noteq> 53\<close> show ?thesis by simp
qed

end
