(* ===== verification/Elf_Loader.thy ===== *)
theory Elf_Loader
  imports Ramdisk_Tree
begin

text \<open>
  ELF images. The first half is the layout of the headers, which \<^verbatim>\<open>fs/elf.c\<close> and
  \<^verbatim>\<open>kernel/process.c\<close> both declare; the second is the loader of \<^verbatim>\<open>fs/elf.c\<close>, which copies an image
  into an arena of kernel memory. A file is a block of the archive; \<^term>\<open>None\<close> is a read outside of the
  archive, so that a theorem that a call returns \<open>Some\<close> result shows that it trusts no field of the
  image.
\<close>

section \<open>Headers\<close>

fun le_word :: "u8 list \<Rightarrow> u64" where
  "le_word [] = 0"
| "le_word (b # bs) = ucast b OR push_bit 8 (le_word bs)"

text \<open>The block of \<open>n\<close> bytes at offset \<open>off\<close> of the archive.\<close>

definition slice :: "u8 list \<Rightarrow> nat \<Rightarrow> nat \<Rightarrow> u8 list option" where
  "slice data off n = (if off + n \<le> length data then Some (take n (drop off data)) else None)"

definition field :: "u8 list \<Rightarrow> nat \<Rightarrow> nat \<Rightarrow> u64" where
  "field b off n = le_word (take n (drop off b))"

record elf64_ehdr =
  e_ident :: "u8 list"
  e_type :: u16
  e_machine :: u16
  e_entry :: u64
  e_phoff :: u64
  e_phentsize :: u16
  e_phnum :: u16

record elf64_phdr =
  p_type :: u32
  p_flags :: u32
  p_offset :: u64
  p_vaddr :: u64
  p_filesz :: u64
  p_memsz :: u64

definition ehdr_of :: "u8 list \<Rightarrow> elf64_ehdr" where
  "ehdr_of b = \<lparr>e_ident = take 16 b, e_type = ucast (field b 16 2), e_machine = ucast (field b 18 2),
     e_entry = field b 24 8, e_phoff = field b 32 8, e_phentsize = ucast (field b 54 2),
     e_phnum = ucast (field b 56 2)\<rparr>"

definition phdr_of :: "u8 list \<Rightarrow> elf64_phdr" where
  "phdr_of b = \<lparr>p_type = ucast (field b 0 4), p_flags = ucast (field b 4 4), p_offset = field b 8 8,
     p_vaddr = field b 16 8, p_filesz = field b 32 8, p_memsz = field b 40 8\<rparr>"

abbreviation EHDR_SIZE :: u64 where "EHDR_SIZE \<equiv> 64"
abbreviation PHDR_SIZE :: u64 where "PHDR_SIZE \<equiv> 56"

text \<open>
  A pointer into the archive is an offset from its start. The index of \<^verbatim>\<open>program_headers[i]\<close> counts
  up to the 16-bit \<^verbatim>\<open>e_phnum\<close>.
\<close>

definition read_ehdr :: "u8 list \<Rightarrow> u64 \<Rightarrow> elf64_ehdr option" where
  "read_ehdr data p = map_option ehdr_of (slice data (unat p) 64)"

definition read_phdr :: "u8 list \<Rightarrow> u64 \<Rightarrow> u64 \<Rightarrow> elf64_phdr option" where
  "read_phdr data phdrs i = map_option phdr_of (slice data (unat (phdrs + i * PHDR_SIZE)) 56)"

definition phdr_indices :: "elf64_ehdr \<Rightarrow> u64 list" where
  "phdr_indices header = indices 0 (unat (e_phnum header))"

section \<open>The loader of fs/elf.c\<close>

record xbks_elf_image =
  image_entry :: u64
  image_base :: u64
  image_size :: u64

definition add_overflows_u64 :: "u64 \<Rightarrow> u64 \<Rightarrow> bool" where
  "add_overflows_u64 lhs rhs \<longleftrightarrow> (- 1) - lhs < rhs"

abbreviation ET_EXEC :: u16 where "ET_EXEC \<equiv> 2"
abbreviation ET_DYN :: u16 where "ET_DYN \<equiv> 3"
abbreviation EM_X86_64 :: u16 where "EM_X86_64 \<equiv> 62"
abbreviation PT_LOAD :: u32 where "PT_LOAD \<equiv> 1"

definition elf_magic :: "elf64_ehdr \<Rightarrow> bool" where
  "elf_magic header \<longleftrightarrow> e_ident header ! 0 = 0x7f \<and> e_ident header ! 1 = chr (CHR ''E'') \<and>
     e_ident header ! 2 = chr (CHR ''L'') \<and> e_ident header ! 3 = chr (CHR ''F'') \<and>
     e_ident header ! 4 = 2 \<and> e_ident header ! 5 = 1"

text \<open>\<open>Some None\<close> where the C function returns false; a null \<^verbatim>\<open>file\<close> is \<^term>\<open>None\<close>.\<close>

definition validate_elf_header ::
  "u8 list \<Rightarrow> xbks_ramdisk_file option \<Rightarrow> (u64 \<times> elf64_ehdr) option option" where
  "validate_elf_header data file =
     (case file of
        None \<Rightarrow> Some None
      | Some f \<Rightarrow>
          (case file_data f of
             None \<Rightarrow> Some None
           | Some p \<Rightarrow>
               if directory f \<or> file_size f < EHDR_SIZE then Some None
               else do {
                 header \<leftarrow> read_ehdr data p;
                 if \<not> elf_magic header \<or>
                    (e_type header \<noteq> ET_EXEC \<and> e_type header \<noteq> ET_DYN) \<or>
                    e_machine header \<noteq> EM_X86_64 \<or>
                    ucast (e_phentsize header) \<noteq> PHDR_SIZE \<or> e_phnum header = 0
                 then Some None
                 else if e_phoff header > file_size f \<or>
                    ucast (e_phnum header) > ((- 1) - e_phoff header) div PHDR_SIZE \<or>
                    e_phoff header + ucast (e_phnum header) * PHDR_SIZE > file_size f
                 then Some None
                 else Some (Some (p, header)) }))"

text \<open>
  The first loop: \<open>Some None\<close> where a segment is refused, otherwise \<^verbatim>\<open>min_vaddr\<close>, \<^verbatim>\<open>max_vaddr\<close> and
  \<^verbatim>\<open>found_load_segment\<close>.
\<close>

fun scan_segments ::
  "u8 list \<Rightarrow> u64 \<Rightarrow> u64 \<Rightarrow> u64 list \<Rightarrow> u64 \<times> u64 \<times> bool \<Rightarrow> (u64 \<times> u64 \<times> bool) option option" where
  "scan_segments data phdrs file_sz [] (lo, hi, found) = Some (Some (lo, hi, found))"
| "scan_segments data phdrs file_sz (i # is) (lo, hi, found) = do {
     ph \<leftarrow> read_phdr data phdrs i;
     if p_type ph \<noteq> PT_LOAD then scan_segments data phdrs file_sz is (lo, hi, found)
     else if p_memsz ph < p_filesz ph \<or> add_overflows_u64 (p_offset ph) (p_filesz ph) \<or>
        p_offset ph + p_filesz ph > file_sz \<or> add_overflows_u64 (p_vaddr ph) (p_memsz ph)
     then Some None
     else scan_segments data phdrs file_sz is
       (if p_vaddr ph < lo then p_vaddr ph else lo,
        if p_vaddr ph + p_memsz ph > hi then p_vaddr ph + p_memsz ph else hi, True) }"

text \<open>\<^verbatim>\<open>memcpy\<close> from a block of the archive to kernel memory.\<close>

fun write_bytes :: "mem \<Rightarrow> u64 \<Rightarrow> u8 list \<Rightarrow> mem" where
  "write_bytes m a [] = m"
| "write_bytes m a (b # bs) = write_bytes (m(a := b)) (a + 1) bs"

text \<open>The second loop: the result of the C function so far and the memory.\<close>

fun copy_segments ::
  "u8 list \<Rightarrow> u64 \<Rightarrow> u64 \<Rightarrow> u64 \<Rightarrow> u64 \<Rightarrow> u64 \<Rightarrow> u64 list \<Rightarrow> mem \<Rightarrow> (bool \<times> mem) option" where
  "copy_segments data base phdrs arena_base arena_size min_vaddr [] m = Some (True, m)"
| "copy_segments data base phdrs arena_base arena_size min_vaddr (i # is) m = do {
     ph \<leftarrow> read_phdr data phdrs i;
     if p_type ph \<noteq> PT_LOAD
     then copy_segments data base phdrs arena_base arena_size min_vaddr is m
     else
       let relative_vaddr = p_vaddr ph - min_vaddr in
       if relative_vaddr > arena_size \<or> p_memsz ph > arena_size - relative_vaddr then Some (False, m)
       else do {
         bytes \<leftarrow> slice data (unat (base + p_offset ph)) (unat (p_filesz ph));
         copy_segments data base phdrs arena_base arena_size min_vaddr is
           (write_bytes m (arena_base + relative_vaddr) bytes) } }"

definition xbks_elf_load_image ::
  "u8 list \<Rightarrow> xbks_ramdisk_file option \<Rightarrow> u64 \<Rightarrow> u64 \<Rightarrow> mem \<Rightarrow> (xbks_elf_image option \<times> mem) option" where
  "xbks_elf_load_image data file arena_base arena_size m =
     (if arena_base = 0 \<or> arena_size = 0 then Some (None, m)
      else do {
        valid \<leftarrow> validate_elf_header data file;
        case valid of
          None \<Rightarrow> Some (None, m)
        | Some (base, header) \<Rightarrow>
            let program_headers = base + e_phoff header; file_sz = file_size (the file) in do {
              scan \<leftarrow> scan_segments data program_headers file_sz (phdr_indices header) (- 1, 0, False);
              case scan of
                None \<Rightarrow> Some (None, m)
              | Some (min_vaddr, max_vaddr, found) \<Rightarrow>
                  if \<not> found \<or> max_vaddr < min_vaddr \<or> max_vaddr - min_vaddr > arena_size then Some (None, m)
                  else if e_entry header < min_vaddr \<or> e_entry header \<ge> max_vaddr then Some (None, m)
                  else do {
                    (ok, m') \<leftarrow> copy_segments data base program_headers arena_base arena_size min_vaddr
                      (phdr_indices header) (memset m arena_base 0 arena_size);
                    if \<not> ok then Some (None, m')
                    else Some (Some \<lparr>image_entry = arena_base + (e_entry header - min_vaddr),
                           image_base = arena_base, image_size = max_vaddr - min_vaddr\<rparr>, m') } } })"

section \<open>Bounds\<close>

text \<open>A file handed out by the ramdisk: its block lies in the archive.\<close>

definition file_ok :: "u8 list \<Rightarrow> xbks_ramdisk_file \<Rightarrow> bool" where
  "file_ok data f \<longleftrightarrow> length data < 2 ^ 63 \<and>
     (case file_data f of None \<Rightarrow> True | Some p \<Rightarrow> unat p + unat (file_size f) \<le> length data)"

text \<open>A header whose table of program headers lies in the file.\<close>

definition table_ok :: "u8 list \<Rightarrow> xbks_ramdisk_file \<Rightarrow> u64 \<Rightarrow> elf64_ehdr \<Rightarrow> bool" where
  "table_ok data f p h \<longleftrightarrow> file_ok data f \<and> file_data f = Some p \<and>
     unat (e_phoff h) + unat (e_phnum h) * 56 \<le> unat (file_size f)"

lemma unat_sum2: "unat a + unat b < 2 ^ 64 \<Longrightarrow> unat (a + b) = unat a + unat b" for a b :: u64
  using unat_add_lem [of a b] by simp

lemma read_ehdr_ok: "file_ok data f \<Longrightarrow> file_data f = Some p \<Longrightarrow> 64 \<le> unat (file_size f) \<Longrightarrow>
  \<exists>h. read_ehdr data p = Some h"
  by (simp add: file_ok_def read_ehdr_def slice_def)

lemma unat_ucast_u16: "unat (ucast (n :: u16) :: u64) = unat n"
proof -
  have "unat n < 2 ^ 16" using unsigned_less [of n] by simp
  then have "unat n < 2 ^ 64" by simp
  then show ?thesis by (simp add: unsigned_ucast_eq take_bit_nat_eq_self)
qed

lemma unat_table_size: "unat (ucast (n :: u16) * 56 :: u64) = unat n * 56"
proof -
  have "unat n < 2 ^ 16" using unsigned_less [of n] by simp
  then have "unat (ucast n :: u64) * unat (56 :: u64) < 2 ^ 64" by (simp add: unat_ucast_u16)
  then show ?thesis
    using unat_mult_lem [of "ucast n :: u64" 56] by (simp add: unat_ucast_u16)
qed

lemma table_end:
  assumes "e_phoff h \<le> sz" "unat (sz :: u64) < 2 ^ 63"
  shows "unat (e_phoff h + ucast (e_phnum h) * PHDR_SIZE) = unat (e_phoff h) + unat (e_phnum h) * 56"
proof -
  have "unat (e_phnum h) < 2 ^ 16" using unsigned_less [of "e_phnum h"] by simp
  then show ?thesis
    using assms by (simp add: unat_table_size unat_sum2 word_le_nat_alt)
qed

lemma validate_elf_header_ok:
  assumes f: "file_ok data f"
  shows "\<exists>r. validate_elf_header data (Some f) = Some r \<and> (\<forall>p h. r = Some (p, h) \<longrightarrow> table_ok data f p h)"
proof (cases "file_data f")
  case None
  then show ?thesis by (simp add: validate_elf_header_def)
next
  case (Some p)
  have size: "unat (file_size f) < 2 ^ 63" using f Some by (simp add: file_ok_def)
  show ?thesis
  proof (cases "directory f \<or> file_size f < 64")
    case True
    then show ?thesis using Some by (simp add: validate_elf_header_def)
  next
    case False
    then have "64 \<le> unat (file_size f)" by (simp add: word_less_nat_alt)
    from read_ehdr_ok [OF f Some this] obtain h where h: "read_ehdr data p = Some h" by blast
    have "table_ok data f p h"
      if "\<not> e_phoff h > file_size f" "\<not> e_phoff h + ucast (e_phnum h) * PHDR_SIZE > file_size f"
    proof -
      from that(1) have le: "e_phoff h \<le> file_size f" by (simp add: not_less)
      from that(2) have "e_phoff h + ucast (e_phnum h) * PHDR_SIZE \<le> file_size f" by (simp only: not_less)
      then show ?thesis
        unfolding word_le_nat_alt table_end [OF le size] by (simp add: table_ok_def f Some)
    qed
    then show ?thesis using False Some h by (auto simp: validate_elf_header_def)
  qed
qed

lemma table_index:
  assumes t: "table_ok data f p h" and i: "i \<in> set (phdr_indices h)"
  shows "\<exists>ph. read_phdr data (p + e_phoff h) i = Some ph"
proof -
  have "unat (e_phnum h) < 2 ^ 16" using unsigned_less [of "e_phnum h"] by simp
  obtain k where k: "i = of_nat k" "k < unat (e_phnum h)"
    using i by (auto simp: phdr_indices_def indices_def)
  then have ui: "unat i = k" using \<open>unat (e_phnum h) < 2 ^ 16\<close> by (simp add: unat_of_nat)
  have b: "unat p + unat (file_size f) < 2 ^ 63" "unat p + unat (file_size f) \<le> length data"
      "unat (e_phoff h) + unat (e_phnum h) * 56 \<le> unat (file_size f)"
    using t by (auto simp: table_ok_def file_ok_def)
  have m: "unat (i * 56) = k * 56"
    using unat_mult_lem [of i 56] ui k(2) \<open>unat (e_phnum h) < 2 ^ 16\<close> by simp
  have "Suc k * 56 \<le> unat (e_phnum h) * 56" using k(2) by (intro mult_le_mono1) simp
  then have k56: "k * 56 + 56 \<le> unat (e_phnum h) * 56" by simp
  have 1: "unat (p + e_phoff h) = unat p + unat (e_phoff h)" using b by (intro unat_sum2) simp
  have "unat (p + e_phoff h + i * 56) = unat p + unat (e_phoff h) + k * 56"
    unfolding 1 [symmetric] m [symmetric] using b k56 1 m by (intro unat_sum2) simp
  then show ?thesis using b k56 by (simp add: read_phdr_def slice_def)
qed

text \<open>The loadable segments of an image, in the order of its table.\<close>

definition segments :: "u8 list \<Rightarrow> u64 \<Rightarrow> u64 list \<Rightarrow> elf64_phdr list" where
  "segments data phdrs is = filter (\<lambda>ph. p_type ph = PT_LOAD) (List.map_filter (read_phdr data phdrs) is)"

definition segment_ok :: "u64 \<Rightarrow> elf64_phdr \<Rightarrow> bool" where
  "segment_ok file_sz ph \<longleftrightarrow> p_filesz ph \<le> p_memsz ph \<and>
     unat (p_offset ph) + unat (p_filesz ph) \<le> unat file_sz \<and>
     unat (p_vaddr ph) + unat (p_memsz ph) < 2 ^ 64"

lemma add_overflows_iff: "add_overflows_u64 a b \<longleftrightarrow> 2 ^ 64 \<le> unat a + unat b"
proof -
  have "unat a < 2 ^ 64" using unsigned_less [of a] by simp
  moreover have "unat ((- 1) - a) = 2 ^ 64 - 1 - unat a"
    by (simp only: unat_sub_if' unat_max64) (use \<open>unat a < 2 ^ 64\<close> in simp)
  ultimately show ?thesis unfolding add_overflows_u64_def word_less_nat_alt by auto
qed

lemma segment_ok_iff:
  "segment_ok sz ph \<longleftrightarrow> \<not> (p_memsz ph < p_filesz ph \<or> add_overflows_u64 (p_offset ph) (p_filesz ph) \<or>
     p_offset ph + p_filesz ph > sz \<or> add_overflows_u64 (p_vaddr ph) (p_memsz ph))"
proof (cases "add_overflows_u64 (p_offset ph) (p_filesz ph)")
  case True
  then have "2 ^ 64 \<le> unat (p_offset ph) + unat (p_filesz ph)" by (simp only: add_overflows_iff)
  moreover have "unat sz < 2 ^ 64" using unsigned_less [of sz] by simp
  ultimately show ?thesis using True by (simp add: segment_ok_def)
next
  case False
  then have "unat (p_offset ph) + unat (p_filesz ph) < 2 ^ 64" by (simp only: add_overflows_iff not_le)
  from unat_sum2 [OF this]
  have "p_offset ph + p_filesz ph > sz \<longleftrightarrow> \<not> unat (p_offset ph) + unat (p_filesz ph) \<le> unat sz"
    by (simp add: word_less_nat_alt not_le)
  moreover have "add_overflows_u64 (p_vaddr ph) (p_memsz ph) \<longleftrightarrow> \<not> unat (p_vaddr ph) + unat (p_memsz ph) < 2 ^ 64"
    by (simp only: add_overflows_iff not_less)
  ultimately show ?thesis using False by (auto simp: segment_ok_def not_less)
qed

section \<open>Loading\<close>

definition readable :: "u8 list \<Rightarrow> u64 \<Rightarrow> u64 list \<Rightarrow> bool" where
  "readable data phdrs is \<longleftrightarrow> (\<forall>i \<in> set is. read_phdr data phdrs i \<noteq> None)"

lemma segments_simps:
  "segments data phdrs [] = []"
  "read_phdr data phdrs i = Some ph \<Longrightarrow> segments data phdrs (i # is) =
     (if p_type ph = PT_LOAD then ph # segments data phdrs is else segments data phdrs is)"
  by (simp_all add: segments_def List.map_filter_def)

lemma scan_segments_ok:
  "readable data phdrs is \<Longrightarrow> \<exists>r. scan_segments data phdrs sz is (lo, hi, found) = Some r \<and>
    (r = None \<longleftrightarrow> \<not> list_all (segment_ok sz) (segments data phdrs is)) \<and>
    (\<forall>lo' hi' found'. r = Some (lo', hi', found') \<longrightarrow>
       lo' \<le> lo \<and> hi \<le> hi' \<and> (found' \<longleftrightarrow> found \<or> segments data phdrs is \<noteq> []) \<and>
       (\<forall>ph \<in> set (segments data phdrs is). lo' \<le> p_vaddr ph \<and> unat (p_vaddr ph) + unat (p_memsz ph) \<le> unat hi'))"
proof (induction "is" arbitrary: lo hi found)
  case Nil
  then show ?case by (simp add: segments_simps)
next
  case (Cons i "is")
  obtain ph where ph: "read_phdr data phdrs i = Some ph" using Cons.prems by (auto simp: readable_def)
  have rd: "readable data phdrs is" using Cons.prems by (simp add: readable_def)
  show ?case
  proof (cases "p_type ph = PT_LOAD")
    case False
    then show ?thesis using Cons.IH [OF rd, of lo hi found] ph by (simp add: segments_simps)
  next
    case True
    show ?thesis
    proof (cases "segment_ok sz ph")
      case False
      then show ?thesis
        using ph True unfolding segment_ok_iff by (auto simp: segments_simps segment_ok_iff)
    next
      case ok: True
      let ?lo = "if p_vaddr ph < lo then p_vaddr ph else lo"
      let ?hi = "if p_vaddr ph + p_memsz ph > hi then p_vaddr ph + p_memsz ph else hi"
      have sum: "unat (p_vaddr ph + p_memsz ph) = unat (p_vaddr ph) + unat (p_memsz ph)"
        using ok by (intro unat_sum2) (simp add: segment_ok_def)
      have step: "scan_segments data phdrs sz (i # is) (lo, hi, found) =
          scan_segments data phdrs sz is (?lo, ?hi, True)"
        using ph True ok unfolding segment_ok_iff by simp
      have lo: "?lo \<le> lo" "?lo \<le> p_vaddr ph" by auto
      have hi: "hi \<le> ?hi" "unat (p_vaddr ph) + unat (p_memsz ph) \<le> unat ?hi"
        using sum by (auto simp: word_less_nat_alt word_le_nat_alt)
      obtain r where r: "scan_segments data phdrs sz is (?lo, ?hi, True) = Some r"
        "r = None \<longleftrightarrow> \<not> list_all (segment_ok sz) (segments data phdrs is)"
        "\<forall>lo' hi' found'. r = Some (lo', hi', found') \<longrightarrow>
           lo' \<le> ?lo \<and> ?hi \<le> hi' \<and> (found' \<longleftrightarrow> True \<or> segments data phdrs is \<noteq> []) \<and>
           (\<forall>ph \<in> set (segments data phdrs is). lo' \<le> p_vaddr ph \<and> unat (p_vaddr ph) + unat (p_memsz ph) \<le> unat hi')"
        using Cons.IH [OF rd, of ?lo ?hi True] by blast
      have seg: "segments data phdrs (i # is) = ph # segments data phdrs is"
        using ph True by (simp add: segments_simps)
      have ex: "lo' \<le> lo \<and> hi \<le> hi' \<and> found' \<and>
          (\<forall>ph \<in> set (segments data phdrs (i # is)). lo' \<le> p_vaddr ph \<and> unat (p_vaddr ph) + unat (p_memsz ph) \<le> unat hi')"
        if "r = Some (lo', hi', found')" for lo' hi' found'
      proof -
        have *: "lo' \<le> ?lo" "?hi \<le> hi'" "found'"
          "\<forall>ph \<in> set (segments data phdrs is). lo' \<le> p_vaddr ph \<and> unat (p_vaddr ph) + unat (p_memsz ph) \<le> unat hi'"
          using r(3) that by blast+
        have "unat ?hi \<le> unat hi'" using *(2) by (simp only: word_le_nat_alt)
        then show ?thesis
          unfolding seg using * lo hi order_trans by (metis (no_types, lifting) list.set_intros set_ConsD)
      qed
      show ?thesis unfolding step r(1) using ok r(2) ex unfolding seg by auto
    qed
  qed
qed

lemma write_bytes_apply [mem_simps]:
  "length bs \<le> 2 ^ 64 \<Longrightarrow>
   write_bytes m a bs x = (if unat (x - a) < length bs then bs ! unat (x - a) else m x)"
proof (induction bs arbitrary: m a)
  case (Cons b bs)
  show ?case
  proof (cases "x = a")
    case True
    then have "\<not> unat (x - (a + 1)) < length bs" using Cons.prems by (simp add: unat_max64)
    then show ?thesis using True Cons by simp
  next
    case False
    then show ?thesis using Cons offset_Suc [OF False] by simp
  qed
qed simp

text \<open>The byte at \<open>x\<close> after the segments are laid over memory, the image being moved by \<open>origin\<close>.\<close>

definition overlay :: "u8 list \<Rightarrow> u64 \<Rightarrow> u64 \<Rightarrow> elf64_phdr list \<Rightarrow> u64 \<Rightarrow> u8 \<Rightarrow> u8" where
  "overlay data base origin segs x v =
     fold (\<lambda>ph v. if unat (x - (origin + p_vaddr ph)) < unat (p_filesz ph)
                  then data ! (unat base + unat (p_offset ph) + unat (x - (origin + p_vaddr ph))) else v) segs v"

definition fits :: "u64 \<Rightarrow> u64 \<Rightarrow> elf64_phdr \<Rightarrow> bool" where
  "fits lo arena ph \<longleftrightarrow> lo \<le> p_vaddr ph \<and> unat (p_vaddr ph) + unat (p_memsz ph) \<le> unat lo + unat arena"

lemma fits_relative:
  assumes "fits lo arena ph"
  shows "\<not> p_vaddr ph - lo > arena" "\<not> p_memsz ph > arena - (p_vaddr ph - lo)"
    "unat (p_vaddr ph - lo) + unat (p_memsz ph) \<le> unat arena"
proof -
  have "unat (p_vaddr ph - lo) = unat (p_vaddr ph) - unat lo"
    using assms by (simp add: fits_def unat_sub_if' word_le_nat_alt)
  then show a: "unat (p_vaddr ph - lo) + unat (p_memsz ph) \<le> unat arena"
    using assms unfolding fits_def word_le_nat_alt by linarith
  then show b: "\<not> p_vaddr ph - lo > arena" by (simp add: word_less_nat_alt)
  have "unat (arena - (p_vaddr ph - lo)) = unat arena - unat (p_vaddr ph - lo)"
    using a by (simp add: unat_sub_if')
  then show "\<not> p_memsz ph > arena - (p_vaddr ph - lo)" using a by (simp add: word_less_nat_alt)
qed

lemma copy_segments_ok:
  assumes base: "unat base + unat sz \<le> length data" "length data < 2 ^ 63"
  shows "readable data phdrs is \<Longrightarrow>
    \<forall>ph \<in> set (segments data phdrs is). segment_ok sz ph \<and> fits lo arena_size ph \<Longrightarrow>
    \<exists>m'. copy_segments data base phdrs arena_base arena_size lo is m = Some (True, m') \<and>
      (\<forall>x. m' x = overlay data base (arena_base - lo) (segments data phdrs is) x (m x))"
proof (induction "is" arbitrary: m)
  case Nil
  then show ?case by (simp add: segments_simps overlay_def)
next
  case (Cons i "is")
  obtain ph where ph: "read_phdr data phdrs i = Some ph" using Cons.prems by (auto simp: readable_def)
  have rd: "readable data phdrs is" using Cons.prems by (simp add: readable_def)
  show ?case
  proof (cases "p_type ph = PT_LOAD")
    case False
    then show ?thesis using Cons ph rd by (simp add: segments_simps)
  next
    case True
    have ok: "segment_ok sz ph" "fits lo arena_size ph" using Cons.prems(2) ph True by (auto simp: segments_simps)
    note rel = fits_relative [OF ok(2)]
    have off: "unat (p_offset ph) + unat (p_filesz ph) \<le> unat sz" using ok(1) by (simp add: segment_ok_def)
    have ub: "unat (base + p_offset ph) = unat base + unat (p_offset ph)"
      using off base by (intro unat_sum2) simp
    let ?bytes = "take (unat (p_filesz ph)) (drop (unat base + unat (p_offset ph)) data)"
    have sl: "slice data (unat (base + p_offset ph)) (unat (p_filesz ph)) = Some ?bytes"
      using off base ub by (simp add: slice_def)
    have len: "length ?bytes = unat (p_filesz ph)" using off base by simp
    define m1 where "m1 = write_bytes m (arena_base + (p_vaddr ph - lo)) ?bytes"
    have addr: "arena_base + (p_vaddr ph - lo) = arena_base - lo + p_vaddr ph" by simp
    have m1: "m1 x = (if unat (x - (arena_base - lo + p_vaddr ph)) < unat (p_filesz ph)
        then data ! (unat base + unat (p_offset ph) + unat (x - (arena_base - lo + p_vaddr ph))) else m x)" for x
      unfolding m1_def addr using off base len
      by (subst write_bytes_apply) (auto simp del: length_take length_drop)
    obtain m' where m': "copy_segments data base phdrs arena_base arena_size lo is m1 = Some (True, m')"
      "\<forall>x. m' x = overlay data base (arena_base - lo) (segments data phdrs is) x (m1 x)"
      using Cons.IH [OF rd, of m1] Cons.prems(2) ph True by (auto simp: segments_simps)
    have "copy_segments data base phdrs arena_base arena_size lo (i # is) m = Some (True, m')"
      using ph True rel(1,2) sl m'(1) by (simp add: Let_def m1_def)
    moreover have "m' x = overlay data base (arena_base - lo) (segments data phdrs (i # is)) x (m x)" for x
      using m'(2) m1 [of x] ph True by (simp add: segments_simps overlay_def)
    ultimately show ?thesis by blast
  qed
qed

lemma overlay_outside:
  assumes "\<forall>ph \<in> set segs. segment_ok sz ph \<and> fits lo arena ph"
    and "\<not> in_block arena_base (unat arena) x"
  shows "overlay data base (arena_base - lo) segs x v = v"
  using assms(1)
proof (induction segs arbitrary: v)
  case (Cons ph segs)
  have f: "segment_ok sz ph" "fits lo arena ph" using Cons.prems by auto
  have "\<not> unat (x - (arena_base - lo + p_vaddr ph)) < unat (p_filesz ph)"
  proof
    assume lt: "unat (x - (arena_base - lo + p_vaddr ph)) < unat (p_filesz ph)"
    have r: "unat (p_vaddr ph - lo) + unat (p_memsz ph) \<le> unat arena" by (rule fits_relative(3) [OF f(2)])
    have le: "unat (p_filesz ph) \<le> unat (p_memsz ph)" using f(1) by (simp add: segment_ok_def word_le_nat_alt)
    have "unat arena < 2 ^ 64" using unsigned_less [of arena] by simp
    then have "unat (x - (arena_base - lo + p_vaddr ph) + (p_vaddr ph - lo)) =
        unat (x - (arena_base - lo + p_vaddr ph)) + unat (p_vaddr ph - lo)"
      using lt r le by (intro unat_sum2) linarith
    moreover have "x - (arena_base - lo + p_vaddr ph) + (p_vaddr ph - lo) = x - arena_base" by simp
    ultimately have "unat (x - arena_base) < unat arena" using lt r le by simp
    then show False using assms(2) by (simp add: in_block_def)
  qed
  then show ?case using Cons by (simp add: overlay_def)
qed (simp add: overlay_def)

text \<open>The image a successful load leaves, and that a refused one has touched nothing.\<close>

definition load_outcome ::
  "u8 list \<Rightarrow> xbks_ramdisk_file \<Rightarrow> u64 \<Rightarrow> u64 \<Rightarrow> mem \<Rightarrow> xbks_elf_image option \<times> mem \<Rightarrow> bool" where
  "load_outcome data f arena_base arena_size m r \<longleftrightarrow>
     (case r of
        (None, m') \<Rightarrow> m' = m
      | (Some img, m') \<Rightarrow>
          (\<exists>p h lo segs. file_data f = Some p \<and> read_ehdr data p = Some h \<and>
             segs = segments data (p + e_phoff h) (phdr_indices h) \<and> segs \<noteq> [] \<and>
             (\<forall>ph \<in> set segs. segment_ok (file_size f) ph \<and> fits lo arena_size ph) \<and>
             m' = (\<lambda>x. overlay data p (arena_base - lo) segs x
                     (if in_block arena_base (unat arena_size) x then 0 else m x)) \<and>
             image_entry img = arena_base + (e_entry h - lo) \<and> image_base img = arena_base \<and>
             unat (e_entry h - lo) < unat (image_size img) \<and> unat (image_size img) \<le> unat arena_size))"

lemma elf_load_image_ok:
  assumes f: "file_ok data f"
  shows "\<exists>r. xbks_elf_load_image data (Some f) arena_base arena_size m = Some r \<and>
    load_outcome data f arena_base arena_size m r"
proof -
  obtain v where v: "validate_elf_header data (Some f) = Some v"
      "\<forall>p h. v = Some (p, h) \<longrightarrow> table_ok data f p h"
    using validate_elf_header_ok [OF f] by blast
  show ?thesis
  proof (cases "arena_base = 0 \<or> arena_size = 0 \<or> v = None")
    case True
    then show ?thesis using v(1) by (auto simp: xbks_elf_load_image_def load_outcome_def)
  next
    case False
    then obtain p h where ph: "v = Some (p, h)" by auto
    have t: "table_ok data f p h" using v(2) ph by simp
    have fd: "file_data f = Some p" using t by (simp add: table_ok_def)
    have rh: "read_ehdr data p = Some h"
      using v(1) ph fd by (auto simp: validate_elf_header_def split: if_splits bind_splits)
    let ?is = "phdr_indices h" and ?t = "p + e_phoff h"
    let ?segs = "segments data ?t ?is"
    have rd: "readable data ?t ?is" using table_index [OF t] by (auto simp: readable_def)
    obtain s where sc: "scan_segments data ?t (file_size f) ?is (- 1, 0, False) = Some s \<and>
        (s = None \<longleftrightarrow> \<not> list_all (segment_ok (file_size f)) ?segs) \<and>
        (\<forall>lo hi found. s = Some (lo, hi, found) \<longrightarrow>
           lo \<le> - 1 \<and> 0 \<le> hi \<and> (found \<longleftrightarrow> False \<or> ?segs \<noteq> []) \<and>
           (\<forall>ph \<in> set ?segs. lo \<le> p_vaddr ph \<and> unat (p_vaddr ph) + unat (p_memsz ph) \<le> unat hi))"
      using scan_segments_ok [OF rd, of "file_size f" "- 1" 0 False] by (rule exE)
    note s = sc [THEN conjunct1] sc [THEN conjunct2, THEN conjunct1] sc [THEN conjunct2, THEN conjunct2, rule_format]
    show ?thesis
    proof (cases s)
      case None
      then show ?thesis using False v(1) ph s(1) by (simp add: xbks_elf_load_image_def load_outcome_def Let_def)
    next
      case (Some y)
      obtain lo hi found where y: "s = Some (lo, hi, found)" using Some by (cases y) auto
      show ?thesis
      proof (cases "\<not> found \<or> hi < lo \<or> hi - lo > arena_size \<or> e_entry h < lo \<or> e_entry h \<ge> hi")
        case True
        then show ?thesis using False v(1) ph s(1) y
          by (auto simp: xbks_elf_load_image_def load_outcome_def Let_def)
      next
        case ok: False
        have hl: "unat (hi - lo) = unat hi - unat lo" "unat lo \<le> unat hi" "unat hi \<le> unat lo + unat arena_size"
          using ok by (auto simp: unat_sub_if' word_less_nat_alt word_le_nat_alt not_less)
        have segs: "\<forall>ph \<in> set ?segs. segment_ok (file_size f) ph \<and> fits lo arena_size ph"
        proof
          fix ph assume i: "ph \<in> set ?segs"
          have "list_all (segment_ok (file_size f)) ?segs" using s(2) y by blast
          then have "segment_ok (file_size f) ph" using i by (simp add: list_all_iff)
          moreover have "lo \<le> p_vaddr ph" "unat (p_vaddr ph) + unat (p_memsz ph) \<le> unat hi"
            using s(3) [OF y] i by simp_all
          ultimately show "segment_ok (file_size f) ph \<and> fits lo arena_size ph"
            using hl(3) unfolding fits_def by linarith
        qed
        have b: "unat p + unat (file_size f) \<le> length data" "length data < 2 ^ 63"
          using t by (auto simp: table_ok_def file_ok_def)
        obtain m' where m': "copy_segments data p ?t arena_base arena_size lo ?is (memset m arena_base 0 arena_size) =
            Some (True, m')"
          "\<forall>x. m' x = overlay data p (arena_base - lo) ?segs x (memset m arena_base 0 arena_size x)"
          using copy_segments_ok [OF b rd segs] by blast
        have run: "xbks_elf_load_image data (Some f) arena_base arena_size m =
            Some (Some \<lparr>image_entry = arena_base + (e_entry h - lo), image_base = arena_base,
              image_size = hi - lo\<rparr>, m')"
          using False v(1) ph s(1) y ok m'(1) by (simp add: xbks_elf_load_image_def Let_def)
        have mem: "m' = (\<lambda>x. overlay data p (arena_base - lo) ?segs x
            (if in_block arena_base (unat arena_size) x then 0 else m x))"
          using m'(2) by (intro ext) (simp add: memset_apply)
        have "unat (e_entry h - lo) < unat (hi - lo)" "unat (hi - lo) \<le> unat arena_size"
          using ok hl(1) by (auto simp: unat_sub_if' word_less_nat_alt word_le_nat_alt not_less)
        moreover have "?segs \<noteq> []" using s(3) [OF y] ok by simp
        ultimately show ?thesis
          using run fd rh segs mem unfolding load_outcome_def by fastforce
      qed
    qed
  qed
qed

section \<open>A small image\<close>

definition demo_phdr :: "u8 list" where
  "demo_phdr = [1, 0, 0, 0] @ [7, 0, 0, 0] @ [120, 0, 0, 0, 0, 0, 0, 0] @ [0, 0, 1, 0, 0, 0, 0, 0] @
     [0, 0, 0, 0, 0, 0, 0, 0] @ [3, 0, 0, 0, 0, 0, 0, 0] @ [8, 0, 0, 0, 0, 0, 0, 0] @ [0, 16, 0, 0, 0, 0, 0, 0]"

definition demo_ehdr :: "u8 list" where
  "demo_ehdr =
     [0x7f, 69, 76, 70, 2, 1, 1, 0, 0, 0, 0, 0, 0, 0, 0, 0] @ [2, 0] @ [62, 0] @ [1, 0, 0, 0] @
     [0, 0, 1, 0, 0, 0, 0, 0] @ [64, 0, 0, 0, 0, 0, 0, 0] @ [0, 0, 0, 0, 0, 0, 0, 0] @ [0, 0, 0, 0] @
     [64, 0] @ [56, 0] @ [1, 0] @ [0, 0] @ [0, 0] @ [0, 0]"

text \<open>One segment of 3 bytes of code and 5 bytes of zeroes at address \<^verbatim>\<open>0x10000\<close>.\<close>

definition demo_elf :: "u8 list" where
  "demo_elf = demo_ehdr @ demo_phdr @ [0x90, 0x90, 0xc3]"

definition demo_elf_file :: xbks_ramdisk_file where
  "demo_elf_file = \<lparr>file_path = lit ''/bin/sh'', file_data = Some 0, file_size = 123,
     directory = False, executable = True\<rparr>"

lemma demo_elf_length: "length demo_elf = 123"
  by (simp add: demo_elf_def demo_ehdr_def demo_phdr_def)

lemma demo_elf_file_ok: "file_ok demo_elf demo_elf_file"
  by (simp add: file_ok_def demo_elf_file_def demo_elf_length)

lemma demo_elf_headers:
  "validate_elf_header demo_elf (Some demo_elf_file) = Some (Some (0, ehdr_of demo_ehdr))"
  "e_phoff (ehdr_of demo_ehdr) = 64" "e_entry (ehdr_of demo_ehdr) = 0x10000" "phdr_indices (ehdr_of demo_ehdr) = [0]"
  "scan_segments demo_elf 64 123 [0] (- 1, 0, False) = Some (Some (0x10000, 0x10008, True))"
  by code_simp+

lemma demo_elf_copy: "\<exists>m'. copy_segments demo_elf 0 64 0x200000 16 0x10000 [0] m = Some (True, m')"
proof -
  have "map_option fst (copy_segments demo_elf 0 64 0x200000 16 0x10000 [0] m) = Some True" by code_simp
  then show ?thesis by auto
qed

section \<open>Properties\<close>

text \<open>
  Property C19. \<^verbatim>\<open>xbks_elf_load_image\<close> trusts no field of the image: for every file whose block lies in
  the archive the call ends and reads inside the archive only. A refused image leaves memory as it was.
  An accepted one has a loadable segment, each of them lies in the file and in the arena, the arena holds
  the bytes of the segments (a later one over an earlier one) over zeroes, no byte outside of the
  arena changes, and the entry point lies in the image, which fits the arena.
\<close>

theorem elf_load_image_correct:
  assumes "file_ok data f"
  shows "\<exists>r. xbks_elf_load_image data (Some f) arena_base arena_size m = Some r \<and>
    load_outcome data f arena_base arena_size m r \<and>
    (\<forall>x. \<not> in_block arena_base (unat arena_size) x \<longrightarrow> snd r x = m x)"
proof -
  obtain r where r: "xbks_elf_load_image data (Some f) arena_base arena_size m = Some r"
      "load_outcome data f arena_base arena_size m r"
    using elf_load_image_ok [OF assms] by blast
  have "snd r x = m x" if "\<not> in_block arena_base (unat arena_size) x" for x
    using r(2) that overlay_outside [of _ "file_size f" _ arena_size arena_base x]
    by (auto simp: load_outcome_def split: prod.splits option.splits)
  with r show ?thesis by blast
qed

theorem elf_load_image_correct_witness:
  "map_option fst (xbks_elf_load_image demo_elf (Some demo_elf_file) 0x200000 16 (\<lambda>a. 7)) =
     Some (Some \<lparr>image_entry = 0x200000, image_base = 0x200000, image_size = 8\<rparr>) \<and>
   (\<exists>r. xbks_elf_load_image demo_elf (Some demo_elf_file) 0x200000 16 (\<lambda>a. 7) = Some r \<and>
     load_outcome demo_elf demo_elf_file 0x200000 16 (\<lambda>a. 7) r \<and>
     (\<forall>x. \<not> in_block 0x200000 (unat (16 :: u64)) x \<longrightarrow> snd r x = 7))"
proof
  obtain m' where "copy_segments demo_elf 0 64 0x200000 16 0x10000 [0] (memset (\<lambda>a. 7) 0x200000 0 16) = Some (True, m')"
    using demo_elf_copy by blast
  then show "map_option fst (xbks_elf_load_image demo_elf (Some demo_elf_file) 0x200000 16 (\<lambda>a. 7)) =
     Some (Some \<lparr>image_entry = 0x200000, image_base = 0x200000, image_size = 8\<rparr>)"
    using demo_elf_headers by (simp add: xbks_elf_load_image_def Let_def demo_elf_file_def)
qed (rule elf_load_image_correct [OF demo_elf_file_ok])

end
