(* ===== verification/Process.thy ===== *)
theory Process
  imports Vmm Elf_Loader Devices
begin

text \<open>
  The process table and program loading, the first half of \<^verbatim>\<open>kernel/process.c\<close>.

  The kernel runs on the page tables of the current process, so that it reaches user memory through
  them: a user address is translated by the tables that the CR3 register points to, and an access to
  an address that is not mapped is a page fault, which this kernel does not handle: it is
  \<^term>\<open>None\<close>, as is a read outside of the archive. Every user page is mapped writable by this kernel, so
  that loads and stores fault alike. The archive is not part of the memory the frames come from.
\<close>

section \<open>State\<close>

abbreviation MAX_PROCESSES :: nat where "MAX_PROCESSES \<equiv> 16"
abbreviation MAX_FDS :: u64 where "MAX_FDS \<equiv> 16"
abbreviation MAX_ARGS :: nat where "MAX_ARGS \<equiv> 32"
abbreviation MAX_ENV :: nat where "MAX_ENV \<equiv> 32"
abbreviation MAX_STRING :: nat where "MAX_STRING \<equiv> 256"
abbreviation USER_IMAGE_MIN :: u64 where "USER_IMAGE_MIN \<equiv> 0x10000"
abbreviation XBKS_USER_TOP :: u64 where "XBKS_USER_TOP \<equiv> 0x0000800000000000"
abbreviation XBKS_USER_STACK_TOP :: u64 where "XBKS_USER_STACK_TOP \<equiv> 0x00007fffffffe000"
abbreviation XBKS_USER_STACK_SIZE :: u64 where "XBKS_USER_STACK_SIZE \<equiv> 16 * 4096"

datatype process_state = PROCESS_UNUSED | PROCESS_RUNNING | PROCESS_BLOCKED | PROCESS_ZOMBIE

datatype fd_type = FD_NONE | FD_STDIN | FD_STDOUT | FD_STDERR | FD_FILE | FD_DIR

record process_fd =
  fd_kind :: fd_type
  fd_file :: xbks_ramdisk_file
  fd_offset :: u64

record xbks_syscall_frame =
  r15 :: u64
  r14 :: u64
  r13 :: u64
  r12 :: u64
  r11 :: u64
  r10 :: u64
  r9 :: u64
  r8 :: u64
  rbp :: u64
  rdi :: u64
  rsi :: u64
  rdx :: u64
  rcx :: u64
  rbx :: u64
  rax :: u64
  user_rflags :: u64
  user_rip :: u64
  user_rsp :: u64

text \<open>A pointer to an element of \<^verbatim>\<open>processes\<close> is its index; \<^term>\<open>None\<close> is the null pointer.\<close>

record process =
  proc_pid :: u32
  proc_ppid :: u32
  proc_state :: process_state
  proc_cr3 :: u64
  proc_entry :: u64
  proc_stack :: u64
  proc_brk :: u64
  exit_status :: u32
  proc_parent :: "nat option"
  vfork_parent :: "nat option"
  saved_parent_frame :: xbks_syscall_frame
  proc_fds :: "process_fd list"

record kernel =
  mm :: mm_state
  io :: io_state
  rdisk :: ramdisk
  processes :: "process list"
  current_process :: "nat option"
  next_pid :: u32

definition zero_file :: xbks_ramdisk_file where
  "zero_file = \<lparr>file_path = path_buffer, file_data = None, file_size = 0, directory = False, executable = False\<rparr>"

definition zero_fd :: process_fd where
  "zero_fd = \<lparr>fd_kind = FD_NONE, fd_file = zero_file, fd_offset = 0\<rparr>"

definition zero_frame :: xbks_syscall_frame where
  "zero_frame = \<lparr>r15 = 0, r14 = 0, r13 = 0, r12 = 0, r11 = 0, r10 = 0, r9 = 0, r8 = 0, rbp = 0, rdi = 0,
     rsi = 0, rdx = 0, rcx = 0, rbx = 0, rax = 0, user_rflags = 0, user_rip = 0, user_rsp = 0\<rparr>"

definition zero_process :: process where
  "zero_process = \<lparr>proc_pid = 0, proc_ppid = 0, proc_state = PROCESS_UNUSED, proc_cr3 = 0, proc_entry = 0,
     proc_stack = 0, proc_brk = 0, exit_status = 0, proc_parent = None, vfork_parent = None,
     saved_parent_frame = zero_frame, proc_fds = replicate (unat MAX_FDS) zero_fd\<rparr>"

section \<open>User memory\<close>

definition user_load :: "mm_state \<Rightarrow> u64 \<Rightarrow> u8 option" where
  "user_load s a = do {
     physical \<leftarrow> xbks_vmm_translate s (cr3 s) a;
     Some (kmem s (xbks_phys_to_virt s physical)) }"

definition user_store :: "u64 \<Rightarrow> u8 \<Rightarrow> mm_state \<Rightarrow> mm_state option" where
  "user_store a v s = do {
     physical \<leftarrow> xbks_vmm_translate s (cr3 s) a;
     Some (s\<lparr>kmem := (kmem s)(xbks_phys_to_virt s physical := v)\<rparr>) }"

fun user_read :: "mm_state \<Rightarrow> u64 \<Rightarrow> nat \<Rightarrow> u8 list option" where
  "user_read s a 0 = Some []"
| "user_read s a (Suc n) = do {
     b \<leftarrow> user_load s a;
     bs \<leftarrow> user_read s (a + 1) n;
     Some (b # bs) }"

fun user_write :: "u64 \<Rightarrow> u8 list \<Rightarrow> mm_state \<Rightarrow> mm_state option" where
  "user_write a [] s = Some s"
| "user_write a (b # bs) s = do {
     s' \<leftarrow> user_store a b s;
     user_write (a + 1) bs s' }"

definition user_read_u64 :: "mm_state \<Rightarrow> u64 \<Rightarrow> u64 option" where
  "user_read_u64 s a = map_option le_word (user_read s a 8)"

fun to_le :: "nat \<Rightarrow> u64 \<Rightarrow> u8 list" where
  "to_le 0 v = []"
| "to_le (Suc n) v = ucast v # to_le n (drop_bit 8 v)"

definition negative_errno :: "nat \<Rightarrow> u64" where
  "negative_errno error = - of_nat error"

definition user_range_is_valid :: "u64 \<Rightarrow> u64 \<Rightarrow> bool" where
  "user_range_is_valid address len =
     (if len = 0 then True
      else if address < USER_IMAGE_MIN \<or> address \<ge> XBKS_USER_TOP then False
      else len - 1 < XBKS_USER_TOP - address)"

text \<open>
  The loop of \<^verbatim>\<open>copy_user_string\<close>, \<open>n\<close> iterations before the end of the array: \<open>Some None\<close> where
  the C function returns false, otherwise the array.
\<close>

fun copy_user_string_loop :: "mm_state \<Rightarrow> u64 \<Rightarrow> nat \<Rightarrow> nat \<Rightarrow> u8 list \<Rightarrow> u8 list option option" where
  "copy_user_string_loop s source i 0 dest = Some None"
| "copy_user_string_loop s source i (Suc n) dest =
     (if \<not> user_range_is_valid (source + of_nat i) 1 then Some None
      else do {
        c \<leftarrow> user_load s (source + of_nat i);
        dest' \<leftarrow> setb dest i c;
        if c = 0 then Some (Some dest')
        else copy_user_string_loop s source (Suc i) n dest' })"

definition copy_user_string :: "mm_state \<Rightarrow> u8 list \<Rightarrow> nat \<Rightarrow> u64 \<Rightarrow> u8 list option option" where
  "copy_user_string s dest capacity source =
     (if capacity = 0 \<or> \<not> user_range_is_valid source 1 then Some None
      else copy_user_string_loop s source 0 capacity dest)"

text \<open>The bytes \<^verbatim>\<open>copy_kernel_string\<close> stores at \<^verbatim>\<open>dest\<close>, from the first on.\<close>

fun copy_kernel_string :: "nat \<Rightarrow> u8 list \<Rightarrow> u8 list option" where
  "copy_kernel_string 0 src = Some []"
| "copy_kernel_string (Suc 0) src = Some [0]"
| "copy_kernel_string (Suc (Suc n)) [] = None"
| "copy_kernel_string (Suc (Suc n)) (c # src) =
     (if c \<noteq> 0 then map_option ((#) c) (copy_kernel_string (Suc n) src) else Some [0])"

fun copy_string_array_loop ::
  "mm_state \<Rightarrow> u64 \<Rightarrow> nat \<Rightarrow> nat \<Rightarrow> u8 list list \<Rightarrow> u8 list list option option" where
  "copy_string_array_loop s user_values count 0 strings = Some None"
| "copy_string_array_loop s user_values count (Suc n) strings =
     (if \<not> user_range_is_valid (user_values + of_nat (8 * count)) 8 then Some None
      else do {
        v \<leftarrow> user_read_u64 s (user_values + of_nat (8 * count));
        if v = 0 then Some (Some strings)
        else do {
          t \<leftarrow> copy_user_string s (replicate MAX_STRING 0) MAX_STRING v;
          case t of
            None \<Rightarrow> Some None
          | Some text \<Rightarrow> copy_string_array_loop s user_values (Suc count) n (strings @ [text]) } })"

definition copy_user_string_array :: "mm_state \<Rightarrow> nat \<Rightarrow> u64 \<Rightarrow> u8 list list option option" where
  "copy_user_string_array s max_strings user_values =
     (if user_values = 0 then Some (Some [])
      else copy_string_array_loop s user_values 0 max_strings [])"

section \<open>Process table\<close>

fun find_index :: "('a \<Rightarrow> bool) \<Rightarrow> 'a list \<Rightarrow> nat \<Rightarrow> nat option" where
  "find_index P [] i = None"
| "find_index P (x # xs) i = (if P x then Some i else find_index P xs (Suc i))"

definition fresh_process :: "u32 \<Rightarrow> process" where
  "fresh_process new_pid = zero_process\<lparr>proc_pid := new_pid, proc_state := PROCESS_RUNNING,
     proc_fds := (proc_fds zero_process)
       [0 := zero_fd\<lparr>fd_kind := FD_STDIN\<rparr>, 1 := zero_fd\<lparr>fd_kind := FD_STDOUT\<rparr>,
        2 := zero_fd\<lparr>fd_kind := FD_STDERR\<rparr>]\<rparr>"

definition allocate_process :: "kernel \<Rightarrow> nat option \<times> kernel" where
  "allocate_process k =
     (case find_index (\<lambda>p. proc_state p = PROCESS_UNUSED) (processes k) 0 of
        None \<Rightarrow> (None, k)
      | Some i \<Rightarrow> (Some i, k\<lparr>processes := (processes k)[i := fresh_process (next_pid k)],
                           next_pid := next_pid k + 1\<rparr>))"

definition allocate_fd :: "process \<Rightarrow> nat option" where
  "allocate_fd p = find_index (\<lambda>f. fd_kind f = FD_NONE) (drop 3 (proc_fds p)) 3"

section \<open>Mapping and writing user memory\<close>

definition map_user_page :: "u64 \<Rightarrow> u64 \<Rightarrow> u64 \<Rightarrow> mm_state \<Rightarrow> bool \<times> mm_state" where
  "map_user_page root virtual_address flags s =
     (case xbks_pmm_alloc_frame s of (frame, s1) \<Rightarrow>
        if frame = 0 then (False, s1)
        else case xbks_vmm_map_page root virtual_address frame (flags OR XBKS_PAGE_USER) s1 of (ok, s2) \<Rightarrow>
          if ok then (True, s2) else (False, xbks_pmm_free_frame frame s2))"

text \<open>\<^verbatim>\<open>for (page = start; page < end; page += XBKS_PAGE_SIZE)\<close>, which \<^verbatim>\<open>map_user_range\<close> and \<^verbatim>\<open>syscall_brk\<close> share.\<close>

partial_function (option) map_pages_loop :: "u64 \<Rightarrow> u64 \<Rightarrow> u64 \<Rightarrow> u64 \<Rightarrow> mm_state \<Rightarrow> (bool \<times> mm_state) option" where
  "map_pages_loop root flags stop page s =
     (if page < stop
      then (case map_user_page root page flags s of (ok, s') \<Rightarrow>
        if ok then map_pages_loop root flags stop (page + XBKS_PAGE_SIZE) s' else Some (False, s'))
      else Some (True, s))"

declare map_pages_loop.simps [code]

definition map_user_range :: "u64 \<Rightarrow> u64 \<Rightarrow> u64 \<Rightarrow> u64 \<Rightarrow> mm_state \<Rightarrow> (bool \<times> mm_state) option" where
  "map_user_range root base sz flags s =
     map_pages_loop root flags (align_up (base + sz) XBKS_PAGE_SIZE) (align_down base XBKS_PAGE_SIZE) s"

text \<open>
  The source of \<^verbatim>\<open>write_process_memory\<close> is read chunk by chunk: \<open>src off n\<close> are the \<open>n\<close> bytes at
  offset \<open>off\<close> of the source, \<^term>\<open>None\<close> where they lie outside of it.
\<close>

definition chunk_size :: "u64 \<Rightarrow> u64 \<Rightarrow> u64" where
  "chunk_size address left =
     (let chunk = XBKS_PAGE_SIZE - (address AND (XBKS_PAGE_SIZE - 1)) in if chunk > left then left else chunk)"

lemma chunk_bounds:
  assumes "0 < left"
  shows "0 < unat (chunk_size a left)" "unat (chunk_size a left) \<le> unat left"
    "unat a mod 4096 + unat (chunk_size a left) \<le> 4096"
proof -
  have m: "unat (a AND 4095) = unat a mod 4096" using unat_and_mask [of a 12] by (simp add: mask_12)
  have lt: "unat a mod 4096 < 4096" by simp
  have c: "unat (4096 - (a AND 4095)) = 4096 - unat a mod 4096"
    using lt by (simp add: unat_sub_if' m)
  have l: "0 < unat left" using assms by (simp add: word_gt_0 unat_gt_0)
  show "0 < unat (chunk_size a left)" "unat (chunk_size a left) \<le> unat left"
      "unat a mod 4096 + unat (chunk_size a left) \<le> 4096"
    using c l lt by (auto simp: chunk_size_def Let_def word_less_nat_alt)
qed

function write_memory_loop ::
  "u64 \<Rightarrow> u64 \<Rightarrow> (u64 \<Rightarrow> u64 \<Rightarrow> u8 list option) \<Rightarrow> u64 \<Rightarrow> u64 \<Rightarrow> mm_state \<Rightarrow> (bool \<times> mm_state) option" where
  "write_memory_loop root virtual_address src sz written s =
     (if written < sz
      then
        let address = virtual_address + written;
            chunk = chunk_size address (sz - written)
        in (case xbks_vmm_translate s root address of
              None \<Rightarrow> Some (False, s)
            | Some physical \<Rightarrow>
                (case src written chunk of
                   None \<Rightarrow> None
                 | Some bytes \<Rightarrow>
                     write_memory_loop root virtual_address src sz (written + chunk)
                       (s\<lparr>kmem := write_bytes (kmem s) (xbks_phys_to_virt s physical) bytes\<rparr>)))
      else Some (True, s))"
  by pat_completeness auto
termination
proof (relation "measure (\<lambda>(root, va, src, sz, written, s). unat sz - unat written)", goal_cases)
  case (2 root va src sz written s x xa physical bytes)
  have w: "unat (sz - written) = unat sz - unat written" "0 < sz - written"
    using 2(1) by (auto simp: unat_sub_if' word_less_nat_alt word_gt_0)
  note c = chunk_bounds [OF w(2), of x]
  have "unat sz < 2 ^ 64" using unsigned_less [of sz] by simp
  then have "unat (written + xa) = unat written + unat xa"
    using c(2) w(1) 2(1,3) by (intro unat_sum2) (simp add: word_less_nat_alt)
  then show ?case using c(1) 2(1,3) by (simp add: word_less_nat_alt)
qed simp

declare write_memory_loop.simps [simp del]

definition write_process_memory ::
  "u64 \<Rightarrow> u64 \<Rightarrow> (u64 \<Rightarrow> u64 \<Rightarrow> u8 list option) \<Rightarrow> u64 \<Rightarrow> mm_state \<Rightarrow> (bool \<times> mm_state) option" where
  "write_process_memory root virtual_address src sz s = write_memory_loop root virtual_address src sz 0 s"

definition from_archive :: "u8 list \<Rightarrow> u64 \<Rightarrow> u64 \<Rightarrow> u64 \<Rightarrow> u8 list option" where
  "from_archive data p off n = slice data (unat (p + off)) (unat n)"

definition from_buffer :: "u8 list \<Rightarrow> u64 \<Rightarrow> u64 \<Rightarrow> u8 list option" where
  "from_buffer buf off n = slice buf (unat off) (unat n)"

section \<open>Loading a program\<close>

text \<open>\<open>Some None\<close> where the C function returns false.\<close>

definition validate_elf :: "u8 list \<Rightarrow> xbks_ramdisk_file \<Rightarrow> (u64 \<times> elf64_ehdr) option option" where
  "validate_elf data file =
     (if directory file then Some None
      else case file_data file of
        None \<Rightarrow> Some None
      | Some p \<Rightarrow>
          if file_size file < EHDR_SIZE then Some None
          else do {
            header \<leftarrow> read_ehdr data p;
            if \<not> elf_magic header \<or> e_machine header \<noteq> 62 \<or>
               ucast (e_phentsize header) \<noteq> PHDR_SIZE \<or> e_phnum header = 0 \<or>
               e_phoff header > file_size file \<or>
               e_phoff header + ucast (e_phnum header) * PHDR_SIZE > file_size file
            then Some None
            else Some (Some (p, header)) })"

definition segment_refused :: "u64 \<Rightarrow> elf64_phdr \<Rightarrow> bool" where
  "segment_refused file_sz ph \<longleftrightarrow> p_memsz ph < p_filesz ph \<or> p_offset ph + p_filesz ph > file_sz \<or>
     p_vaddr ph < USER_IMAGE_MIN \<or> p_vaddr ph + p_memsz ph \<ge> XBKS_USER_TOP"

fun load_segments ::
  "u8 list \<Rightarrow> u64 \<Rightarrow> u64 \<Rightarrow> u64 \<Rightarrow> u64 \<Rightarrow> u64 list \<Rightarrow> mm_state \<Rightarrow> (bool \<times> mm_state) option" where
  "load_segments data p file_sz phdrs root [] s = Some (True, s)"
| "load_segments data p file_sz phdrs root (i # is) s = do {
     ph \<leftarrow> read_phdr data phdrs i;
     if p_type ph \<noteq> 1 then load_segments data p file_sz phdrs root is s
     else if segment_refused file_sz ph then Some (False, s)
     else do {
       (mapped, s1) \<leftarrow> map_user_range root (p_vaddr ph) (p_memsz ph) XBKS_PAGE_WRITABLE s;
       if \<not> mapped then Some (False, s1)
       else do {
         (written, s2) \<leftarrow> write_process_memory root (p_vaddr ph)
           (from_archive data (p + p_offset ph)) (p_filesz ph) s1;
         if \<not> written then Some (False, s2)
         else load_segments data p file_sz phdrs root is s2 } } }"

definition load_elf_into_process ::
  "u8 list \<Rightarrow> xbks_ramdisk_file \<Rightarrow> process \<Rightarrow> mm_state \<Rightarrow> (bool \<times> process \<times> mm_state) option" where
  "load_elf_into_process data file p s = do {
     valid \<leftarrow> validate_elf data file;
     case valid of
       None \<Rightarrow> Some (False, p, s)
     | Some (base, header) \<Rightarrow> do {
         (ok, s1) \<leftarrow> load_segments data base (file_size file) (base + e_phoff header) (proc_cr3 p)
           (phdr_indices header) s;
         if ok then Some (True, p\<lparr>proc_entry := e_entry header, proc_brk := 0x800000\<rparr>, s1)
         else Some (False, p, s1) } }"

text \<open>The new stack pointer, or \<open>None\<close> in the first component where the C function returns false.\<close>

definition push_bytes :: "u64 \<Rightarrow> u64 \<Rightarrow> u8 list \<Rightarrow> u64 \<Rightarrow> mm_state \<Rightarrow> (u64 option \<times> mm_state) option" where
  "push_bytes root stack data sz s =
     (let stack' = stack - sz in
      if sz \<noteq> 0 \<and> \<not> user_range_is_valid stack' sz then Some (None, s)
      else do {
        (ok, s') \<leftarrow> write_process_memory root stack' (from_buffer data) sz s;
        Some (if ok then Some stack' else None, s') })"

definition push_u64 :: "u64 \<Rightarrow> u64 \<Rightarrow> u64 \<Rightarrow> mm_state \<Rightarrow> (u64 option \<times> mm_state) option" where
  "push_u64 root stack v s = push_bytes root stack (to_le 8 v) 8 s"

text \<open>The loops from the last string or word to the first, with the addresses of the strings.\<close>

fun push_strings ::
  "u64 \<Rightarrow> u8 list list \<Rightarrow> u64 \<Rightarrow> mm_state \<Rightarrow> ((u64 \<times> u64 list) option \<times> mm_state) option" where
  "push_strings root [] stack s = Some (Some (stack, []), s)"
| "push_strings root (t # ts) stack s = do {
     (r, s1) \<leftarrow> push_strings root ts stack s;
     case r of
       None \<Rightarrow> Some (None, s1)
     | Some (stack1, addresses) \<Rightarrow> do {
         n \<leftarrow> strlen t;
         (r2, s2) \<leftarrow> push_bytes root stack1 t (of_nat n + 1) s1;
         case r2 of
           None \<Rightarrow> Some (None, s2)
         | Some stack2 \<Rightarrow> Some (Some (stack2, stack2 # addresses), s2) } }"

fun push_words :: "u64 \<Rightarrow> u64 list \<Rightarrow> u64 \<Rightarrow> mm_state \<Rightarrow> (u64 option \<times> mm_state) option" where
  "push_words root [] stack s = Some (Some stack, s)"
| "push_words root (v # vs) stack s = do {
     (r, s1) \<leftarrow> push_words root vs stack s;
     case r of
       None \<Rightarrow> Some (None, s1)
     | Some stack1 \<Rightarrow> push_u64 root stack1 v s1 }"

definition build_user_stack ::
  "u8 list list \<Rightarrow> u8 list list \<Rightarrow> process \<Rightarrow> mm_state \<Rightarrow> (bool \<times> process \<times> mm_state) option" where
  "build_user_stack argv envp p s = do {
     let root = proc_cr3 p;
     (mapped, s1) \<leftarrow> map_user_range root (XBKS_USER_STACK_TOP - XBKS_USER_STACK_SIZE)
       XBKS_USER_STACK_SIZE XBKS_PAGE_WRITABLE s;
     if \<not> mapped then Some (False, p, s1)
     else do {
       (e, s2) \<leftarrow> push_strings root envp XBKS_USER_STACK_TOP s1;
       case e of
         None \<Rightarrow> Some (False, p, s2)
       | Some (stack1, env_addresses) \<Rightarrow> do {
           (a, s3) \<leftarrow> push_strings root argv stack1 s2;
           case a of
             None \<Rightarrow> Some (False, p, s3)
           | Some (stack2, argv_addresses) \<Rightarrow> do {
               (w, s4) \<leftarrow> push_words root
                 (of_nat (length argv) # argv_addresses @ 0 # env_addresses @ [0])
                 (stack2 AND NOT 0xf) s3;
               case w of
                 None \<Rightarrow> Some (False, p, s4)
               | Some stack3 \<Rightarrow> Some (True, p\<lparr>proc_stack := stack3\<rparr>, s4) } } } }"

definition load_program ::
  "ramdisk \<Rightarrow> u8 list \<Rightarrow> u8 list list \<Rightarrow> u8 list list \<Rightarrow> process \<Rightarrow> mm_state \<Rightarrow> (bool \<times> process \<times> mm_state) option" where
  "load_program rd path argv envp p s = do {
     found \<leftarrow> xbks_ramdisk_find rd (Some path);
     case found of
       None \<Rightarrow> Some (False, p, s)
     | Some file \<Rightarrow>
         if \<not> executable file \<or> directory file then Some (False, p, s)
         else case xbks_create_kernel_mapped_pml4 s of (root, s1) \<Rightarrow>
           let p1 = p\<lparr>proc_cr3 := root\<rparr> in
           if root = 0 then Some (False, p1, s1)
           else do {
             (loaded, p2, s2) \<leftarrow> load_elf_into_process (ramdisk_data rd) file p1 s1;
             (ok, p3, s3) \<leftarrow> (if loaded then build_user_stack argv envp p2 s2 else Some (False, p2, s2));
             if ok then Some (True, p3, s3)
             else Some (False, p3\<lparr>proc_cr3 := 0\<rparr>,
                    xbks_vmm_destroy_user_space (proc_cr3 p3) XBKS_USER_TOP s3) } }"

end
