(* ===== verification/Syscalls.thy ===== *)
theory Syscalls
  imports Process
begin

text \<open>
  The system calls, the second half of \<^verbatim>\<open>kernel/process.c\<close>, and the dispatcher. A handler takes the
  kernel and returns the value for the caller and the kernel afterwards; \<^term>\<open>None\<close> is a handler that does
  not return: a page fault of the kernel, a read outside of the archive, or a busy wait that never
  ends. The halt of the machine when the first process exits is a result of its own.
\<close>

section \<open>Helpers\<close>

abbreviation XBKS_ENOENT :: nat where "XBKS_ENOENT \<equiv> 2"
abbreviation XBKS_ENOEXEC :: nat where "XBKS_ENOEXEC \<equiv> 8"
abbreviation XBKS_EBADF :: nat where "XBKS_EBADF \<equiv> 9"
abbreviation XBKS_ECHILD :: nat where "XBKS_ECHILD \<equiv> 10"
abbreviation XBKS_EAGAIN :: nat where "XBKS_EAGAIN \<equiv> 11"
abbreviation XBKS_ENOMEM :: nat where "XBKS_ENOMEM \<equiv> 12"
abbreviation XBKS_EFAULT :: nat where "XBKS_EFAULT \<equiv> 14"
abbreviation XBKS_EISDIR :: nat where "XBKS_EISDIR \<equiv> 21"
abbreviation XBKS_EINVAL :: nat where "XBKS_EINVAL \<equiv> 22"
abbreviation XBKS_EMFILE :: nat where "XBKS_EMFILE \<equiv> 24"
abbreviation XBKS_ERANGE :: nat where "XBKS_ERANGE \<equiv> 34"
abbreviation XBKS_ENOSYS :: nat where "XBKS_ENOSYS \<equiv> 38"

text \<open>\<^verbatim>\<open>*current_process\<close>; a null pointer faults.\<close>

definition current :: "kernel \<Rightarrow> process option" where
  "current k = Option.bind (current_process k) (getb (processes k))"

definition set_process :: "nat \<Rightarrow> process \<Rightarrow> kernel \<Rightarrow> kernel" where
  "set_process i p k = k\<lparr>processes := (processes k)[i := p]\<rparr>"

definition set_current :: "process \<Rightarrow> kernel \<Rightarrow> kernel" where
  "set_current p k = (case current_process k of None \<Rightarrow> k | Some i \<Rightarrow> set_process i p k)"

definition set_fd :: "nat \<Rightarrow> process_fd \<Rightarrow> process \<Rightarrow> process" where
  "set_fd i f p = p\<lparr>proc_fds := (proc_fds p)[i := f]\<rparr>"

definition err :: "nat \<Rightarrow> kernel \<Rightarrow> (u64 \<times> kernel) option" where
  "err e k = Some (negative_errno e, k)"

section \<open>Files\<close>

fun read_stdin_loop :: "u64 \<Rightarrow> nat \<Rightarrow> kernel \<Rightarrow> kernel option" where
  "read_stdin_loop buffer 0 k = Some k"
| "read_stdin_loop buffer (Suc n) k = do {
     (ch, io') \<leftarrow> xbks_keyboard_read_char_blocking (io k);
     mm' \<leftarrow> user_store buffer ch (mm k);
     read_stdin_loop (buffer + 1) n (k\<lparr>io := io', mm := mm'\<rparr>) }"

definition syscall_read :: "u64 \<Rightarrow> u64 \<Rightarrow> u64 \<Rightarrow> kernel \<Rightarrow> (u64 \<times> kernel) option" where
  "syscall_read fd buffer_address count k =
     (if \<not> user_range_is_valid buffer_address count then err XBKS_EFAULT k
      else if fd \<ge> MAX_FDS then err XBKS_EBADF k
      else do {
        p \<leftarrow> current k;
        f \<leftarrow> getb (proc_fds p) (unat fd);
        if fd_kind f = FD_NONE then err XBKS_EBADF k
        else if fd_kind f = FD_STDIN then do {
          k' \<leftarrow> read_stdin_loop buffer_address (unat count) k;
          Some (count, k') }
        else if fd_kind f \<noteq> FD_FILE then err XBKS_EISDIR k
        else if fd_offset f \<ge> file_size (fd_file f) then Some (0, k)
        else do {
          let left = file_size (fd_file f) - fd_offset f;
          let available = (if count < left then count else left);
          data \<leftarrow> file_data (fd_file f);
          bytes \<leftarrow> slice (ramdisk_data (rdisk k)) (unat (data + fd_offset f)) (unat available);
          mm' \<leftarrow> user_write buffer_address bytes (mm k);
          Some (available, set_current (set_fd (unat fd) (f\<lparr>fd_offset := fd_offset f + available\<rparr>) p)
            (k\<lparr>mm := mm'\<rparr>)) } })"

definition syscall_write :: "u64 \<Rightarrow> u64 \<Rightarrow> u64 \<Rightarrow> kernel \<Rightarrow> (u64 \<times> kernel) option" where
  "syscall_write fd buffer_address count k =
     (if fd \<noteq> 1 \<and> fd \<noteq> 2 then err XBKS_EBADF k
      else if \<not> user_range_is_valid buffer_address count then err XBKS_EFAULT k
      else do {
        bytes \<leftarrow> user_read (mm k) buffer_address (unat count);
        io' \<leftarrow> xbks_console_write bytes (io k);
        Some (count, k\<lparr>io := io'\<rparr>) })"

definition syscall_open :: "u64 \<Rightarrow> kernel \<Rightarrow> (u64 \<times> kernel) option" where
  "syscall_open path_address k = do {
     p \<leftarrow> current k;
     case allocate_fd p of
       None \<Rightarrow> err XBKS_EMFILE k
     | Some fd \<Rightarrow> do {
         copied \<leftarrow> copy_user_string (mm k) (replicate MAX_STRING 0) MAX_STRING path_address;
         case copied of
           None \<Rightarrow> err XBKS_EFAULT k
         | Some path \<Rightarrow> do {
             found \<leftarrow> xbks_ramdisk_find (rdisk k) (Some path);
             case found of
               None \<Rightarrow> err XBKS_ENOENT k
             | Some file \<Rightarrow>
                 Some (of_nat fd, set_current (set_fd fd
                   \<lparr>fd_kind = (if directory file then FD_DIR else FD_FILE), fd_file = file, fd_offset = 0\<rparr> p) k) } } }"

definition syscall_close :: "u64 \<Rightarrow> kernel \<Rightarrow> (u64 \<times> kernel) option" where
  "syscall_close fd k =
     (if fd \<ge> MAX_FDS \<or> fd \<le> 2 then err XBKS_EBADF k
      else do {
        p \<leftarrow> current k;
        f \<leftarrow> getb (proc_fds p) (unat fd);
        if fd_kind f = FD_NONE then err XBKS_EBADF k
        else Some (0, set_current (set_fd (unat fd) zero_fd p) k) })"

definition syscall_lseek :: "u64 \<Rightarrow> u64 \<Rightarrow> u64 \<Rightarrow> kernel \<Rightarrow> (u64 \<times> kernel) option" where
  "syscall_lseek fd offset whence k =
     (if fd \<ge> MAX_FDS then err XBKS_EBADF k
      else do {
        p \<leftarrow> current k;
        f \<leftarrow> getb (proc_fds p) (unat fd);
        if fd_kind f \<noteq> FD_FILE then err XBKS_EBADF k
        else
          let to = (\<lambda>next_offset. Some (next_offset,
                set_current (set_fd (unat fd) (f\<lparr>fd_offset := next_offset\<rparr>) p) k)) in
          if whence = 0 then to offset
          else if whence = 1 then to (fd_offset f + offset)
          else if whence = 2 then to (file_size (fd_file f) + offset)
          else err XBKS_EINVAL k })"

text \<open>The name of a child: the part of its path behind the last slash.\<close>

fun base_name :: "u8 list \<Rightarrow> u8 list \<Rightarrow> u8 list option" where
  "base_name name [] = None"
| "base_name name (c # cursor) =
     (if c = 0 then Some name else base_name (if c = SLASH then cursor else name) cursor)"

text \<open>The stores to one \<^verbatim>\<open>struct linux_dirent64\<close>; its name starts at offset 19, its size is 24.\<close>

definition write_dirent :: "u64 \<Rightarrow> u64 \<Rightarrow> u64 \<Rightarrow> bool \<Rightarrow> u8 list \<Rightarrow> mm_state \<Rightarrow> mm_state option" where
  "write_dirent a ino reclen is_directory name_bytes s = do {
     s1 \<leftarrow> user_write a (to_le 8 ino) s;
     s2 \<leftarrow> user_write (a + 8) (to_le 8 ino) s1;
     s3 \<leftarrow> user_write (a + 16) (to_le 2 reclen) s2;
     s4 \<leftarrow> user_write (a + 18) [if is_directory then 4 else 8] s3;
     user_write (a + 19) name_bytes s4 }"

text \<open>The loop over the children: \<^verbatim>\<open>directory->offset\<close>, \<^verbatim>\<open>written\<close> and the memory.\<close>

partial_function (option) getdents_loop ::
  "ramdisk \<Rightarrow> u8 list \<Rightarrow> u64 \<Rightarrow> u64 \<Rightarrow> u64 \<Rightarrow> u64 \<Rightarrow> mm_state \<Rightarrow> (u64 \<times> u64 \<times> mm_state) option" where
  "getdents_loop rd path buffer count written offset s =
     Option.bind (xbks_ramdisk_read_dir rd (Some path) offset) (\<lambda>r. case r of
       None \<Rightarrow> Some (written, offset, s)
     | Some child \<Rightarrow>
         Option.bind (base_name (file_path child) (file_path child)) (\<lambda>name.
         Option.bind (strlen name) (\<lambda>n.
         if written + align_up (24 + (of_nat n + 1)) 8 > count then Some (written, offset, s)
         else
           Option.bind (copy_kernel_string (n + 1) name) (\<lambda>name_bytes.
           Option.bind (write_dirent (buffer + written) (offset + 1) (align_up (24 + (of_nat n + 1)) 8)
               (directory child) name_bytes s) (\<lambda>s'.
           getdents_loop rd path buffer count (written + align_up (24 + (of_nat n + 1)) 8)
             (offset + 1) s')))))"

definition syscall_getdents64 :: "u64 \<Rightarrow> u64 \<Rightarrow> u64 \<Rightarrow> kernel \<Rightarrow> (u64 \<times> kernel) option" where
  "syscall_getdents64 fd dirent_address count k =
     (if fd \<ge> MAX_FDS then err XBKS_EBADF k
      else do {
        p \<leftarrow> current k;
        f \<leftarrow> getb (proc_fds p) (unat fd);
        if fd_kind f \<noteq> FD_DIR then err XBKS_EBADF k
        else if \<not> user_range_is_valid dirent_address count then err XBKS_EFAULT k
        else do {
          (written, offset, mm') \<leftarrow> getdents_loop (rdisk k) (file_path (fd_file f)) dirent_address count
            0 (fd_offset f) (mm k);
          Some (written, set_current (set_fd (unat fd) (f\<lparr>fd_offset := offset\<rparr>) p) (k\<lparr>mm := mm'\<rparr>)) } })"

definition syscall_access :: "u64 \<Rightarrow> kernel \<Rightarrow> (u64 \<times> kernel) option" where
  "syscall_access path_address k = do {
     copied \<leftarrow> copy_user_string (mm k) (replicate MAX_STRING 0) MAX_STRING path_address;
     case copied of
       None \<Rightarrow> err XBKS_EFAULT k
     | Some path \<Rightarrow> do {
         found \<leftarrow> xbks_ramdisk_find (rdisk k) (Some path);
         if found \<noteq> None then Some (0, k) else err XBKS_ENOENT k } }"

definition syscall_getcwd :: "u64 \<Rightarrow> u64 \<Rightarrow> kernel \<Rightarrow> (u64 \<times> kernel) option" where
  "syscall_getcwd buffer_address sz k =
     (if sz < 2 then err XBKS_ERANGE k
      else if \<not> user_range_is_valid buffer_address 2 then err XBKS_EFAULT k
      else do {
        mm' \<leftarrow> user_write buffer_address (lit ''/'') (mm k);
        Some (buffer_address, k\<lparr>mm := mm'\<rparr>) })"

definition uname_fields :: "u8 list list" where
  "uname_fields = [lit ''XiaobaiOS'', lit ''localhost'', lit ''0.1.0'', lit ''xbks ring3'', lit ''x86_64'',
     lit ''localdomain'']"

fun write_uname :: "u64 \<Rightarrow> u8 list list \<Rightarrow> mm_state \<Rightarrow> mm_state option" where
  "write_uname a [] s = Some s"
| "write_uname a (t # ts) s = do {
     bytes \<leftarrow> copy_kernel_string 65 t;
     s' \<leftarrow> user_write a bytes s;
     write_uname (a + 65) ts s' }"

definition syscall_uname :: "u64 \<Rightarrow> kernel \<Rightarrow> (u64 \<times> kernel) option" where
  "syscall_uname buffer_address k =
     (if \<not> user_range_is_valid buffer_address 390 then err XBKS_EFAULT k
      else do {
        mm' \<leftarrow> write_uname buffer_address uname_fields (mm k);
        Some (0, k\<lparr>mm := mm'\<rparr>) })"

section \<open>Memory and processes\<close>

definition syscall_brk :: "u64 \<Rightarrow> kernel \<Rightarrow> (u64 \<times> kernel) option" where
  "syscall_brk requested_break k = do {
     p \<leftarrow> current k;
     if requested_break = 0 then Some (proc_brk p, k)
     else if requested_break < proc_brk p \<or> requested_break \<ge> 0x10000000 then Some (proc_brk p, k)
     else do {
       (ok, mm') \<leftarrow> map_pages_loop (proc_cr3 p) XBKS_PAGE_WRITABLE (align_up requested_break XBKS_PAGE_SIZE)
         (align_up (proc_brk p) XBKS_PAGE_SIZE) (mm k);
       if ok then Some (requested_break, set_current (p\<lparr>proc_brk := requested_break\<rparr>) (k\<lparr>mm := mm'\<rparr>))
       else Some (proc_brk p, k\<lparr>mm := mm'\<rparr>) } }"

definition syscall_execve ::
  "xbks_syscall_frame \<Rightarrow> kernel \<Rightarrow> (u64 \<times> xbks_syscall_frame \<times> kernel) option" where
  "syscall_execve frame k = do {
     let fail = (\<lambda>e k. Some (negative_errno e, frame, k));
     path \<leftarrow> copy_user_string (mm k) (replicate MAX_STRING 0) MAX_STRING (rdi frame);
     case path of None \<Rightarrow> fail XBKS_EFAULT k | Some path \<Rightarrow> do {
       args \<leftarrow> copy_user_string_array (mm k) (MAX_ARGS - 1) (rsi frame);
       case args of None \<Rightarrow> fail XBKS_EFAULT k | Some argv \<Rightarrow> do {
         envs \<leftarrow> copy_user_string_array (mm k) (MAX_ENV - 1) (rdx frame);
         case envs of None \<Rightarrow> fail XBKS_EFAULT k | Some envp \<Rightarrow> do {
           p \<leftarrow> current k;
           (ok, new_p, mm1) \<leftarrow> load_program (rdisk k) path argv envp (p\<lparr>proc_cr3 := 0\<rparr>) (mm k);
           if \<not> ok then fail XBKS_ENOEXEC (k\<lparr>mm := mm1\<rparr>)
           else
             let p' = p\<lparr>proc_cr3 := proc_cr3 new_p, proc_entry := proc_entry new_p,
                   proc_stack := proc_stack new_p, proc_brk := proc_brk new_p\<rparr>;
                 mm2 = xbks_vmm_destroy_user_space (proc_cr3 p) XBKS_USER_TOP (xbks_write_cr3 (proc_cr3 p') mm1)
             in Some (0, frame\<lparr>user_rip := proc_entry p', user_rsp := proc_stack p'\<rparr>,
                  set_current p' (k\<lparr>mm := mm2\<rparr>)) } } } }"

definition syscall_vfork ::
  "xbks_syscall_frame \<Rightarrow> kernel \<Rightarrow> (u64 \<times> kernel) option" where
  "syscall_vfork frame k =
     (case allocate_process k of
        (None, k1) \<Rightarrow> err XBKS_EAGAIN k1
      | (Some c, k1) \<Rightarrow> do {
          i \<leftarrow> current_process k1;
          p \<leftarrow> getb (processes k1) i;
          child0 \<leftarrow> getb (processes k1) c;
          case xbks_create_kernel_mapped_pml4 (mm k1) of (root, mm1) \<Rightarrow>
            let child = child0\<lparr>proc_ppid := proc_pid p, proc_parent := Some i, vfork_parent := Some i,
                  proc_cr3 := root\<rparr> in
            case (if root = 0 then (False, mm1)
                  else xbks_vmm_clone_user_space (proc_cr3 p) root XBKS_USER_TOP mm1) of (ok, mm2) \<Rightarrow>
              if \<not> ok then
                let mm3 = (if root \<noteq> 0 then xbks_vmm_destroy_user_space root XBKS_USER_TOP mm2 else mm2)
                in err XBKS_ENOMEM (set_process c zero_process (k1\<lparr>mm := mm3\<rparr>))
              else
                let child' = child\<lparr>proc_entry := proc_entry p, proc_stack := proc_stack p, proc_brk := proc_brk p,
                      saved_parent_frame := frame\<lparr>rax := scast (proc_pid child)\<rparr>, proc_fds := proc_fds p\<rparr>
                in Some (0, (set_process i (p\<lparr>proc_state := PROCESS_BLOCKED\<rparr>) (set_process c child' k1))
                     \<lparr>current_process := Some c, mm := xbks_write_cr3 root mm2\<rparr>) })"

definition waits_for :: "u64 \<Rightarrow> nat option \<Rightarrow> process \<Rightarrow> bool" where
  "waits_for pid me child \<longleftrightarrow> proc_state child = PROCESS_ZOMBIE \<and> proc_parent child = me \<and>
     (pid = - 1 \<or> pid = scast (proc_pid child))"

definition syscall_wait4 :: "u64 \<Rightarrow> u64 \<Rightarrow> kernel \<Rightarrow> (u64 \<times> kernel) option" where
  "syscall_wait4 pid status_address k =
     (case find_index (waits_for pid (current_process k)) (processes k) 0 of
        None \<Rightarrow> err XBKS_ECHILD k
      | Some c \<Rightarrow> do {
          child \<leftarrow> getb (processes k) c;
          if status_address \<noteq> 0 \<and> \<not> user_range_is_valid status_address 4 then err XBKS_EFAULT k
          else do {
            mm1 \<leftarrow> (if status_address \<noteq> 0
                   then user_write status_address (to_le 4 (ucast (push_bit 8 (exit_status child)))) (mm k)
                   else Some (mm k));
            let mm2 = xbks_vmm_destroy_user_space (proc_cr3 child) XBKS_USER_TOP mm1;
            Some (scast (proc_pid child), set_process c zero_process (k\<lparr>mm := mm2\<rparr>)) } })"

datatype syscall_result =
  Returns u64 xbks_syscall_frame kernel
| Halts kernel \<comment> \<open>the \<^verbatim>\<open>hlt\<close> loop after the first process has exited\<close>

definition syscall_exit :: "xbks_syscall_frame \<Rightarrow> u64 \<Rightarrow> kernel \<Rightarrow> syscall_result option" where
  "syscall_exit frame status k = do {
     i \<leftarrow> current_process k;
     p \<leftarrow> getb (processes k) i;
     let p' = p\<lparr>exit_status := ucast (status AND 0xff), proc_state := PROCESS_ZOMBIE\<rparr>;
     let k1 = set_process i p' k;
     case vfork_parent p of
       Some j \<Rightarrow> do {
         parent \<leftarrow> getb (processes k1) j;
         Some (Returns (scast (proc_pid p)) ((saved_parent_frame p)\<lparr>rax := scast (proc_pid p)\<rparr>)
           ((set_process j (parent\<lparr>proc_state := PROCESS_RUNNING\<rparr>) k1)
             \<lparr>current_process := Some j, mm := xbks_write_cr3 (proc_cr3 parent) (mm k1)\<rparr>)) }
     | None \<Rightarrow> do {
         io' \<leftarrow> xbks_log_printf XBKS_LOG_INFO (lit ''init process exited with status %d'')
           [ArgInt (exit_status p')] (io k1);
         Some (Halts (k1\<lparr>io := io'\<rparr>)) } }"

section \<open>Dispatch and the first process\<close>

definition returns :: "xbks_syscall_frame \<Rightarrow> (u64 \<times> kernel) option \<Rightarrow> syscall_result option" where
  "returns frame r = map_option (\<lambda>(v, k). Returns v frame k) r"

text \<open>\<^verbatim>\<open>(uint64_t)AT_FDCWD\<close>\<close>

abbreviation AT_FDCWD :: u64 where "AT_FDCWD \<equiv> - 100"

definition xbks_process_syscall_dispatch :: "xbks_syscall_frame \<Rightarrow> kernel \<Rightarrow> syscall_result option" where
  "xbks_process_syscall_dispatch frame k =
     (let n = rax frame in
      if n = 0 then returns frame (syscall_read (rdi frame) (rsi frame) (rdx frame) k)
      else if n = 1 then returns frame (syscall_write (rdi frame) (rsi frame) (rdx frame) k)
      else if n = 2 then returns frame (syscall_open (rdi frame) k)
      else if n = 257 then returns frame (syscall_open (rsi frame) k)
      else if n = 3 then returns frame (syscall_close (rdi frame) k)
      else if n = 8 then returns frame (syscall_lseek (rdi frame) (rsi frame) (rdx frame) k)
      else if n = 21 \<or> n = 269
      then returns frame (syscall_access (if rdi frame = AT_FDCWD then rsi frame else rdi frame) k)
      else if n = 217 then returns frame (syscall_getdents64 (rdi frame) (rsi frame) (rdx frame) k)
      else if n = 12 then returns frame (syscall_brk (rdi frame) k)
      else if n = 79 then returns frame (syscall_getcwd (rdi frame) (rsi frame) k)
      else if n = 63 then returns frame (syscall_uname (rdi frame) k)
      else if n = 39 \<or> n = 186
      then do { p \<leftarrow> current k; Some (Returns (scast (proc_pid p)) frame k) }
      else if n = 110 then do { p \<leftarrow> current k; Some (Returns (scast (proc_ppid p)) frame k) }
      else if n = 102 \<or> n = 104 \<or> n = 107 \<or> n = 108 then Some (Returns 0 frame k)
      else if n = 58 then returns frame (syscall_vfork frame k)
      else if n = 59 then map_option (\<lambda>(v, f, k'). Returns v f k') (syscall_execve frame k)
      else if n = 61 then returns frame (syscall_wait4 (rdi frame) (rsi frame) k)
      else if n = 60 \<or> n = 231 then syscall_exit frame (rdi frame) k
      else if n = 24 then Some (Returns 0 frame k)
      else Some (Returns (negative_errno XBKS_ENOSYS) frame k))"

definition xbks_syscall_dispatch :: "xbks_syscall_frame \<Rightarrow> kernel \<Rightarrow> syscall_result option" where
  "xbks_syscall_dispatch frame k = xbks_process_syscall_dispatch frame k"

text \<open>\<^verbatim>\<open>xbks_x86_64_enter_user\<close> leaves the kernel for user mode at the given entry and stack.\<close>

datatype start_result =
  NoInit kernel \<comment> \<open>the C function returns false\<close>
| EnterUser u64 u64 kernel

definition log_to :: "xbks_log_level \<Rightarrow> u8 list \<Rightarrow> kernel \<Rightarrow> kernel option" where
  "log_to level message k = map_option (\<lambda>io'. k\<lparr>io := io'\<rparr>) (xbks_log_write level message (io k))"

definition xbks_process_start_init :: "module_response \<Rightarrow> kernel \<Rightarrow> start_result option" where
  "xbks_process_start_init modules k0 = do {
     (ok, rd, fmt) \<leftarrow> xbks_ramdisk_init modules;
     io1 \<leftarrow> (case fmt of None \<Rightarrow> Some (io k0)
            | Some t \<Rightarrow> xbks_log_printf XBKS_LOG_INFO t [ArgLong (ramdisk_size rd)] (io k0));
     let k = k0\<lparr>rdisk := rd, io := io1\<rparr>;
     if \<not> ok then
       map_option NoInit (log_to XBKS_LOG_WARN (lit ''no RAMDISK module found; falling back to kernel shell'') k)
     else case allocate_process k of
       (None, k1) \<Rightarrow> map_option NoInit (log_to XBKS_LOG_ERROR (lit ''failed to allocate init process'') k1)
     | (Some i, k1) \<Rightarrow> do {
         init \<leftarrow> getb (processes k1) i;
         (loaded, init', mm1) \<leftarrow> load_program rd (lit ''/bin/xsh'') [lit ''xsh'']
           [lit ''PATH=/bin:/sbin:/usr/bin''] init (mm k1);
         let k2 = set_process i init' (k1\<lparr>mm := mm1\<rparr>);
         if \<not> loaded then do {
           k3 \<leftarrow> log_to XBKS_LOG_ERROR (lit ''failed to load /bin/xsh as ring3 init'') k2;
           Some (NoInit (set_process i zero_process k3)) }
         else do {
           k3 \<leftarrow> log_to XBKS_LOG_INFO (lit ''entering ring3 init process /bin/xsh'')
             (k2\<lparr>current_process := Some i, io := xbks_keyboard_init (io k2)\<rparr>);
           Some (EnterUser (proc_entry init') (proc_stack init')
             (k3\<lparr>mm := xbks_write_cr3 (proc_cr3 init') (mm k3)\<rparr>)) } } }"

end
