(* ===== verification/User_Space.thy ===== *)
theory User_Space
  imports Process
begin

text \<open>
  The memory a process sees. \<open>umem\<close> is the byte at a user address, reached through the page tables; it is
  a partial function, undefined where nothing is mapped. Under the invariant of an address space (its
  tables, its pages and the free frames are disjoint, and no frame is mapped twice) the
  operations of the loader act on this function the way one expects: mapping a range extends it with
  zeroes, a write updates exactly the bytes written, and loading a program lays its segments out.
\<close>

section \<open>User ranges\<close>

lemma user_range_iff:
  "user_range_is_valid a n \<longleftrightarrow> n = 0 \<or> 0x10000 \<le> unat a \<and> unat a + unat n \<le> 2 ^ 47"
proof (cases "n = 0 \<or> a < USER_IMAGE_MIN \<or> a \<ge> XBKS_USER_TOP")
  case True
  moreover have "0 < unat n" if "n \<noteq> 0" using that by (simp add: unat_gt_0)
  ultimately show ?thesis by (auto simp: user_range_is_valid_def word_less_nat_alt word_le_nat_alt)
next
  case False
  then have "0 < unat n" "unat a < 2 ^ 47" "0x10000 \<le> unat a"
    by (auto simp: word_less_nat_alt word_le_nat_alt unat_gt_0)
  moreover have "unat (n - 1) = unat n - 1" "unat (XBKS_USER_TOP - a) = 2 ^ 47 - unat a"
    using calculation by (simp_all add: unat_sub_if')
  ultimately show ?thesis using False by (auto simp: user_range_is_valid_def word_less_nat_alt)
qed

section \<open>The view\<close>

definition umem :: "mm_state \<Rightarrow> u64 \<Rightarrow> u64 \<Rightarrow> u8 option" where
  "umem s root va = map_option (\<lambda>pa. kmem s (xbks_phys_to_virt s pa)) (xbks_vmm_translate s root va)"

lemma user_load_umem: "user_load s a = umem s (cr3 s) a"
  by (cases "xbks_vmm_translate s (cr3 s) a") (simp_all add: user_load_def umem_def)

definition leaf :: "mm_state \<Rightarrow> u64 \<Rightarrow> u64 \<Rightarrow> u64 option" where
  "leaf s root va = map_option (\<lambda>e. e AND ENTRY_ADDRESS) (pte s root va)"

definition uspace_inv :: "mm_state \<Rightarrow> u64 \<Rightarrow> u64 list \<Rightarrow> bool" where
  "uspace_inv s root fs \<longleftrightarrow> vspace_inv s root fs \<and>
     (\<forall>va g. user_va va \<longrightarrow> leaf s root va = Some g \<longrightarrow> g \<notin> set fs \<and> g \<notin> tables s root) \<and>
     (\<forall>va va' g. user_va va \<longrightarrow> user_va va' \<longrightarrow> leaf s root va = Some g \<longrightarrow> leaf s root va' = Some g \<longrightarrow>
        align_down va 4096 = align_down va' 4096)"

lemma uspace_invD:
  assumes "uspace_inv s root fs"
  shows "vspace_inv s root fs"
    and "user_va va \<Longrightarrow> leaf s root va = Some g \<Longrightarrow> g \<notin> set fs"
    and "user_va va \<Longrightarrow> leaf s root va = Some g \<Longrightarrow> g \<notin> tables s root"
    and "user_va va \<Longrightarrow> user_va va' \<Longrightarrow> leaf s root va = Some g \<Longrightarrow> leaf s root va' = Some g \<Longrightarrow>
      align_down va 4096 = align_down va' 4096"
  using assms unfolding uspace_inv_def by blast+

lemma aligned_entry_address: "aligned_page (e AND ENTRY_ADDRESS)"
proof -
  have "(e AND ENTRY_ADDRESS) AND 4095 = e AND (ENTRY_ADDRESS AND 4095)" by (simp only: and.assoc)
  then show ?thesis by (simp add: aligned_page_def)
qed

lemma leaf_aligned: "leaf s root va = Some g \<Longrightarrow> aligned_page g"
  by (auto simp: leaf_def aligned_entry_address)

lemma tables_aligned: "vspace_inv s root fs \<Longrightarrow> t \<in> tables s root \<Longrightarrow> aligned_page t"
  using vspace_invD(3) by (auto simp: tables_def)

lemma frames_aligned: "vspace_inv s root fs \<Longrightarrow> f \<in> set fs \<Longrightarrow> aligned_page f"
  using vspace_invD(1) pmm_inv_usable usable_frame_aligned by blast

lemma tables_not_free: "vspace_inv s root fs \<Longrightarrow> t \<in> tables s root \<Longrightarrow> t \<notin> set fs"
  using vspace_invD(4) by (auto simp: tables_def)

text \<open>The physical address of a user address: the offset of the address in the page of its frame.\<close>

lemma page_offset_or:
  assumes "aligned_page g"
  shows "g OR (va AND 0xfff) = g + (va AND 0xfff)"
proof -
  have "g AND (va AND 0xfff) = (g AND 0xfff) AND va" by (simp only: ac_simps)
  also have "\<dots> = 0" using assms by (simp add: aligned_page_def)
  finally show ?thesis by (simp add: disjunctive_add_eq_or)
qed

definition byte_at :: "mm_state \<Rightarrow> u64 \<Rightarrow> u64 \<Rightarrow> u64" where
  "byte_at s g va = g + hhdm_offset_value s + (va AND 0xfff)"

lemma translate_leaf:
  assumes "user_va va"
  shows "xbks_vmm_translate s root va = map_option (\<lambda>g. g + (va AND 0xfff)) (leaf s root va)"
  unfolding translate_pte [OF assms] leaf_def option.map_comp comp_def
  using page_offset_or [OF aligned_entry_address] by (cases "pte s root va") simp_all

lemma umem_leaf:
  assumes "user_va va"
  shows "umem s root va = map_option (\<lambda>g. kmem s (byte_at s g va)) (leaf s root va)"
  unfolding umem_def translate_leaf [OF assms]
  by (simp add: option.map_comp comp_def xbks_phys_to_virt_def byte_at_def algebra_simps)

lemma unat_page_offset: "unat (va AND 0xfff) = unat va mod 4096" for va :: u64
  using unat_and_mask [of va 12] by (simp add: mask_12)

lemma byte_in_page: "page_at s g (byte_at s g va)"
  by (simp add: in_block_def byte_at_def unat_page_offset)

lemma byte_at_offset: "unat (byte_at s g va - (g + hhdm_offset_value s)) = unat va mod 4096"
  by (simp add: byte_at_def unat_page_offset)

lemma pages_apart:
  assumes "aligned_page g" "aligned_page t" "g \<noteq> t" "page_at s g x"
  shows "\<not> page_at s t x"
  using blocks_disjoint [OF assms(1-3)] assms(4) by blast

section \<open>Operations that leave the view alone\<close>

text \<open>
  Memory may change in the tables and in the free frames; the pages of the process do not see it.
\<close>

lemma umem_cong:
  assumes inv: "uspace_inv s root fs" and va: "user_va va" and h: "hhdm_offset_value s' = hhdm_offset_value s"
    and leaf: "leaf s' root va = leaf s root va"
    and mem: "\<And>g x. leaf s root va = Some g \<Longrightarrow> page_at s g x \<Longrightarrow> kmem s' x = kmem s x"
  shows "umem s' root va = umem s root va"
  unfolding umem_leaf [OF va] leaf
  using mem byte_in_page h by (cases "leaf s root va") (auto simp: byte_at_def)

lemma map_page_umem:
  assumes inv: "uspace_inv s root fs" and m: "mappable va pa flags"
    and pa: "pa \<notin> set fs" "pa \<notin> tables s root" "\<forall>va. user_va va \<longrightarrow> leaf s root va \<noteq> Some pa"
    and r: "xbks_vmm_map_page root va pa flags s = (ok, s')"
  shows "\<exists>k \<le> 3. uspace_inv s' root (drop k fs)"
    and "user_va va' \<Longrightarrow> leaf s' root va' = (if ok \<and> align_down va' 4096 = va then Some pa else leaf s root va')"
    and "hhdm_offset_value s' = hhdm_offset_value s" "kernel_cr3_value s' = kernel_cr3_value s" "cr3 s' = cr3 s"
    and "grows root fs s s'"
    and "ok \<Longrightarrow> leaf s root va = None" "\<not> ok \<Longrightarrow> leaf s root va \<noteq> None \<or> length fs < 3"
    and "user_va va' \<Longrightarrow> pte s' root va' =
      (if ok \<and> align_down va' 4096 = va then Some (pa OR flags OR 1) else pte s root va')"
proof -
  have v: "user_va va" "aligned_page va" "(pa OR flags OR 1) AND ENTRY_ADDRESS = pa"
    using m address_of_new_entry(2) [of pa flags] by (auto simp: mappable_def)
  have o: "map_outcome root va (pa OR flags OR 1) fs s (ok, s')"
    using map_page_outcome [OF uspace_invD(1) [OF inv] m] r by simp
  obtain k where k: "k \<le> 3" "vspace_inv s' root (drop k fs)" using o by (auto simp: map_outcome_def)
  have l: "leaf s' root va' = (if ok \<and> align_down va' 4096 = va then Some pa else leaf s root va')"
    if "user_va va'" for va'
    using o that v(3) by (simp add: map_outcome_def leaf_def)
  show g: "grows root fs s s'" using o by (simp add: map_outcome_def)
  have fresh: "ok \<Longrightarrow> leaf s root va = None" using o by (simp add: map_outcome_def leaf_def)
  have ap: "align_down va 4096 = va" using v(2) by (rule page_base_id)
  have t': "tables s' root \<subseteq> tables s root \<union> set fs" using g by (simp add: grows_def)
  have sub: "set (drop k fs) \<subseteq> set fs" by (rule set_drop_subset)
  have "u \<notin> set (drop k fs) \<and> u \<notin> tables s' root" if "user_va a" "leaf s' root a = Some u" for a u
    using l [OF that(1)] that pa(1,2) t' sub uspace_invD(2,3) [OF inv that(1)] by (auto split: if_splits)
  moreover have "align_down a 4096 = align_down b 4096"
    if "user_va a" "user_va b" "leaf s' root a = Some u" "leaf s' root b = Some u" for a b u
    using l [OF that(1)] l [OF that(2)] that pa(3) uspace_invD(4) [OF inv that(1,2), of u]
    by (metis option.inject)
  ultimately have "uspace_inv s' root (drop k fs)" using k(2) unfolding uspace_inv_def by blast
  then show "\<exists>k \<le> 3. uspace_inv s' root (drop k fs)" using k(1) by blast
  show "user_va va' \<Longrightarrow> leaf s' root va' = (if ok \<and> align_down va' 4096 = va then Some pa else leaf s root va')"
    by (rule l)
  show "hhdm_offset_value s' = hhdm_offset_value s" "kernel_cr3_value s' = kernel_cr3_value s" "cr3 s' = cr3 s"
      "ok \<Longrightarrow> leaf s root va = None" "\<not> ok \<Longrightarrow> leaf s root va \<noteq> None \<or> length fs < 3"
      "user_va va' \<Longrightarrow> pte s' root va' =
        (if ok \<and> align_down va' 4096 = va then Some (pa OR flags OR 1) else pte s root va')"
    using o by (simp_all add: map_outcome_def leaf_def)
qed

definition tables_kept :: "u64 \<Rightarrow> mm_state \<Rightarrow> mm_state \<Rightarrow> bool" where
  "tables_kept root s s' \<longleftrightarrow> hhdm_offset_value s' = hhdm_offset_value s \<and>
     (\<forall>t x. t \<in> tables s root \<longrightarrow> page_at s t x \<longrightarrow> kmem s' x = kmem s x)"

lemma walk_cong:
  assumes kept: "tables_kept root s s'"
  shows "upath p \<Longrightarrow> walk s' root p = walk s root p"
proof (induction p rule: rev_induct)
  case (snoc i p)
  note up = upath_snoc [OF snoc.prems]
  have "entry s' t i = entry s t i" if "walk s root p = Some t" for t
    using up that kept by (intro entry_cong) (auto simp: tables_def tables_kept_def)
  then show ?case using snoc.IH up by (auto simp: walk_snoc next_table_def split: option.splits)
qed simp

lemma same_tables:
  assumes kept: "tables_kept root s s'"
  shows "tables s' root = tables s root" and "user_va va \<Longrightarrow> leaf s' root va = leaf s root va"
    and "user_va va \<Longrightarrow> pte s' root va = pte s root va"
proof -
  note w = walk_cong [OF kept]
  show "tables s' root = tables s root" using w by (auto simp: tables_def)
  show p: "pte s' root va = pte s root va" if "user_va va"
  proof (cases "walk s root (va_path va)")
    case None
    then show ?thesis using w [OF upath_va_path [OF that]] by (simp add: pte_def)
  next
    case (Some t)
    then have "t \<in> tables s root" using upath_va_path [OF that] unfolding tables_def by blast
    then have "entry s' t (pt_index va) = entry s t (pt_index va)"
      using kept by (intro entry_cong) (auto simp: tables_kept_def)
    then show ?thesis using Some w [OF upath_va_path [OF that]] by (simp add: pte_def)
  qed
  show "user_va va \<Longrightarrow> leaf s' root va = leaf s root va" using p by (simp add: leaf_def)
qed

text \<open>A change of memory outside of the tables keeps the invariant, with any free list beside them.\<close>

lemma uspace_same_tables:
  assumes inv: "uspace_inv s root fs" and kept: "tables_kept root s s'"
    and pool: "pmm_inv s' gs"
    and free: "\<And>f. f \<in> set gs \<Longrightarrow> f AND ENTRY_ADDRESS = f \<and> f \<notin> tables s root \<and>
      (\<forall>va. user_va va \<longrightarrow> leaf s root va \<noteq> Some f)"
  shows "uspace_inv s' root gs"
proof -
  note v = uspace_invD(1) [OF inv]
  note w = walk_cong [OF kept] and t = same_tables [OF kept]
  have "aligned_page u \<and> u \<notin> set gs" if "upath p" "walk s' root p = Some u" for p u
    using that w [OF that(1)] vspace_invD(3) [OF v that(1)] free by (auto simp: tables_def)
  moreover have "p = q" if "upath p" "upath q" "walk s' root p = Some u" "walk s' root q = Some u" for p q u
    using that w [OF that(1)] w [OF that(2)] vspace_invD(5) [OF v that(1,2)] by simp
  ultimately have "vspace_inv s' root gs"
    using pool free unfolding vspace_inv_def by blast
  moreover have "g \<notin> set gs \<and> g \<notin> tables s' root" if "user_va va" "leaf s' root va = Some g" for va g
    using that t free [of g] uspace_invD(3) [OF inv that(1)] by auto
  moreover have "align_down va 4096 = align_down va' 4096"
    if "user_va va" "user_va va'" "leaf s' root va = Some g" "leaf s' root va' = Some g" for va va' g
    using that t(2) uspace_invD(4) [OF inv that(1,2)] by simp
  ultimately show ?thesis unfolding uspace_inv_def by blast
qed

text \<open>A frame that is taken from the pool and given a content.\<close>

lemma alloc_uspace:
  assumes inv: "uspace_inv s root (f # fs)" and a: "xbks_pmm_alloc_frame s = (f, s0)"
    and fill: "s' = s0\<lparr>kmem := m\<rparr>" "\<forall>x. \<not> page_at s f x \<longrightarrow> m x = kmem s0 x"
  shows "uspace_inv s' root fs" and "user_va va \<Longrightarrow> leaf s' root va = leaf s root va"
    and "user_va va \<Longrightarrow> pte s' root va = pte s root va"
    and "tables s' root = tables s root"
    and "\<not> page_at s f x \<Longrightarrow> m x = kmem s x"
    and "hhdm_offset_value s' = hhdm_offset_value s" "kernel_cr3_value s' = kernel_cr3_value s" "cr3 s' = cr3 s"
proof -
  note v = uspace_invD(1) [OF inv]
  have s0: "s0 = snd (xbks_pmm_alloc_frame s)" using a by simp
  show h: "hhdm_offset_value s' = hhdm_offset_value s" "kernel_cr3_value s' = kernel_cr3_value s" "cr3 s' = cr3 s"
    unfolding fill(1) s0 by simp_all
  show k: "m x = kmem s x" if "\<not> page_at s f x" for x
    using alloc_mem [OF vspace_invD(1) [OF v], of x] fill(2) that by (simp add: s0)
  have f: "aligned_page f" "f \<notin> set fs" "f \<notin> tables s root"
    using frames_aligned [OF v] vspace_invD(1) [OF v] tables_not_free [OF v] by (auto simp: pmm_inv_def)
  have mem: "kmem s' x = kmem s x" if "t \<in> tables s root" "page_at s t x" for t x
    using pages_apart [OF tables_aligned [OF v that(1)] f(1) _ that(2)] that(1) f(3) k by (auto simp: fill(1))
  then have kept: "tables_kept root s s'" using h(1) by (simp add: tables_kept_def)
  have p: "pmm_inv s' fs"
  proof (rule pmm_inv_other_memory)
    show "pmm_inv s0 fs" unfolding s0 by (rule alloc_inv [OF vspace_invD(1) [OF v]])
    fix g x assume g: "g \<in> set fs" "page_at s0 g x"
    then have "aligned_page g" "g \<noteq> f" "page_at s g x" using frames_aligned [OF v] f(2) s0 by auto
    then show "kmem s' x = kmem s0 x" using pages_apart [OF _ f(1)] fill by simp
  qed (simp_all add: fill(1))
  show "tables s' root = tables s root" "user_va va \<Longrightarrow> leaf s' root va = leaf s root va"
      "user_va va \<Longrightarrow> pte s' root va = pte s root va"
    using same_tables [OF kept] by blast+
  show "uspace_inv s' root fs"
  proof (rule uspace_same_tables [OF inv kept p])
    fix g assume g: "g \<in> set fs"
    then show "g AND ENTRY_ADDRESS = g \<and> g \<notin> tables s root \<and> (\<forall>va. user_va va \<longrightarrow> leaf s root va \<noteq> Some g)"
      using vspace_invD(2) [OF v] tables_not_free [OF v] uspace_invD(2) [OF inv] by fastforce
  qed
qed

lemma free_uspace:
  assumes inv: "uspace_inv s root fs"
    and f: "usable_frame s f" "f AND ENTRY_ADDRESS = f" "f \<notin> set fs" "f \<notin> tables s root"
      "\<forall>va. user_va va \<longrightarrow> leaf s root va \<noteq> Some f"
  shows "uspace_inv (xbks_pmm_free_frame f s) root (f # fs)"
    and "user_va va \<Longrightarrow> leaf (xbks_pmm_free_frame f s) root va = leaf s root va"
    and "\<not> page_at s f x \<Longrightarrow> kmem (xbks_pmm_free_frame f s) x = kmem s x"
proof -
  note v = uspace_invD(1) [OF inv] and al = usable_frame_aligned [OF f(1)]
  show k: "kmem (xbks_pmm_free_frame f s) x = kmem s x" if "\<not> page_at s f x" for x
    using free_mem [OF al that] .
  have mem: "kmem (xbks_pmm_free_frame f s) x = kmem s x" if "t \<in> tables s root" "page_at s t x" for t x
    using pages_apart [OF tables_aligned [OF v that(1)] al _ that(2)] that(1) f(4) k by metis
  then have kept: "tables_kept root s (xbks_pmm_free_frame f s)" by (simp add: tables_kept_def)
  show "user_va va \<Longrightarrow> leaf (xbks_pmm_free_frame f s) root va = leaf s root va"
    using same_tables [OF kept] by blast
  show "uspace_inv (xbks_pmm_free_frame f s) root (f # fs)"
  proof (rule uspace_same_tables [OF inv kept free_inv [OF vspace_invD(1) [OF v] f(1,3)]])
    fix g assume "g \<in> set (f # fs)"
    then show "g AND ENTRY_ADDRESS = g \<and> g \<notin> tables s root \<and> (\<forall>va. user_va va \<longrightarrow> leaf s root va \<noteq> Some g)"
      using f(2,4,5) vspace_invD(2) [OF v] tables_not_free [OF v] uspace_invD(2) [OF inv] by fastforce
  qed
qed

section \<open>Ownership\<close>

text \<open>
  The frames an address space and the free list own between them. An operation on the address space is
  \<open>confined\<close> when it writes to no other frame and acquires none: what it leaves alone includes the
  memory of every other process.
\<close>

definition owned :: "mm_state \<Rightarrow> u64 \<Rightarrow> u64 list \<Rightarrow> u64 set" where
  "owned s root fs = tables s root \<union> {g. \<exists>va. user_va va \<and> leaf s root va = Some g} \<union> set fs"

definition confined :: "u64 \<Rightarrow> mm_state \<Rightarrow> u64 list \<Rightarrow> mm_state \<Rightarrow> u64 list \<Rightarrow> bool" where
  "confined root s fs s' fs' \<longleftrightarrow> owned s' root fs' \<subseteq> owned s root fs \<and>
     hhdm_offset_value s' = hhdm_offset_value s \<and> kernel_cr3_value s' = kernel_cr3_value s \<and> cr3 s' = cr3 s \<and>
     (\<forall>x. (\<forall>g \<in> owned s root fs. \<not> page_at s g x) \<longrightarrow> kmem s' x = kmem s x)"

lemma confined_refl [simp]: "confined root s fs s fs"
  by (simp add: confined_def)

lemma confined_trans:
  assumes "confined root s fs s' fs'" "confined root s' fs' s'' fs''"
  shows "confined root s fs s'' fs''"
proof -
  have "kmem s'' x = kmem s x" if "\<forall>g \<in> owned s root fs. \<not> page_at s g x" for x
  proof -
    have "\<forall>g \<in> owned s' root fs'. \<not> page_at s' g x" using assms(1) that by (auto simp: confined_def)
    then show ?thesis using assms that by (simp add: confined_def)
  qed
  then show ?thesis using assms by (auto simp: confined_def)
qed

section \<open>Mapping\<close>

definition maps_zero_page :: "u64 \<Rightarrow> u64 \<Rightarrow> u64 list \<Rightarrow> mm_state \<Rightarrow> bool \<Rightarrow> mm_state \<Rightarrow> bool" where
  "maps_zero_page root va fs s ok s' \<longleftrightarrow>
     (\<exists>fs'. uspace_inv s' root fs' \<and> confined root s fs s' fs' \<and> length fs \<le> length fs' + 4) \<and>
     (if ok then umem s root va = None else umem s root va \<noteq> None \<or> length fs < 4) \<and>
     (\<forall>va'. user_va va' \<longrightarrow>
        umem s' root va' = (if ok \<and> align_down va' 4096 = va then Some 0 else umem s root va'))"

lemma umem_None: "user_va va \<Longrightarrow> umem s root va = None \<longleftrightarrow> leaf s root va = None"
  by (simp add: umem_leaf)

lemma page_flags: "fl AND ENTRY_ADDRESS = 0 \<Longrightarrow> (fl OR XBKS_PAGE_USER) AND ENTRY_ADDRESS = 0"
  by (simp add: bit.conj_disj_distrib2)

lemma confined_mono: "confined root s fs s' gs \<Longrightarrow> set hs \<subseteq> set gs \<Longrightarrow> confined root s fs s' hs"
  by (auto simp: confined_def owned_def)

lemma free_confined:
  assumes inv: "uspace_inv s root fs"
    and f: "usable_frame s f" "f AND ENTRY_ADDRESS = f" "f \<notin> set fs" "f \<notin> tables s root"
      "\<forall>va. user_va va \<longrightarrow> leaf s root va \<noteq> Some f"
  shows "confined root s (f # fs) (xbks_pmm_free_frame f s) (f # fs)"
    and "user_va va \<Longrightarrow> umem (xbks_pmm_free_frame f s) root va = umem s root va"
    and "user_va va \<Longrightarrow> pte (xbks_pmm_free_frame f s) root va = pte s root va"
proof -
  note F = free_uspace [OF inv f]
  let ?s = "xbks_pmm_free_frame f s"
  have al: "aligned_page f" using usable_frame_aligned [OF f(1)] .
  have "kmem ?s x = kmem s x" if "t \<in> tables s root" "page_at s t x" for t x
    using pages_apart [OF tables_aligned [OF uspace_invD(1) [OF inv] that(1)] al _ that(2)] that(1) f(4) F(3) by metis
  then have kept: "tables_kept root s ?s" by (simp add: tables_kept_def)
  show "user_va va \<Longrightarrow> pte ?s root va = pte s root va" by (rule same_tables(3) [OF kept])
  have "owned ?s root (f # fs) = owned s root (f # fs)"
    using same_tables(1) [OF kept] F(2) by (auto simp: owned_def)
  then show "confined root s (f # fs) ?s (f # fs)"
    using F(3) by (auto simp: confined_def owned_def)
  show "umem ?s root va = umem s root va" if u: "user_va va"
  proof (rule umem_cong [OF inv u _ F(2) [OF u]])
    fix g x assume "leaf s root va = Some g" "page_at s g x"
    then show "kmem ?s x = kmem s x"
      using pages_apart [OF leaf_aligned al, of s root va g s x] f(5) u F(3) [of x] by blast
  qed simp
qed

text \<open>The frame that is allocated, given a content and mapped: the page it backs reads as that content.\<close>

lemma alloc_map_page:
  assumes inv: "uspace_inv s root (f # gs)" and a: "xbks_pmm_alloc_frame s = (f, s0)"
    and fill: "s1 = s0\<lparr>kmem := c\<rparr>" "\<forall>x. \<not> page_at s f x \<longrightarrow> c x = kmem s0 x"
    and m: "xbks_vmm_map_page root va f fl s1 = (ok, s2)" and mp: "mappable va f fl"
  shows "\<exists>k \<le> 3. uspace_inv s2 root (drop k gs) \<and> confined root s (f # gs) s2 (f # drop k gs) \<and>
      f \<notin> tables s2 root \<and> f \<notin> set (drop k gs)"
    and "user_va va' \<Longrightarrow> leaf s2 root va' = (if ok \<and> align_down va' 4096 = va then Some f else leaf s root va')"
    and "user_va va' \<Longrightarrow> umem s2 root va' =
      (if ok \<and> align_down va' 4096 = va then Some (c (byte_at s f va')) else umem s root va')"
    and "ok \<Longrightarrow> leaf s root va = None" "\<not> ok \<Longrightarrow> leaf s root va \<noteq> None \<or> length gs < 3"
    and "user_va va' \<Longrightarrow> pte s2 root va' =
      (if ok \<and> align_down va' 4096 = va then Some (f OR fl OR 1) else pte s root va')"
proof -
  note v = uspace_invD(1) [OF inv] and A = alloc_uspace [OF inv a fill]
  have f: "usable_frame s f" "f \<notin> set gs" "f \<notin> tables s root" "\<forall>va. user_va va \<longrightarrow> leaf s root va \<noteq> Some f"
    using vspace_invD(1) [OF v] tables_not_free [OF v] uspace_invD(2) [OF inv] by (auto simp: pmm_inv_def)
  have al: "aligned_page f" using usable_frame_aligned [OF f(1)] .
  have fr: "f \<notin> tables s1 root" "\<forall>va. user_va va \<longrightarrow> leaf s1 root va \<noteq> Some f"
    using f(3,4) A(2,4) by auto
  note M = map_page_umem [OF A(1) mp f(2) fr m]
  obtain k where k: "k \<le> 3" "uspace_inv s2 root (drop k gs)" using M(1) by blast
  have sub: "set (drop k gs) \<subseteq> set gs" by (rule set_drop_subset)
  have t2: "tables s2 root \<subseteq> tables s root \<union> set gs" using M(6) A(4) by (simp add: grows_def)
  have k2: "kmem s2 x = c x" if "\<forall>t \<in> tables s2 root. \<not> page_at s t x" for x
    using M(6) that A(6) by (simp add: grows_def fill(1))
  show l2: "leaf s2 root va' = (if ok \<and> align_down va' 4096 = va then Some f else leaf s root va')"
    if "user_va va'" for va'
    using M(2) [OF that] A(2) [OF that] by simp
  have st: "hhdm_offset_value s2 = hhdm_offset_value s" "kernel_cr3_value s2 = kernel_cr3_value s" "cr3 s2 = cr3 s"
    using M(3-5) A(6-8) by simp_all
  have ow: "owned s2 root (f # drop k gs) \<subseteq> owned s root (f # gs)"
    using t2 l2 sub by (auto simp: owned_def split: if_splits)
  have "kmem s2 x = kmem s x" if "\<forall>g \<in> owned s root (f # gs). \<not> page_at s g x" for x
  proof -
    have "\<forall>t \<in> tables s2 root. \<not> page_at s t x" "\<not> page_at s f x"
      using that t2 by (auto simp: owned_def)
    then show ?thesis using k2 A(5) by simp
  qed
  then have "confined root s (f # gs) s2 (f # drop k gs)" using ow st by (simp add: confined_def)
  then show "\<exists>k \<le> 3. uspace_inv s2 root (drop k gs) \<and> confined root s (f # gs) s2 (f # drop k gs) \<and>
      f \<notin> tables s2 root \<and> f \<notin> set (drop k gs)"
    using k t2 f(2,3) sub by blast
  have keep: "kmem s2 x = (if g = f then c x else kmem s x)"
    if g: "aligned_page g" "g \<notin> tables s2 root" "page_at s g x" for g x
  proof -
    have "\<not> page_at s t x" if "t \<in> tables s2 root" for t
      using pages_apart [OF g(1) tables_aligned [OF uspace_invD(1) [OF k(2)] that] _ g(3)] that g(2) by blast
    then have "kmem s2 x = c x" using k2 by blast
    then show ?thesis using A(5) pages_apart [OF g(1) al _ g(3)] g(3) by auto
  qed
  show "umem s2 root va' = (if ok \<and> align_down va' 4096 = va then Some (c (byte_at s f va')) else umem s root va')"
    if u: "user_va va'"
  proof (cases "leaf s2 root va'")
    case None
    then show ?thesis using l2 [OF u] by (auto simp: umem_leaf [OF u] split: if_splits)
  next
    case (Some g)
    have "kmem s2 (byte_at s g va') = (if g = f then c (byte_at s g va') else kmem s (byte_at s g va'))"
      using leaf_aligned [OF Some] uspace_invD(3) [OF k(2) u Some] byte_in_page by (rule keep)
    then show ?thesis
      using Some l2 [OF u] f(4) u by (auto simp: umem_leaf [OF u] byte_at_def st split: if_splits)
  qed
  show "ok \<Longrightarrow> leaf s root va = None" "\<not> ok \<Longrightarrow> leaf s root va \<noteq> None \<or> length gs < 3"
    using M(7,8) A(2) mp by (auto simp: mappable_def)
  show "user_va va' \<Longrightarrow> pte s2 root va' =
      (if ok \<and> align_down va' 4096 = va then Some (f OR fl OR 1) else pte s root va')"
    using M(9) A(3) by simp
qed

text \<open>
  The outcome of mapping a page with a content, for the callers that give the frame back where the mapping
  fails: at most four frames are used, and it fails only where the page is mapped or frames run out.
\<close>

definition maps_page :: "u64 \<Rightarrow> u64 \<Rightarrow> u64 \<Rightarrow> (u64 \<Rightarrow> u8) \<Rightarrow> u64 list \<Rightarrow> mm_state \<Rightarrow> bool \<Rightarrow> mm_state \<Rightarrow> bool" where
  "maps_page root va fl content fs s ok s' \<longleftrightarrow>
     (\<exists>fs'. uspace_inv s' root fs' \<and> confined root s fs s' fs' \<and> length fs \<le> length fs' + 4) \<and>
     (if ok then umem s root va = None else umem s root va \<noteq> None \<or> length fs < 4) \<and>
     (\<forall>va'. user_va va' \<longrightarrow>
        umem s' root va' = (if ok \<and> align_down va' 4096 = va then Some (content va') else umem s root va')) \<and>
     (\<forall>va'. user_va va' \<longrightarrow> map_option (\<lambda>e. e AND 0xfff) (pte s' root va') =
        (if ok \<and> align_down va' 4096 = va then Some ((fl OR 1) AND 0xfff) else map_option (\<lambda>e. e AND 0xfff) (pte s root va')))"

lemma flags_of_new_entry: "aligned_page f \<Longrightarrow> (f OR fl OR 1) AND 0xfff = (fl OR 1) AND 0xfff"
  by (simp add: aligned_page_def bit.conj_disj_distrib2)

lemma map_or_free:
  assumes inv: "uspace_inv s root (f # gs)" and a: "xbks_pmm_alloc_frame s = (f, s0)"
    and fill: "s1 = s0\<lparr>kmem := c\<rparr>" "\<forall>x. \<not> page_at s f x \<longrightarrow> c x = kmem s0 x"
    and m: "xbks_vmm_map_page root va f fl s1 = (ok, s2)"
    and va: "user_va va" "aligned_page va" and fl: "fl AND ENTRY_ADDRESS = 0"
    and content: "\<And>va'. align_down va' 4096 = va \<Longrightarrow> c (byte_at s f va') = content va'"
    and s': "s' = (if ok then s2 else xbks_pmm_free_frame f s2)"
  shows "maps_page root va fl content (f # gs) s ok s'"
proof -
  note v = uspace_invD(1) [OF inv]
  have f: "usable_frame s f" "f AND ENTRY_ADDRESS = f"
    using vspace_invD(1,2) [OF v] by (auto simp: pmm_inv_def usable_frame_def)
  have mp: "mappable va f fl"
    using va f usable_frame_aligned fl by (simp add: mappable_def)
  note M = alloc_map_page [OF inv a fill m mp] and E = flags_of_new_entry [OF usable_frame_aligned [OF f(1)]]
  obtain k where k: "k \<le> 3" "uspace_inv s2 root (drop k gs)" "confined root s (f # gs) s2 (f # drop k gs)"
      "f \<notin> tables s2 root" "f \<notin> set (drop k gs)"
    using M(1) by blast
  show ?thesis
  proof (cases ok)
    case True
    have "confined root s (f # gs) s2 (drop k gs)" by (rule confined_mono [OF k(3)]) auto
    moreover have "length (f # gs) \<le> length (drop k gs) + 4" using k(1) by simp
    ultimately have "\<exists>fs'. uspace_inv s' root fs' \<and> confined root s (f # gs) s' fs' \<and> length (f # gs) \<le> length fs' + 4"
      using k(2) True s' by auto
    then show ?thesis
      using True s' M(3,4,6) umem_None [OF va(1)] content E by (simp add: maps_page_def)
  next
    case False
    have uf: "usable_frame s2 f" using f(1) k(3) by (simp add: usable_frame_def confined_def)
    have nl: "\<forall>va. user_va va \<longrightarrow> leaf s2 root va \<noteq> Some f"
      using M(2) uspace_invD(2) [OF inv] False by auto
    note F = free_uspace [OF k(2) uf f(2) k(5,4) nl] and F' = free_confined [OF k(2) uf f(2) k(5,4) nl]
    have "confined root s (f # gs) s' (f # drop k gs)" using confined_trans [OF k(3) F'(1)] s' False by simp
    moreover have "length (f # gs) \<le> length (f # drop k gs) + 4" using k(1) by simp
    ultimately have "\<exists>fs'. uspace_inv s' root fs' \<and> confined root s (f # gs) s' fs' \<and> length (f # gs) \<le> length fs' + 4"
      using F(1) s' False by metis
    then show ?thesis
      using False s' F'(2,3) M(3,5,6) umem_None [OF va(1)] by (auto simp: maps_page_def)
  qed
qed

lemma map_user_page_spec:
  assumes inv: "uspace_inv s root fs" and va: "user_va va" "aligned_page va" and fl: "fl AND ENTRY_ADDRESS = 0"
    and r: "map_user_page root va fl s = (ok, s')"
  shows "maps_zero_page root va fs s ok s'"
proof (cases fs)
  case Nil
  then have "xbks_pmm_alloc_frame s = (0, s)"
    using uspace_invD(1) [OF inv] vspace_invD(1) alloc_empty by simp
  then have "ok = False" "s' = s" using r by (simp_all add: map_user_page_def)
  then show ?thesis using inv Nil unfolding maps_zero_page_def by force
next
  case (Cons f gs)
  note inv' = inv [unfolded Cons]
  note v = uspace_invD(1) [OF inv']
  obtain s1 where s1: "xbks_pmm_alloc_frame s = (f, s1)" using alloc_head [OF vspace_invD(1) [OF v]] by simp
  obtain ok2 s2 where m: "xbks_vmm_map_page root va f (fl OR XBKS_PAGE_USER) s1 = (ok2, s2)" by fastforce
  have "f \<noteq> 0" using vspace_invD(1) [OF v] by (auto simp: pmm_inv_def usable_frame_def)
  then have r': "ok = ok2" "s' = (if ok2 then s2 else xbks_pmm_free_frame f s2)"
    using r by (auto simp: map_user_page_def s1 m split: if_splits)
  have zero: "kmem s1 (byte_at s f a) = 0" for a
    using alloc_mem [OF vspace_invD(1) [OF v], of "byte_at s f a"] byte_in_page s1 by simp
  have "maps_page root va (fl OR XBKS_PAGE_USER) (\<lambda>_. 0) (f # gs) s ok2 s'"
    using page_flags [OF fl] zero by (intro map_or_free [OF inv' s1, of s1 "kmem s1" va _ ok2 s2] m va r'(2)) auto
  then show ?thesis unfolding r'(1) Cons maps_zero_page_def maps_page_def by blast
qed

text \<open>A range of pages, up to the first that cannot be mapped.\<close>

definition maps_zeroes :: "u64 \<Rightarrow> nat \<Rightarrow> nat \<Rightarrow> u64 list \<Rightarrow> mm_state \<Rightarrow> bool \<Rightarrow> mm_state \<Rightarrow> bool" where
  "maps_zeroes root lo hi fs s ok s' \<longleftrightarrow>
     (\<exists>fs'. uspace_inv s' root fs' \<and> confined root s fs s' fs' \<and> length fs \<le> length fs' + 4 * ((hi - lo) div 4096)) \<and>
     (\<exists>mid. lo \<le> mid \<and> mid \<le> hi \<and>
        (\<forall>va. user_va va \<longrightarrow> lo \<le> unat va \<longrightarrow> unat va < mid \<longrightarrow> umem s root va = None) \<and>
        (\<forall>va. user_va va \<longrightarrow> umem s' root va = (if lo \<le> unat va \<and> unat va < mid then Some 0 else umem s root va)) \<and>
        (if ok then mid = hi
         else mid < hi \<and> (umem s root (of_nat mid) \<noteq> None \<or> length fs < 4 * ((hi - lo) div 4096))))"

lemma multiple_div: "x div n * n = q * n \<longleftrightarrow> q * n \<le> x \<and> x < q * n + n" if "0 < n" for n :: nat
proof -
  have "x div n = q" if "q * n \<le> x" "x < q * n + n"
    using that by (intro div_nat_eqI) (simp_all add: ac_simps)
  moreover have "x div n * n \<le> x" "x < x div n * n + n"
    using \<open>0 < n\<close> dividend_less_div_times [of n x] by simp_all
  ultimately show ?thesis using \<open>0 < n\<close> by auto
qed

lemma in_this_page:
  assumes "aligned_page p"
  shows "align_down va 4096 = p \<longleftrightarrow> unat p \<le> unat va \<and> unat va < unat p + 4096"
proof -
  obtain q where q: "unat p = q * 4096" using assms by (auto simp: aligned_page_iff)
  then have "align_down va 4096 = p \<longleftrightarrow> unat va div 4096 * 4096 = q * 4096"
    by (simp only: word_unat_eq_iff unat_page_base)
  then show ?thesis using multiple_div [of 4096 "unat va" q] q by simp
qed

lemma leaf_same_page:
  assumes "user_va a" "user_va b" "align_down a 4096 = align_down b 4096"
  shows "leaf s root b = leaf s root a"
proof -
  have "va_path b = va_path a" "pt_index b = pt_index a" using same_page_iff [OF assms(1,2)] assms(3) by auto
  then show ?thesis by (simp only: pte_def leaf_def)
qed

lemma umem_same_page:
  assumes "user_va a" "user_va b" "align_down a 4096 = align_down b 4096" "umem s root a = None"
  shows "umem s root b = None"
  using leaf_same_page [OF assms(1-3)] assms by (simp add: umem_None)

lemma maps_zeroes_step:
  assumes f1: "confined root s fs s1 fs1" "length fs \<le> length fs1 + 4"
    and m1: "\<forall>va. user_va va \<longrightarrow> lo \<le> unat va \<longrightarrow> unat va < lo + 4096 \<longrightarrow> umem s root va = None"
      "\<forall>va. user_va va \<longrightarrow> umem s1 root va =
        (if lo \<le> unat va \<and> unat va < lo + 4096 then Some 0 else umem s root va)"
    and hi: "lo + 4096 \<le> hi" "hi \<le> 2 ^ 47"
    and rest: "maps_zeroes root (lo + 4096) hi fs1 s1 ok s'"
  shows "maps_zeroes root lo hi fs s ok s'"
proof -
  let ?n = "(hi - (lo + 4096)) div 4096"
  have n: "(hi - lo) div 4096 = Suc ?n" using hi(1) by (simp add: le_div_geq)
  obtain fs2 where f2: "uspace_inv s' root fs2" "confined root s1 fs1 s' fs2" "length fs1 \<le> length fs2 + 4 * ?n"
    using rest by (auto simp: maps_zeroes_def)
  obtain mid where mid: "lo + 4096 \<le> mid" "mid \<le> hi"
      "\<forall>va. user_va va \<longrightarrow> lo + 4096 \<le> unat va \<longrightarrow> unat va < mid \<longrightarrow> umem s1 root va = None"
      "\<forall>va. user_va va \<longrightarrow> umem s' root va = (if lo + 4096 \<le> unat va \<and> unat va < mid then Some 0 else umem s1 root va)"
      "if ok then mid = hi else mid < hi \<and> (umem s1 root (of_nat mid) \<noteq> None \<or> length fs1 < 4 * ?n)"
    using rest unfolding maps_zeroes_def by (elim conjE exE) rule
  have "user_va (of_nat mid)" "unat (of_nat mid :: u64) = mid" if "mid < hi"
    using that hi(2) by (simp_all add: user_va_def word_less_nat_alt unat_of_nat)
  then have stop: "if ok then mid = hi else mid < hi \<and> (umem s root (of_nat mid) \<noteq> None \<or> length fs < 4 * Suc ?n)"
    using mid(1,5) m1(2) f1(2) by (auto split: if_splits)
  have none: "\<forall>va. user_va va \<longrightarrow> lo \<le> unat va \<longrightarrow> unat va < mid \<longrightarrow> umem s root va = None"
    using mid(3) m1 by (metis linorder_not_le)
  have zero: "\<forall>va. user_va va \<longrightarrow> umem s' root va = (if lo \<le> unat va \<and> unat va < mid then Some 0 else umem s root va)"
    using mid(1,4) m1(2) by auto
  have "confined root s fs s' fs2" using confined_trans [OF f1(1) f2(2)] .
  moreover have "length fs \<le> length fs2 + 4 * Suc ?n" using f1(2) f2(3) by simp
  ultimately show ?thesis
    using f2(1) stop none zero mid(1,2) unfolding maps_zeroes_def n by (intro conjI exI [of _ fs2] exI [of _ mid]) simp_all
qed

lemma map_pages_loop_spec:
  assumes "uspace_inv s root fs" "aligned_page page" "aligned_page stop" "unat page \<le> unat stop" "unat stop \<le> 2 ^ 47"
    and fl: "fl AND ENTRY_ADDRESS = 0"
  shows "\<exists>ok s'. map_pages_loop root fl stop page s = Some (ok, s') \<and>
    maps_zeroes root (unat page) (unat stop) fs s ok s'"
  using assms(1-5)
proof (induction "unat stop - unat page" arbitrary: page s fs rule: less_induct)
  case less
  show ?case
  proof (cases "page < stop")
    case False
    then have e: "unat page = unat stop" using less.prems(4) by (simp add: word_less_nat_alt)
    have "maps_zeroes root (unat page) (unat stop) fs s True s"
      using less.prems(1) unfolding maps_zeroes_def e by (auto intro!: exI [of _ fs])
    then show ?thesis using False by (intro exI [of _ True] exI [of _ s]) (simp add: map_pages_loop.simps)
  next
    case True
    obtain ok s1 where r: "map_user_page root page fl s = (ok, s1)" by fastforce
    have u: "user_va page" using True less.prems(5) by (simp add: user_va_def word_less_nat_alt)
    have m: "maps_zero_page root page fs s ok s1"
      using map_user_page_spec [OF less.prems(1) u less.prems(2) fl r] .
    have d: "4096 dvd unat page" "4096 dvd unat stop" using less.prems(2,3) by (simp_all add: aligned_page_iff)
    have lt: "unat page + 4096 \<le> unat stop" using True d by (auto simp: word_less_nat_alt elim!: dvdE)
    have nx: "unat (page + 4096) = unat page + 4096"
      using unat_sum2 [of page 4096] lt less.prems(5) by simp
    obtain fs1 where f1: "uspace_inv s1 root fs1" "confined root s fs s1 fs1" "length fs \<le> length fs1 + 4"
      using m by (auto simp: maps_zero_page_def)
    note pg = in_this_page [OF less.prems(2)]
    have m1: "if ok then umem s root page = None else umem s root page \<noteq> None \<or> length fs < 4"
        "user_va va \<Longrightarrow> umem s1 root va = (if ok \<and> unat page \<le> unat va \<and> unat va < unat page + 4096
          then Some 0 else umem s root va)" for va
      using m by (auto simp: maps_zero_page_def pg)
    have n: "(unat stop - unat page) div 4096 = Suc ((unat stop - unat (page + 4096)) div 4096)"
      using lt nx by (simp add: le_div_geq)
    show ?thesis
    proof (cases ok)
      case False
      have "maps_zeroes root (unat page) (unat stop) fs s False s1"
        unfolding maps_zeroes_def n using False f1 m1 lt
        by (intro conjI exI [of _ fs1] exI [of _ "unat page"]) (auto split: if_splits)
      then show ?thesis
        using True r False by (intro exI [of _ False] exI [of _ s1]) (simp add: map_pages_loop.simps)
    next
      case ok: True
      have al: "aligned_page (page + 4096)" using d(1) nx by (simp add: aligned_page_iff)
      obtain ok2 s2 where r2: "map_pages_loop root fl stop (page + 4096) s1 = Some (ok2, s2)"
          "maps_zeroes root (unat (page + 4096)) (unat stop) fs1 s1 ok2 s2"
        using less.hyps [OF _ f1(1) al less.prems(3) _ less.prems(5)] True lt nx
        by (fastforce simp: word_less_nat_alt)
      have "maps_zeroes root (unat page) (unat stop) fs s ok2 s2"
      proof (rule maps_zeroes_step [OF f1(2,3) _ _ lt less.prems(5)])
        show "\<forall>va. user_va va \<longrightarrow> unat page \<le> unat va \<longrightarrow> unat va < unat page + 4096 \<longrightarrow> umem s root va = None"
          using umem_same_page [OF u] m1(1) ok pg page_base_id [OF less.prems(2)] by metis
      qed (use r2(2) nx m1(2) ok in simp_all)
      then show ?thesis using True r ok r2(1)
        by (intro exI [of _ ok2] exI [of _ s2]) (simp add: map_pages_loop.simps)
    qed
  qed
qed

lemma map_user_range_spec:
  assumes inv: "uspace_inv s root fs" and bound: "unat base + unat sz \<le> 2 ^ 47" and fl: "fl AND ENTRY_ADDRESS = 0"
  shows "\<exists>ok s'. map_user_range root base sz fl s = Some (ok, s') \<and>
    maps_zeroes root (unat base div 4096 * 4096) ((unat base + unat sz + 4095) div 4096 * 4096) fs s ok s'"
proof -
  let ?lo = "align_down base 4096" and ?hi = "align_up (base + sz) 4096"
  have sum: "unat (base + sz) = unat base + unat sz" using bound by (intro unat_sum2) simp
  have hi: "unat ?hi = (unat base + unat sz + 4095) div 4096 * 4096"
    using unat_align_up_page [of "base + sz"] sum bound by simp
  have "(unat base + unat sz + 4095) div 4096 \<le> (2 ^ 47 + 4095) div 4096"
    using bound by (intro div_le_mono) simp
  then have "unat ?hi \<le> 2 ^ 47" unfolding hi by simp
  moreover have "unat ?lo \<le> unat ?hi" unfolding hi unat_page_base by (intro mult_le_mono1 div_le_mono) simp
  moreover have "aligned_page ?hi" by (simp add: aligned_page_iff hi)
  ultimately show ?thesis
    using map_pages_loop_spec [OF inv aligned_page_base [of base], of ?hi fl] fl
    by (simp add: map_user_range_def hi unat_page_base)
qed

section \<open>Writing\<close>

lemma write_in_page:
  assumes g: "aligned_page g" and bs: "unat addr mod 4096 + length bs \<le> 4096"
  shows "write_bytes m (byte_at s g addr) bs x =
    (if page_at s g x \<and> unat addr mod 4096 \<le> unat (x - (g + hhdm_offset_value s)) \<and>
        unat (x - (g + hhdm_offset_value s)) < unat addr mod 4096 + length bs
     then bs ! (unat (x - (g + hhdm_offset_value s)) - unat addr mod 4096) else m x)"
proof -
  let ?o = "addr AND 0xfff" and ?y = "x - (g + hhdm_offset_value s)"
  have o: "unat ?o = unat addr mod 4096" by (rule unat_page_offset)
  have d: "x - byte_at s g addr = ?y - ?o" by (simp add: byte_at_def)
  have y: "unat ?y < 2 ^ 64" using unsigned_less [of ?y] by simp
  have "unat (?y - ?o) < length bs \<longleftrightarrow> unat ?y < 4096 \<and> unat ?o \<le> unat ?y \<and> unat ?y < unat ?o + length bs"
  proof (cases "unat ?o \<le> unat ?y")
    case True
    then show ?thesis using bs o by (auto simp: unat_sub_if')
  next
    case False
    then have "unat (?y - ?o) = 2 ^ 64 + unat ?y - unat ?o" by (simp add: unat_sub_if')
    moreover have "unat ?o < 4096" unfolding o by simp
    ultimately have "\<not> unat (?y - ?o) < length bs" using bs by simp
    then show ?thesis using False by simp
  qed
  moreover have "unat (?y - ?o) = unat ?y - unat ?o" if "unat ?o \<le> unat ?y"
    using that by (simp add: unat_sub_if')
  ultimately show ?thesis using bs by (subst write_bytes_apply) (auto simp: d o in_block_def)
qed

definition writes :: "u64 \<Rightarrow> u64 list \<Rightarrow> nat \<Rightarrow> u8 list \<Rightarrow> mm_state \<Rightarrow> mm_state \<Rightarrow> bool" where
  "writes root fs lo bs s s' \<longleftrightarrow> uspace_inv s' root fs \<and> confined root s fs s' fs \<and>
     (\<forall>a. user_va a \<longrightarrow> umem s' root a =
        (if lo \<le> unat a \<and> unat a < lo + length bs then Some (bs ! (unat a - lo)) else umem s root a))"

lemma same_page_offset:
  assumes n: "unat addr mod 4096 + n \<le> 4096"
  shows "unat addr \<le> unat a \<and> unat a < unat addr + n \<longleftrightarrow> align_down a 4096 = align_down addr 4096 \<and>
      unat addr mod 4096 \<le> unat a mod 4096 \<and> unat a mod 4096 < unat addr mod 4096 + n"
    and "align_down a 4096 = align_down addr 4096 \<Longrightarrow> unat a mod 4096 - unat addr mod 4096 = unat a - unat addr"
proof -
  have p: "align_down a 4096 = align_down addr 4096 \<longleftrightarrow> unat a div 4096 = unat addr div 4096"
    by (simp add: word_unat_eq_iff unat_page_base)
  note e = div_mult_mod_eq [of "unat a" 4096] div_mult_mod_eq [of "unat addr" 4096]
  have "unat a div 4096 = unat addr div 4096" if "unat addr \<le> unat a" "unat a < unat addr + n"
    using that n e(2) by (intro div_nat_eqI; simp only: mult_Suc_right)
  then show "unat addr \<le> unat a \<and> unat a < unat addr + n \<longleftrightarrow> align_down a 4096 = align_down addr 4096 \<and>
      unat addr mod 4096 \<le> unat a mod 4096 \<and> unat a mod 4096 < unat addr mod 4096 + n"
    unfolding p using e n by (smt (verit, best) add_le_cancel_left nat_add_left_cancel_less add.assoc)
  show "align_down a 4096 = align_down addr 4096 \<Longrightarrow> unat a mod 4096 - unat addr mod 4096 = unat a - unat addr"
    unfolding p using e by linarith
qed

lemma write_page_spec:
  assumes inv: "uspace_inv s root fs" and u: "user_va addr" and l: "leaf s root addr = Some g"
    and bs: "unat addr mod 4096 + length bs \<le> 4096"
  shows "writes root fs (unat addr) bs s (s\<lparr>kmem := write_bytes (kmem s) (byte_at s g addr) bs\<rparr>)"
proof -
  let ?s = "s\<lparr>kmem := write_bytes (kmem s) (byte_at s g addr) bs\<rparr>"
  have al: "aligned_page g" using leaf_aligned [OF l] .
  note w = write_in_page [OF al bs, of "kmem s" s]
  have off: "kmem ?s x = kmem s x" if "\<not> page_at s g x" for x using that w by simp
  have kept: "tables_kept root s ?s"
    using pages_apart [OF tables_aligned [OF uspace_invD(1) [OF inv]] al] uspace_invD(3) [OF inv u l] off
    by (auto simp: tables_kept_def simp del: in_block_def)
  note T = same_tables [OF kept]
  have pool: "pmm_inv ?s fs"
    using pages_apart [OF frames_aligned [OF uspace_invD(1) [OF inv]] al] uspace_invD(2) [OF inv u l] off
    by (intro pmm_inv_other_memory [OF vspace_invD(1) [OF uspace_invD(1) [OF inv]]]) auto
  have inv': "uspace_inv ?s root fs"
    using inv vspace_invD(2) [OF uspace_invD(1) [OF inv]] tables_not_free [OF uspace_invD(1) [OF inv]]
      uspace_invD(2) [OF inv] by (intro uspace_same_tables [OF inv kept pool]) blast
  have "owned ?s root fs = owned s root fs" using T by (auto simp: owned_def)
  moreover have "g \<in> owned s root fs" using u l by (auto simp: owned_def)
  ultimately have c: "confined root s fs ?s fs" using off by (auto simp: confined_def)
  have "umem ?s root a = (if unat addr \<le> unat a \<and> unat a < unat addr + length bs
      then Some (bs ! (unat a - unat addr)) else umem s root a)" if a: "user_va a" for a
  proof (cases "leaf s root a")
    case None
    then have "align_down a 4096 \<noteq> align_down addr 4096"
      using umem_same_page [OF a u, of s root] umem_None a u l by auto
    then show ?thesis using same_page_offset(1) [OF bs] None T(2) [OF a] a by (auto simp: umem_leaf)
  next
    case (Some g')
    have eq: "g' = g \<longleftrightarrow> align_down a 4096 = align_down addr 4096"
      using uspace_invD(4) [OF inv a u Some] l Some leaf_same_page [OF a u, of s root] by auto
    have "page_at s g (byte_at s g' a) \<longleftrightarrow> g' = g"
      using pages_apart [OF leaf_aligned [OF Some] al] byte_in_page by blast
    then have "kmem ?s (byte_at s g' a) = (if g' = g \<and> unat addr mod 4096 \<le> unat a mod 4096 \<and>
        unat a mod 4096 < unat addr mod 4096 + length bs
        then bs ! (unat a mod 4096 - unat addr mod 4096) else kmem s (byte_at s g' a))"
      using w [of "byte_at s g' a"] byte_at_offset [of s g' a] by auto
    moreover have "byte_at ?s g' a = byte_at s g' a" by (simp add: byte_at_def)
    ultimately show ?thesis
      using Some T(2) [OF a] eq same_page_offset [OF bs, of a] by (simp add: umem_leaf a)
  qed
  then show ?thesis using inv' c by (simp add: writes_def)
qed


text \<open>The whole of \<^verbatim>\<open>write_process_memory\<close>, on a range that is mapped.\<close>

lemma writes_trans:
  assumes 1: "writes root fs lo bs s s'" and 2: "writes root fs (lo + length bs) cs s' s''"
  shows "writes root fs lo (bs @ cs) s s''"
proof -
  have "umem s'' root a = (if lo \<le> unat a \<and> unat a < lo + length (bs @ cs)
      then Some ((bs @ cs) ! (unat a - lo)) else umem s root a)" if "user_va a" for a
    using 1 2 that by (auto simp: writes_def nth_append)
  then show ?thesis using 1 2 confined_trans unfolding writes_def by blast
qed

lemma write_memory_loop_spec:
  assumes "uspace_inv s root fs" "unat written \<le> unat sz" and range: "unat va + unat sz \<le> 2 ^ 47"
    and "\<forall>a. unat va + unat written \<le> unat a \<longrightarrow> unat a < unat va + unat sz \<longrightarrow> umem s root a \<noteq> None"
    and len: "length bytes = unat sz"
    and src: "\<forall>off n. unat off + unat n \<le> unat sz \<longrightarrow> src off n = Some (take (unat n) (drop (unat off) bytes))"
  shows "\<exists>s'. write_memory_loop root va src sz written s = Some (True, s') \<and>
    writes root fs (unat va + unat written) (drop (unat written) bytes) s s'"
  using assms(1,2,4)
proof (induction "unat sz - unat written" arbitrary: written s rule: less_induct)
  case less
  show ?case
  proof (cases "written < sz")
    case False
    then have "drop (unat written) bytes = []" using len by (simp add: word_less_nat_alt)
    then show ?thesis
      using False less.prems(1) by (subst write_memory_loop.simps) (auto simp: writes_def)
  next
    case True
    let ?a = "va + written" and ?c = "chunk_size (va + written) (sz - written)"
    have w: "unat written < unat sz" "unat (sz - written) = unat sz - unat written" "0 < sz - written"
      using True by (auto simp: unat_sub_if' word_less_nat_alt word_gt_0)
    have a: "unat ?a = unat va + unat written" using range w(1) by (intro unat_sum2) simp
    note c = chunk_bounds [OF w(3), of ?a]
    have wc: "unat (written + ?c) = unat written + unat ?c" using c(2) w range by (intro unat_sum2) simp
    have u: "user_va ?a" using a range w(1) by (simp add: user_va_def word_less_nat_alt)
    have "umem s root ?a \<noteq> None" using less.prems(3) a w(1) by simp
    then obtain g where g: "leaf s root ?a = Some g" using umem_None [OF u] by auto
    let ?bs = "take (unat ?c) (drop (unat written) bytes)"
    let ?s = "s\<lparr>kmem := write_bytes (kmem s) (byte_at s g ?a) ?bs\<rparr>"
    have lbs: "length ?bs = unat ?c" using c(2) w len by simp
    have W: "writes root fs (unat ?a) ?bs s ?s"
      using c(3) lbs by (intro write_page_spec [OF less.prems(1) u g]) simp
    have "\<exists>s'. write_memory_loop root va src sz (written + ?c) ?s = Some (True, s') \<and>
        writes root fs (unat va + unat (written + ?c)) (drop (unat (written + ?c)) bytes) ?s s'"
    proof (rule less.hyps)
      show "uspace_inv ?s root fs" using W by (simp add: writes_def)
      show "\<forall>a. unat va + unat (written + ?c) \<le> unat a \<longrightarrow> unat a < unat va + unat sz \<longrightarrow> umem ?s root a \<noteq> None"
      proof (intro allI impI)
        fix b :: u64 assume b: "unat va + unat (written + ?c) \<le> unat b" "unat b < unat va + unat sz"
        then have "user_va b" using range by (simp add: user_va_def word_less_nat_alt)
        then show "umem ?s root b \<noteq> None" using W b less.prems(3) a wc lbs by (auto simp: writes_def)
      qed
    qed (use wc c w in auto)
    then obtain s' where s': "write_memory_loop root va src sz (written + ?c) ?s = Some (True, s')"
        "writes root fs (unat va + unat (written + ?c)) (drop (unat (written + ?c)) bytes) ?s s'" by blast
    have "xbks_phys_to_virt s (g + (?a AND 0xfff)) = byte_at s g ?a"
      by (simp add: xbks_phys_to_virt_def byte_at_def)
    then have "write_memory_loop root va src sz written s = Some (True, s')"
      using True s'(1) src c(2) w g
      by (subst write_memory_loop.simps) (simp add: translate_leaf [OF u] Let_def)
    moreover have "writes root fs (unat va + unat written) (?bs @ drop (unat (written + ?c)) bytes) s s'"
      using writes_trans [of root fs "unat ?a" ?bs s ?s] W s'(2) a wc lbs by (simp add: add.assoc)
    moreover have "?bs @ drop (unat (written + ?c)) bytes = drop (unat written) bytes"
      using append_take_drop_id [of "unat ?c" "drop (unat written) bytes"] by (simp only: wc drop_drop add.commute)
    ultimately show ?thesis by auto
  qed
qed

lemma write_process_memory_spec:
  assumes inv: "uspace_inv s root fs" and range: "unat va + unat sz \<le> 2 ^ 47"
    and mapped: "\<forall>a. unat va \<le> unat a \<longrightarrow> unat a < unat va + unat sz \<longrightarrow> umem s root a \<noteq> None"
    and len: "length bytes = unat sz"
    and src: "\<forall>off n. unat off + unat n \<le> unat sz \<longrightarrow> src off n = Some (take (unat n) (drop (unat off) bytes))"
  shows "\<exists>s'. write_process_memory root va src sz s = Some (True, s') \<and> writes root fs (unat va) bytes s s'"
  using write_memory_loop_spec [OF inv, of 0 sz va bytes src] assms by (simp add: write_process_memory_def)

end
