(* ===== verification/Program_Image.thy ===== *)
theory Program_Image
  imports User_Space
begin

text \<open>
  What \<^verbatim>\<open>load_elf_into_process\<close> and \<^verbatim>\<open>build_user_stack\<close> leave in the memory of a process, stated on
  the view of \<^verbatim>\<open>User_Space\<close>: every loadable segment at its address over zeroes up to the end of its last page, and
  the stack of the System V ABI.
\<close>

section \<open>Segments\<close>

text \<open>The guard of the loader, and the segments whose fields do not wrap around.\<close>

definition plain_segment :: "elf64_phdr \<Rightarrow> bool" where
  "plain_segment ph \<longleftrightarrow> unat (p_offset ph) + unat (p_filesz ph) < 2 ^ 64 \<and> unat (p_vaddr ph) + unat (p_memsz ph) < 2 ^ 64"

definition user_segment :: "u64 \<Rightarrow> elf64_phdr \<Rightarrow> bool" where
  "user_segment file_sz ph \<longleftrightarrow> segment_ok file_sz ph \<and> 0x10000 \<le> unat (p_vaddr ph) \<and>
     unat (p_vaddr ph) + unat (p_memsz ph) < 2 ^ 47"

lemma segment_refused_iff:
  assumes "plain_segment ph"
  shows "segment_refused file_sz ph \<longleftrightarrow> \<not> user_segment file_sz ph"
proof -
  have "unat (p_offset ph + p_filesz ph) = unat (p_offset ph) + unat (p_filesz ph)"
      "unat (p_vaddr ph + p_memsz ph) = unat (p_vaddr ph) + unat (p_memsz ph)"
    using assms by (simp_all add: plain_segment_def unat_sum2)
  then show ?thesis
    by (auto simp: segment_refused_def user_segment_def segment_ok_def word_less_nat_alt word_le_nat_alt)
qed

definition seg_lo :: "elf64_phdr \<Rightarrow> nat" where
  "seg_lo ph = unat (p_vaddr ph) div 4096 * 4096"

definition seg_hi :: "elf64_phdr \<Rightarrow> nat" where
  "seg_hi ph = (unat (p_vaddr ph) + unat (p_memsz ph) + 4095) div 4096 * 4096"

definition in_pages :: "elf64_phdr \<Rightarrow> u64 \<Rightarrow> bool" where
  "in_pages ph a \<longleftrightarrow> seg_lo ph \<le> unat a \<and> unat a < seg_hi ph"

lemma seg_bounds:
  "seg_lo ph \<le> unat (p_vaddr ph)" "unat (p_vaddr ph) + unat (p_memsz ph) \<le> seg_hi ph"
proof -
  show "seg_lo ph \<le> unat (p_vaddr ph)" by (simp add: seg_lo_def)
  have "x \<le> (x + 4095) div 4096 * 4096" for x :: nat
    using dividend_less_div_times [of 4096 "x + 4095"] by simp
  then show "unat (p_vaddr ph) + unat (p_memsz ph) \<le> seg_hi ph" by (simp add: seg_hi_def)
qed

text \<open>The image: what a segment makes of the byte at \<open>a\<close>, and all segments in turn.\<close>

definition segment_byte :: "u8 list \<Rightarrow> u64 \<Rightarrow> u64 \<Rightarrow> elf64_phdr \<Rightarrow> u8 option \<Rightarrow> u8 option" where
  "segment_byte data base a ph v =
     (if unat (p_vaddr ph) \<le> unat a \<and> unat a < unat (p_vaddr ph) + unat (p_filesz ph)
      then Some (data ! (unat base + unat (p_offset ph) + (unat a - unat (p_vaddr ph))))
      else if in_pages ph a then Some 0 else v)"

definition program_image :: "u8 list \<Rightarrow> u64 \<Rightarrow> elf64_phdr list \<Rightarrow> u64 \<Rightarrow> u8 option \<Rightarrow> u8 option" where
  "program_image data base segs a v = fold (segment_byte data base a) segs v"

fun apart :: "elf64_phdr list \<Rightarrow> bool" where
  "apart [] \<longleftrightarrow> True"
| "apart (ph # segs) \<longleftrightarrow> (\<forall>q \<in> set segs. \<forall>a. \<not> (in_pages ph a \<and> in_pages q a)) \<and> apart segs"

definition seg_frames :: "elf64_phdr list \<Rightarrow> nat" where
  "seg_frames segs = sum_list (map (\<lambda>ph. 4 * ((seg_hi ph - seg_lo ph) div 4096)) segs)"

text \<open>One segment: mapped and written, or its pages are taken or the frames run out.\<close>

lemma load_one_segment:
  assumes inv: "uspace_inv s root fs" and ok: "user_segment sz ph"
    and base: "unat base + unat sz \<le> length data" "length data < 2 ^ 63"
    and m: "map_user_range root (p_vaddr ph) (p_memsz ph) XBKS_PAGE_WRITABLE s = Some (True, s1)"
      "maps_zeroes root (seg_lo ph) (seg_hi ph) fs s True s1"
  shows "\<exists>s2 fs2. write_process_memory root (p_vaddr ph) (from_archive data (base + p_offset ph)) (p_filesz ph) s1 =
      Some (True, s2) \<and> uspace_inv s2 root fs2 \<and> confined root s fs s2 fs2 \<and>
      length fs \<le> length fs2 + 4 * ((seg_hi ph - seg_lo ph) div 4096) \<and>
      (\<forall>a. user_va a \<longrightarrow> umem s2 root a = segment_byte data base a ph (umem s root a))"
proof -
  obtain fs1 where f1: "uspace_inv s1 root fs1" "confined root s fs s1 fs1"
      "length fs \<le> length fs1 + 4 * ((seg_hi ph - seg_lo ph) div 4096)"
    using m(2) by (auto simp: maps_zeroes_def)
  have z: "\<forall>a. user_va a \<longrightarrow> umem s1 root a = (if in_pages ph a then Some 0 else umem s root a)"
    using m(2) by (auto simp: maps_zeroes_def in_pages_def)
  note b = seg_bounds [of ph]
  have sg: "unat (p_filesz ph) \<le> unat (p_memsz ph)" "unat (p_offset ph) + unat (p_filesz ph) \<le> unat sz"
      "unat (p_vaddr ph) + unat (p_memsz ph) < 2 ^ 47"
    using ok by (auto simp: user_segment_def segment_ok_def word_le_nat_alt)
  let ?bytes = "take (unat (p_filesz ph)) (drop (unat base + unat (p_offset ph)) data)"
  have len: "length ?bytes = unat (p_filesz ph)" using base sg(2) by simp
  have mapped: "\<forall>a. unat (p_vaddr ph) \<le> unat a \<longrightarrow> unat a < unat (p_vaddr ph) + unat (p_filesz ph) \<longrightarrow>
      umem s1 root a \<noteq> None"
    using z b sg by (auto simp: in_pages_def user_va_def word_less_nat_alt)
  have src: "\<forall>off n. unat off + unat n \<le> unat (p_filesz ph) \<longrightarrow>
      from_archive data (base + p_offset ph) off n = Some (take (unat n) (drop (unat off) ?bytes))"
  proof (intro allI impI)
    fix off n :: u64 assume n: "unat off + unat n \<le> unat (p_filesz ph)"
    have o: "unat (base + p_offset ph) = unat base + unat (p_offset ph)" using base sg(2) by (intro unat_sum2) simp
    then have "unat (base + p_offset ph + off) = unat base + unat (p_offset ph) + unat off"
      using base sg(2) n by (subst unat_sum2) simp_all
    then show "from_archive data (base + p_offset ph) off n = Some (take (unat n) (drop (unat off) ?bytes))"
      using n base sg(2) by (simp add: from_archive_def slice_def drop_take ac_simps min_def)
  qed
  obtain s2 where s2: "write_process_memory root (p_vaddr ph) (from_archive data (base + p_offset ph)) (p_filesz ph) s1 =
      Some (True, s2)" "writes root fs1 (unat (p_vaddr ph)) ?bytes s1 s2"
    using write_process_memory_spec [OF f1(1) _ mapped len src] sg by fastforce
  have "umem s2 root a = segment_byte data base a ph (umem s root a)" if "user_va a" for a
    using s2(2) z that len base sg(2) by (auto simp: writes_def segment_byte_def)
  then show ?thesis using s2 f1 confined_trans [OF f1(2)] unfolding writes_def by blast
qed

text \<open>
  All segments. The load succeeds only where every segment is acceptable and their pages are free and
  apart, and it does succeed there, given frames enough for the pages and three tables for each.
\<close>

definition placeable :: "mm_state \<Rightarrow> u64 \<Rightarrow> u64 \<Rightarrow> elf64_phdr list \<Rightarrow> bool" where
  "placeable s root sz segs \<longleftrightarrow> (\<forall>ph \<in> set segs. user_segment sz ph) \<and> apart segs \<and>
     (\<forall>ph \<in> set segs. \<forall>a. in_pages ph a \<longrightarrow> umem s root a = None)"

definition loads :: "u8 list \<Rightarrow> u64 \<Rightarrow> u64 \<Rightarrow> u64 \<Rightarrow> elf64_phdr list \<Rightarrow> u64 list \<Rightarrow> mm_state \<Rightarrow> bool \<Rightarrow> mm_state \<Rightarrow> bool" where
  "loads data base sz root segs fs s ok s' \<longleftrightarrow>
     (\<exists>fs'. uspace_inv s' root fs' \<and> confined root s fs s' fs' \<and>
        (ok \<longrightarrow> length fs \<le> length fs' + seg_frames segs)) \<and>
     (if ok then placeable s root sz segs \<and>
        (\<forall>a. user_va a \<longrightarrow> umem s' root a = program_image data base segs a (umem s root a))
      else \<not> (placeable s root sz segs \<and> seg_frames segs \<le> length fs))"

lemma in_pages_user:
  assumes "user_segment sz ph" "in_pages ph a"
  shows "user_va a"
proof -
  have "unat (p_vaddr ph) + unat (p_memsz ph) + 4095 < (2 ^ 35) * 4096 + 4096"
    using assms(1) by (simp add: user_segment_def)
  then have "(unat (p_vaddr ph) + unat (p_memsz ph) + 4095) div 4096 < 2 ^ 35 + 1"
    by (intro less_mult_imp_div_less) simp
  then have "seg_hi ph \<le> 2 ^ 47" by (simp add: seg_hi_def)
  then show ?thesis using assms(2) by (simp add: in_pages_def user_va_def word_less_nat_alt)
qed

lemma map_segment:
  assumes inv: "uspace_inv s root fs" and ok: "user_segment sz ph"
  shows "\<exists>b s1. map_user_range root (p_vaddr ph) (p_memsz ph) XBKS_PAGE_WRITABLE s = Some (b, s1) \<and>
    maps_zeroes root (seg_lo ph) (seg_hi ph) fs s b s1"
  unfolding seg_lo_def seg_hi_def using ok by (intro map_user_range_spec [OF inv]) (simp_all add: user_segment_def)

lemma map_segment_fails:
  assumes m: "maps_zeroes root (seg_lo ph) (seg_hi ph) fs s False s1" and ok: "user_segment sz ph"
  shows "\<not> (placeable s root sz (ph # segs) \<and> seg_frames (ph # segs) \<le> length fs)"
proof -
  obtain mid where mid: "seg_lo ph \<le> mid" "mid < seg_hi ph"
      "umem s root (of_nat mid) \<noteq> None \<or> length fs < 4 * ((seg_hi ph - seg_lo ph) div 4096)"
    using m by (auto simp: maps_zeroes_def)
  have "seg_hi ph \<le> unat (p_vaddr ph) + unat (p_memsz ph) + 4095" by (simp add: seg_hi_def)
  then have "unat (of_nat mid :: u64) = mid" using mid(2) ok by (simp add: unat_of_nat user_segment_def)
  then have "in_pages ph (of_nat mid)" using mid(1,2) by (simp add: in_pages_def)
  then show ?thesis using mid(3) by (auto simp: placeable_def seg_frames_def)
qed

lemma segment_byte_None:
  "segment_byte data base a ph v = None \<longleftrightarrow> \<not> in_pages ph a \<and> v = None" if "segment_ok sz ph"
  using that seg_bounds [of ph] by (auto simp: segment_byte_def in_pages_def segment_ok_def word_le_nat_alt)

lemma load_step:
  assumes ok: "user_segment sz ph" and m: "maps_zeroes root (seg_lo ph) (seg_hi ph) fs s True s1"
    and inv2: "uspace_inv s2 root fs2" "confined root s fs s2 fs2"
      "length fs \<le> length fs2 + 4 * ((seg_hi ph - seg_lo ph) div 4096)"
      "\<forall>a. user_va a \<longrightarrow> umem s2 root a = segment_byte data base a ph (umem s root a)"
    and rest: "loads data base sz root segs fs2 s2 b s'"
  shows "loads data base sz root (ph # segs) fs s b s'"
proof -
  have free: "umem s root a = None" if "in_pages ph a" for a
    using m that in_pages_user [OF ok that] by (auto simp: maps_zeroes_def in_pages_def)
  have so: "segment_ok sz ph" using ok by (simp add: user_segment_def)
  have none: "umem s2 root a = None \<longleftrightarrow> \<not> in_pages ph a \<and> umem s root a = None" if "user_va a" for a
    using inv2(4) that segment_byte_None [OF so] by simp
  have "placeable s2 root sz segs \<longleftrightarrow> placeable s root sz (ph # segs)"
    using free none in_pages_user ok unfolding placeable_def by auto blast+
  moreover obtain fs' where "uspace_inv s' root fs'" "confined root s2 fs2 s' fs'"
      "b \<longrightarrow> length fs2 \<le> length fs' + seg_frames segs"
    using rest by (auto simp: loads_def)
  moreover have "confined root s fs s' fs'" using confined_trans [OF inv2(2)] calculation by blast
  ultimately show ?thesis
    using rest inv2(3,4) by (auto simp: loads_def program_image_def seg_frames_def)
qed

definition load_ok :: "u8 list \<Rightarrow> u64 \<Rightarrow> u64 \<Rightarrow> u64 \<Rightarrow> u64 \<Rightarrow> u64 list \<Rightarrow> bool" where
  "load_ok data base sz phdrs root is \<longleftrightarrow> (\<forall>s fs. uspace_inv s root fs \<longrightarrow>
     (\<exists>ok s'. load_segments data base sz phdrs root is s = Some (ok, s') \<and>
       loads data base sz root (segments data phdrs is) fs s ok s'))"

lemma load_ok_segment:
  assumes base: "unat base + unat sz \<le> length data" "length data < 2 ^ 63"
    and ph: "read_phdr data phdrs i = Some ph" "p_type ph = PT_LOAD" "plain_segment ph" and rest: "load_ok data base sz phdrs root is"
  shows "load_ok data base sz phdrs root (i # is)"
  unfolding load_ok_def
proof (intro allI impI)
  fix s fs assume inv: "uspace_inv s root fs"
  let ?segs = "segments data phdrs is" and ?run = "load_segments data base sz phdrs root (i # is) s"
  have seg: "segments data phdrs (i # is) = ph # ?segs" using ph by (simp add: segments_simps)
  have ex: "\<exists>ok s'. ?run = Some (ok, s') \<and> loads data base sz root (segments data phdrs (i # is)) fs s ok s'"
    if "?run = Some (b, s1)" "loads data base sz root (ph # ?segs) fs s b s1" for b s1
    using that unfolding seg by blast
  show "\<exists>ok s'. ?run = Some (ok, s') \<and> loads data base sz root (segments data phdrs (i # is)) fs s ok s'"
  proof (cases "user_segment sz ph")
    case False
    then have "loads data base sz root (ph # ?segs) fs s False s"
      using inv by (auto simp: loads_def placeable_def intro!: exI [of _ fs])
    moreover have "?run = Some (False, s)" using False ph segment_refused_iff [OF ph(3)] by simp
    ultimately show ?thesis by (intro ex)
  next
    case ok: True
    have nr: "\<not> segment_refused sz ph" using ok segment_refused_iff [OF ph(3)] by simp
    obtain b s1 where m: "map_user_range root (p_vaddr ph) (p_memsz ph) XBKS_PAGE_WRITABLE s = Some (b, s1)"
        "maps_zeroes root (seg_lo ph) (seg_hi ph) fs s b s1"
      using map_segment [OF inv ok] by blast
    show ?thesis
    proof (cases b)
      case False
      have "loads data base sz root (ph # ?segs) fs s False s1"
        using m(2) False map_segment_fails [OF _ ok] unfolding loads_def maps_zeroes_def by auto
      moreover have "?run = Some (False, s1)" using False ph nr m(1) by simp
      ultimately show ?thesis by (intro ex)
    next
      case b: True
      have m': "map_user_range root (p_vaddr ph) (p_memsz ph) XBKS_PAGE_WRITABLE s = Some (True, s1)"
          "maps_zeroes root (seg_lo ph) (seg_hi ph) fs s True s1"
        using m b by simp_all
      obtain s2 fs2 where w: "write_process_memory root (p_vaddr ph) (from_archive data (base + p_offset ph))
            (p_filesz ph) s1 = Some (True, s2)"
          "uspace_inv s2 root fs2" "confined root s fs s2 fs2"
          "length fs \<le> length fs2 + 4 * ((seg_hi ph - seg_lo ph) div 4096)"
          "\<forall>a. user_va a \<longrightarrow> umem s2 root a = segment_byte data base a ph (umem s root a)"
        using load_one_segment [OF inv ok base m'] by (elim exE conjE) rule
      obtain ok2 s' where r: "load_segments data base sz phdrs root is s2 = Some (ok2, s')"
          "loads data base sz root ?segs fs2 s2 ok2 s'"
        using rest w(2) unfolding load_ok_def by blast
      have "?run = Some (ok2, s')" using ph nr m'(1) w(1) r(1) by simp
      then show ?thesis using load_step [OF ok m'(2) w(2-5) r(2)] by (intro ex)
    qed
  qed
qed

lemma load_ok_all:
  assumes base: "unat base + unat sz \<le> length data" "length data < 2 ^ 63"
  shows "readable data phdrs is \<Longrightarrow> \<forall>ph \<in> set (segments data phdrs is). plain_segment ph \<Longrightarrow> load_ok data base sz phdrs root is"
proof (induction "is")
  case Nil
  have "loads data base sz root [] fs s True s" if "uspace_inv s root fs" for s fs
  proof -
    have "\<exists>fs'. uspace_inv s root fs' \<and> confined root s fs s fs' \<and> length fs \<le> length fs'"
      using that by (intro exI [of _ fs]) simp
    then show ?thesis by (simp add: loads_def placeable_def program_image_def seg_frames_def)
  qed
  then show ?case by (auto simp: load_ok_def segments_simps)
next
  case (Cons i "is")
  obtain ph where ph: "read_phdr data phdrs i = Some ph" using Cons.prems by (auto simp: readable_def)
  have rest: "load_ok data base sz phdrs root is"
    using Cons ph by (auto simp: readable_def segments_simps split: if_splits)
  show ?case
  proof (cases "p_type ph = PT_LOAD")
    case True
    then show ?thesis using Cons.prems(2) ph by (intro load_ok_segment [OF base ph True _ rest]) (simp add: segments_simps)
  next
    case False
    then show ?thesis using rest ph by (simp add: load_ok_def segments_simps)
  qed
qed

lemma load_segments_spec:
  assumes "unat base + unat sz \<le> length data" "length data < 2 ^ 63" "uspace_inv s root fs" "readable data phdrs is"
    "\<forall>ph \<in> set (segments data phdrs is). plain_segment ph"
  shows "\<exists>ok s'. load_segments data base sz phdrs root is s = Some (ok, s') \<and>
      loads data base sz root (segments data phdrs is) fs s ok s'"
  using load_ok_all [OF assms(1,2,4,5)] assms(3) unfolding load_ok_def by blast

lemma validate_elf_ok:
  assumes f: "file_ok data f"
  shows "\<exists>r. validate_elf data f = Some r \<and>
    (\<forall>p h. r = Some (p, h) \<longrightarrow> table_ok data f p h \<and> read_ehdr data p = Some h)"
proof (cases "directory f \<or> file_data f = None \<or> file_size f < 64")
  case True
  then show ?thesis by (auto simp: validate_elf_def split: option.split)
next
  case False
  then obtain p where p: "file_data f = Some p" by auto
  have sz: "unat (file_size f) < 2 ^ 63" using f p by (simp add: file_ok_def)
  obtain h where h: "read_ehdr data p = Some h"
    using read_ehdr_ok [OF f p] False by (auto simp: word_less_nat_alt)
  have "table_ok data f p h" if "e_phoff h \<le> file_size f" "e_phoff h + ucast (e_phnum h) * PHDR_SIZE \<le> file_size f"
    using that table_end [OF that(1) sz] f p by (simp add: table_ok_def word_le_nat_alt)
  then show ?thesis using False p h by (simp add: validate_elf_def not_less)
qed

text \<open>
  The loader as a whole: where the header is refused nothing happens, and otherwise the segments
  are loaded.
\<close>

definition elf_outcome ::
  "u8 list \<Rightarrow> xbks_ramdisk_file \<Rightarrow> process \<Rightarrow> u64 list \<Rightarrow> mm_state \<Rightarrow> bool \<Rightarrow> process \<Rightarrow> mm_state \<Rightarrow> bool" where
  "elf_outcome data f p fs s ok p' s' \<longleftrightarrow>
     (case validate_elf data f of
        Some (Some (base, h)) \<Rightarrow>
          loads data base (file_size f) (proc_cr3 p) (segments data (base + e_phoff h) (phdr_indices h)) fs s ok s' \<and>
          p' = (if ok then p\<lparr>proc_entry := e_entry h, proc_brk := 0x800000\<rparr> else p)
      | _ \<Rightarrow> \<not> ok \<and> p' = p \<and> s' = s)"

lemma load_elf_spec:
  assumes f: "file_ok data f" and inv: "uspace_inv s (proc_cr3 p) fs"
    and plain: "\<forall>base h. validate_elf data f = Some (Some (base, h)) \<longrightarrow>
      (\<forall>ph \<in> set (segments data (base + e_phoff h) (phdr_indices h)). plain_segment ph)"
  shows "\<exists>ok p' s'. load_elf_into_process data f p s = Some (ok, p', s') \<and> elf_outcome data f p fs s ok p' s'"
proof -
  obtain r where r: "validate_elf data f = Some r"
      "\<forall>base h. r = Some (base, h) \<longrightarrow> table_ok data f base h \<and> read_ehdr data base = Some h"
    using validate_elf_ok [OF f] by blast
  show ?thesis
  proof (cases r)
    case None
    then show ?thesis using r(1)
      by (intro exI [of _ False] exI [of _ p] exI [of _ s]) (simp add: load_elf_into_process_def elf_outcome_def)
  next
    case (Some q)
    obtain base h where q: "r = Some (base, h)" using Some by (cases q) auto
    have t: "table_ok data f base h" using r(2) q by simp
    have b: "unat base + unat (file_size f) \<le> length data" "length data < 2 ^ 63"
      using t by (auto simp: table_ok_def file_ok_def)
    have rd: "readable data (base + e_phoff h) (phdr_indices h)" using table_index [OF t] by (auto simp: readable_def)
    obtain ok s' where "load_segments data base (file_size f) (base + e_phoff h) (proc_cr3 p) (phdr_indices h) s = Some (ok, s')"
        "loads data base (file_size f) (proc_cr3 p) (segments data (base + e_phoff h) (phdr_indices h)) fs s ok s'"
      using load_segments_spec [OF b inv rd] plain r(1) q by blast
    then show ?thesis using r(1) q by (cases ok) (auto simp: load_elf_into_process_def elf_outcome_def)
  qed
qed

section \<open>The first stack\<close>

abbreviation stack_lo :: nat where "stack_lo \<equiv> 0x7ffffffee000"
abbreviation stack_hi :: nat where "stack_hi \<equiv> 0x7fffffffe000"

definition stack_mapped :: "mm_state \<Rightarrow> u64 \<Rightarrow> bool" where
  "stack_mapped s root \<longleftrightarrow> (\<forall>a. stack_lo \<le> unat a \<longrightarrow> unat a < stack_hi \<longrightarrow> umem s root a \<noteq> None)"

lemma writes_refl: "uspace_inv s root fs \<Longrightarrow> writes root fs lo [] s s"
  by (auto simp: writes_def)

lemma writes_below:
  assumes 1: "writes root fs (lo + length bs) cs s s'" and 2: "writes root fs lo bs s' s''"
  shows "writes root fs lo (bs @ cs) s s''"
proof -
  have "umem s'' root a = (if lo \<le> unat a \<and> unat a < lo + length (bs @ cs)
      then Some ((bs @ cs) ! (unat a - lo)) else umem s root a)" if "user_va a" for a
    using 1 2 that by (auto simp: writes_def nth_append)
  then show ?thesis using 1 2 confined_trans unfolding writes_def by blast
qed

lemma writes_stack_mapped: "writes root fs lo bs s s' \<Longrightarrow> stack_mapped s root \<Longrightarrow> stack_mapped s' root"
  by (auto simp: writes_def stack_mapped_def user_va_def word_less_nat_alt)

lemma push_bytes_spec:
  assumes inv: "uspace_inv s root fs" "stack_mapped s root"
    and fit: "unat stack \<le> stack_hi" "stack_lo + unat sz \<le> unat stack" "unat sz \<le> length data"
  shows "\<exists>s' stack'. push_bytes root stack data sz s = Some (Some stack', s') \<and>
    unat stack' = unat stack - unat sz \<and> writes root fs (unat stack - unat sz) (take (unat sz) data) s s'"
proof -
  have u: "unat (stack - sz) = unat stack - unat sz" using fit by (simp add: unat_sub_if')
  have v: "user_range_is_valid (stack - sz) sz"
    using u fit by (auto simp: user_range_iff)
  have src: "\<forall>off n. unat off + unat n \<le> unat sz \<longrightarrow>
      from_buffer data off n = Some (take (unat n) (drop (unat off) (take (unat sz) data)))"
    using fit(3) by (auto simp: from_buffer_def slice_def drop_take min_def)
  obtain s' where s': "write_process_memory root (stack - sz) (from_buffer data) sz s = Some (True, s')"
      "writes root fs (unat (stack - sz)) (take (unat sz) data) s s'"
    using write_process_memory_spec [OF inv(1) _ _ _ src, of "stack - sz"] inv(2) u fit
    by (fastforce simp: stack_mapped_def)
  then show ?thesis using v u by (auto simp: push_bytes_def Let_def)
qed

text \<open>The strings lie one behind the other, the first at the lowest address.\<close>

definition string_block :: "u8 list list \<Rightarrow> u8 list" where
  "string_block ts = concat (map (\<lambda>t. cstr t @ [0]) ts)"

fun string_addresses :: "nat \<Rightarrow> u8 list list \<Rightarrow> nat list" where
  "string_addresses a [] = []"
| "string_addresses a (t # ts) = a # string_addresses (a + length (cstr t) + 1) ts"

lemma push_strings_spec:
  assumes "\<forall>t \<in> set ts. terminated t" "uspace_inv s root fs" "stack_mapped s root"
    and "unat stack \<le> stack_hi" "stack_lo + length (string_block ts) \<le> unat stack"
  shows "\<exists>s' stack' addrs. push_strings root ts stack s = Some (Some (stack', addrs), s') \<and>
    unat stack' = unat stack - length (string_block ts) \<and> map unat addrs = string_addresses (unat stack') ts \<and>
    writes root fs (unat stack') (string_block ts) s s'"
  using assms
proof (induction ts arbitrary: s)
  case Nil
  then show ?case using writes_refl by (simp add: string_block_def)
next
  case (Cons t ts)
  have blk: "string_block (t # ts) = (cstr t @ [0]) @ string_block ts" by (simp add: string_block_def)
  obtain s1 stack1 addrs where r1: "push_strings root ts stack s = Some (Some (stack1, addrs), s1)"
      "unat stack1 = unat stack - length (string_block ts)" "map unat addrs = string_addresses (unat stack1) ts"
      "writes root fs (unat stack1) (string_block ts) s s1"
    using Cons.IH [of s] Cons.prems blk by fastforce
  have "terminated t" using Cons.prems(1) by simp
  then obtain r where t: "t = cstr t @ 0 # r" by (metis terminatedE cstr_append_nul)
  have n: "strlen t = Some (length (cstr t))" using \<open>terminated t\<close> by (rule strlen_cstr)
  have sz: "unat (of_nat (length (cstr t)) + 1 :: u64) = length (cstr t) + 1"
    using Cons.prems(4,5) blk by (simp add: unat_sum2 unat_of_nat)
  have tk: "take (length (cstr t) + 1) t = cstr t @ [0]" by (subst t) simp
  have lt: "unat (of_nat (length (cstr t)) + 1 :: u64) \<le> length t" unfolding sz by (subst (2) t) simp
  have i1: "uspace_inv s1 root fs" "stack_mapped s1 root"
    using writes_stack_mapped [OF r1(4) Cons.prems(3)] r1(4) by (simp_all add: writes_def)
  have fit: "unat stack1 \<le> stack_hi" "stack_lo + unat (of_nat (length (cstr t)) + 1 :: u64) \<le> unat stack1"
    using Cons.prems(4,5) blk sz r1(2) by simp_all
  note pb = push_bytes_spec [OF i1 fit lt, unfolded sz tk]
  obtain s2 stack2 where r2: "push_bytes root stack1 t (of_nat (length (cstr t)) + 1) s1 = Some (Some stack2, s2)"
      "unat stack2 = unat stack1 - (length (cstr t) + 1)"
      "writes root fs (unat stack1 - (length (cstr t) + 1)) (cstr t @ [0]) s1 s2"
    using pb by (elim exE conjE) (rule that)
  have e: "unat stack1 = unat stack2 + (length (cstr t) + 1)" using r2(2) r1(2) Cons.prems(5) blk by simp
  have "writes root fs (unat stack2) (string_block (t # ts)) s s2"
    unfolding blk using r1(4) r2(3) unfolding r2(2) [symmetric] e by (intro writes_below [of root fs _ _ _ s s1 s2]) simp_all
  moreover have "unat stack2 = unat stack - length (string_block (t # ts))" using r1(2) r2(2) blk by simp
  ultimately show ?case using r1(1,3) r2(1) n e by (simp add: add.assoc)
qed


definition word_block :: "u64 list \<Rightarrow> u8 list" where
  "word_block vs = concat (map (to_le 8) vs)"

lemma length_to_le [simp]: "length (to_le n v) = n"
  by (induction n arbitrary: v) simp_all

lemma length_word_block [simp]: "length (word_block vs) = 8 * length vs"
  by (induction vs) (simp_all add: word_block_def)

lemma push_words_spec:
  assumes "uspace_inv s root fs" "stack_mapped s root"
    and "unat stack \<le> stack_hi" "stack_lo + 8 * length vs \<le> unat stack"
  shows "\<exists>s' stack'. push_words root vs stack s = Some (Some stack', s') \<and>
    unat stack' = unat stack - 8 * length vs \<and> writes root fs (unat stack') (word_block vs) s s'"
  using assms
proof (induction vs arbitrary: s)
  case Nil
  then show ?case using writes_refl by (simp add: word_block_def)
next
  case (Cons v vs)
  have blk: "word_block (v # vs) = to_le 8 v @ word_block vs" by (simp add: word_block_def)
  obtain s1 stack1 where r1: "push_words root vs stack s = Some (Some stack1, s1)"
      "unat stack1 = unat stack - 8 * length vs" "writes root fs (unat stack1) (word_block vs) s s1"
    using Cons.IH [of s] Cons.prems by fastforce
  have i1: "uspace_inv s1 root fs" "stack_mapped s1 root"
    using writes_stack_mapped [OF r1(3) Cons.prems(2)] r1(3) by (simp_all add: writes_def)
  have fit: "unat stack1 \<le> stack_hi" "stack_lo + unat (8 :: u64) \<le> unat stack1" "unat (8 :: u64) \<le> length (to_le 8 v)"
    using Cons.prems(3,4) r1(2) by simp_all
  have e8: "unat (8 :: u64) = 8" "take 8 (to_le 8 v) = to_le 8 v" by simp_all
  note pb = push_bytes_spec [OF i1 fit, unfolded e8]
  obtain s2 stack2 where r2: "push_bytes root stack1 (to_le 8 v) 8 s1 = Some (Some stack2, s2)"
      "unat stack2 = unat stack1 - 8" "writes root fs (unat stack1 - 8) (to_le 8 v) s1 s2"
    using pb by (elim exE conjE) (rule that)
  have e: "unat stack1 = unat stack2 + 8" using r2(2) r1(2) Cons.prems(4) by simp
  have "writes root fs (unat stack2) (word_block (v # vs)) s s2"
    unfolding blk using r1(3) r2(3) unfolding r2(2) [symmetric] e by (intro writes_below [of root fs _ _ _ s s1 s2]) simp_all
  moreover have "unat stack2 = unat stack - 8 * length (v # vs)" using r1(2) r2(2) by simp
  ultimately show ?case using r1(1) r2(1) by (simp add: push_u64_def del: to_le.simps)
qed

text \<open>Bytes and C strings at an address.\<close>

definition bytes_at :: "mm_state \<Rightarrow> u64 \<Rightarrow> u64 \<Rightarrow> u8 list \<Rightarrow> bool" where
  "bytes_at s root a bs \<longleftrightarrow> (\<forall>x. unat a \<le> unat x \<longrightarrow> unat x < unat a + length bs \<longrightarrow> umem s root x = Some (bs ! (unat x - unat a)))"

lemma bytes_at_user: "unat a + length bs \<le> 2 ^ 47 \<Longrightarrow> unat x < unat a + length bs \<Longrightarrow> user_va x"
  by (simp add: user_va_def word_less_nat_alt)

lemma writes_bytes_at:
  assumes "writes root fs lo (xs @ bs @ ys) s s'" "unat a = lo + length xs" "unat a + length bs \<le> 2 ^ 47"
  shows "bytes_at s' root a bs"
  using assms(1,2) bytes_at_user [OF assms(3)] by (auto simp: bytes_at_def writes_def nth_append)

lemma writes_keeps_bytes:
  assumes "writes root fs lo cs s s'" "bytes_at s root a bs" "lo + length cs \<le> unat a" "unat a + length bs \<le> 2 ^ 47"
  shows "bytes_at s' root a bs"
  using assms(1-3) bytes_at_user [OF assms(4)] by (auto simp: bytes_at_def writes_def)

text \<open>The strings that \<open>push_strings\<close> leaves, each at its address.\<close>

definition strings_at :: "mm_state \<Rightarrow> u64 \<Rightarrow> u64 list \<Rightarrow> u8 list list \<Rightarrow> bool" where
  "strings_at s root addrs ts \<longleftrightarrow> list_all2 (\<lambda>a t. bytes_at s root a (cstr t @ [0])) addrs ts"

lemma writes_strings_at:
  assumes "writes root fs lo (xs @ string_block ts) s s'" "lo + length (xs @ string_block ts) \<le> 2 ^ 47"
    and "map unat addrs = string_addresses (lo + length xs) ts"
  shows "strings_at s' root addrs ts"
  using assms
proof (induction ts arbitrary: xs addrs)
  case (Cons t ts)
  obtain a as where a: "addrs = a # as" "unat a = lo + length xs"
      "map unat as = string_addresses (lo + length xs + length (cstr t) + 1) ts"
    using Cons.prems(3) by (cases addrs) auto
  have "bytes_at s' root a (cstr t @ [0])"
    using Cons.prems(1,2) a(2) by (intro writes_bytes_at [of root fs lo xs _ "string_block ts"]) (simp_all add: string_block_def)
  moreover have "strings_at s' root as ts"
    using Cons.prems(1,2) a(3) by (intro Cons.IH [of "xs @ cstr t @ [0]"]) (simp_all add: string_block_def add.assoc)
  ultimately show ?case using a(1) by (simp add: strings_at_def)
qed (simp add: strings_at_def)

lemma writes_keeps_strings:
  assumes w: "writes root fs lo cs s s'" and st: "strings_at s root addrs ts"
    and b: "\<forall>i < length ts. lo + length cs \<le> unat (addrs ! i) \<and> unat (addrs ! i) + length (cstr (ts ! i)) < 2 ^ 47"
  shows "strings_at s' root addrs ts"
  using st b writes_keeps_bytes [OF w]
  by (auto simp: strings_at_def list_all2_conv_all_nth)

lemma string_addresses_bounds:
  assumes "i < length ts"
  shows "lo \<le> string_addresses lo ts ! i"
    "string_addresses lo ts ! i + length (cstr (ts ! i)) < lo + length (string_block ts)"
proof -
  have "lo \<le> string_addresses lo ts ! i \<and>
      string_addresses lo ts ! i + length (cstr (ts ! i)) < lo + length (string_block ts)"
    using assms
  proof (induction ts arbitrary: lo i)
    case (Cons t ts)
    show ?case
    proof (cases i)
      case (Suc j)
      then show ?thesis
        using Cons.IH [of j "lo + length (cstr t) + 1"] Cons.prems by (simp add: string_block_def)
    qed (simp add: string_block_def)
  qed simp
  then show "lo \<le> string_addresses lo ts ! i"
      "string_addresses lo ts ! i + length (cstr (ts ! i)) < lo + length (string_block ts)" by simp_all
qed

text \<open>Arguments as the system call hands them over: at most 31 strings in arrays of 256 bytes.\<close>

definition arg_list :: "u8 list list \<Rightarrow> bool" where
  "arg_list ts \<longleftrightarrow> length ts \<le> 31 \<and> (\<forall>t \<in> set ts. terminated t \<and> length t \<le> 256)"

lemma arg_list_block:
  assumes "arg_list ts"
  shows "length (string_block ts) \<le> 7936"
proof -
  have "length (string_block ts) \<le> 256 * length ts"
    using assms unfolding arg_list_def
  proof (induction ts)
    case (Cons t ts)
    then have "length (cstr t) < 256" using length_cstr_less [of t] by force
    then show ?case using Cons by (simp add: string_block_def)
  qed (simp add: string_block_def)
  then show ?thesis using assms by (simp add: arg_list_def)
qed

lemma map_stack:
  assumes inv: "uspace_inv s root fs" and free: "\<forall>a. stack_lo \<le> unat a \<longrightarrow> unat a < stack_hi \<longrightarrow> umem s root a = None"
    and fs: "64 \<le> length fs"
  shows "\<exists>s1 fs1. map_user_range root (XBKS_USER_STACK_TOP - XBKS_USER_STACK_SIZE) XBKS_USER_STACK_SIZE XBKS_PAGE_WRITABLE s =
      Some (True, s1) \<and> uspace_inv s1 root fs1 \<and> confined root s fs s1 fs1 \<and> stack_mapped s1 root \<and>
      (\<forall>a. user_va a \<longrightarrow> unat a < stack_lo \<or> stack_hi \<le> unat a \<longrightarrow> umem s1 root a = umem s root a)"
proof -
  let ?b = "XBKS_USER_STACK_TOP - XBKS_USER_STACK_SIZE" and ?z = "XBKS_USER_STACK_SIZE"
  obtain ok s1 where r: "map_user_range root ?b ?z XBKS_PAGE_WRITABLE s = Some (ok, s1)"
      "maps_zeroes root stack_lo stack_hi fs s ok s1"
    using map_user_range_spec [OF inv, of ?b ?z XBKS_PAGE_WRITABLE] by auto
  obtain mid where mid: "stack_lo \<le> mid" "mid \<le> stack_hi"
      "\<forall>va. user_va va \<longrightarrow> umem s1 root va = (if stack_lo \<le> unat va \<and> unat va < mid then Some 0 else umem s root va)"
      "if ok then mid = stack_hi
       else mid < stack_hi \<and> (umem s root (of_nat mid) \<noteq> None \<or> length fs < 4 * ((stack_hi - stack_lo) div 4096))"
    using r(2) unfolding maps_zeroes_def by (elim conjE exE) rule
  have "unat (of_nat mid :: u64) = mid" using mid(2) by (simp add: unat_of_nat)
  then have ok: "ok" using mid(1,4) free fs by (auto split: if_splits)
  then have "stack_mapped s1 root" using mid by (simp add: stack_mapped_def user_va_def word_less_nat_alt)
  moreover obtain fs1 where "uspace_inv s1 root fs1" "confined root s fs s1 fs1"
    using r(2) by (auto simp: maps_zeroes_def)
  ultimately show ?thesis using r(1) ok mid(3,4) by auto
qed

lemma unat_align_16: "unat (a AND NOT 0xf) = unat a div 16 * 16" for a :: u64
proof -
  have "(0xf :: u64) = mask 4" by (simp add: mask_eq_exp_minus_1)
  then show ?thesis using unat_and_not_mask [of a 4] by simp
qed

text \<open>
  The stack a program starts with: at the stack pointer the argument count, the addresses of the
  arguments, a null, the addresses of the environment and a null.
\<close>

definition start_stack :: "mm_state \<Rightarrow> u64 \<Rightarrow> u64 \<Rightarrow> u8 list list \<Rightarrow> u8 list list \<Rightarrow> bool" where
  "start_stack s root rsp argv envp \<longleftrightarrow> (\<exists>argv_a env_a.
     bytes_at s root rsp (word_block (of_nat (length argv) # argv_a @ 0 # env_a @ [0])) \<and>
     strings_at s root argv_a argv \<and> strings_at s root env_a envp \<and>
     (\<forall>a \<in> set (argv_a @ env_a). stack_lo \<le> unat a \<and> unat a < stack_hi))"

lemma strings_length: "strings_at s root as ts \<Longrightarrow> length as = length ts"
  by (simp add: strings_at_def list_all2_lengthD)

lemma writes_outside:
  assumes "writes root fs lo bs s s'" "stack_lo \<le> lo" "lo + length bs \<le> stack_hi" "user_va a"
    "unat a < stack_lo \<or> stack_hi \<le> unat a"
  shows "umem s' root a = umem s root a"
  using assms by (auto simp: writes_def)

lemma length_string_addresses [simp]: "length (string_addresses lo ts) = length ts"
  by (induction ts arbitrary: lo) simp_all

lemma addresses_bound:
  assumes "map unat addrs = string_addresses lo ts" "lo + length (string_block ts) \<le> hi"
  shows "\<forall>i < length ts. lo \<le> unat (addrs ! i) \<and> unat (addrs ! i) + length (cstr (ts ! i)) < hi"
    and "length addrs = length ts"
proof -
  show l: "length addrs = length ts" using arg_cong [OF assms(1), of length] by simp
  have "unat (addrs ! i) = string_addresses lo ts ! i" if "i < length ts" for i
    using that l arg_cong [OF assms(1), of "\<lambda>xs. xs ! i"] by simp
  then show "\<forall>i < length ts. lo \<le> unat (addrs ! i) \<and> unat (addrs ! i) + length (cstr (ts ! i)) < hi"
    using string_addresses_bounds [of _ ts lo] assms(2) by (metis le_trans less_le_trans)
qed

lemma strings_survive:
  assumes w: "writes root fs lo (string_block ts) s s'" and a: "map unat addrs = string_addresses lo ts"
    and b: "lo + length (string_block ts) \<le> 2 ^ 47"
    and w': "writes root fs lo' bs s' s''" "lo' + length bs \<le> lo"
  shows "strings_at s'' root addrs ts"
proof (rule writes_keeps_strings [OF w'(1)])
  show "strings_at s' root addrs ts" using writes_strings_at [of root fs lo "[]" ts s s' addrs] w a b by simp
  show "\<forall>i < length ts. lo' + length bs \<le> unat (addrs ! i) \<and> unat (addrs ! i) + length (cstr (ts ! i)) < 2 ^ 47"
    using addresses_bound(1) [OF a b] w'(2) by (meson le_trans)
qed

lemma push_stack:
  assumes inv: "uspace_inv s root fs" "stack_mapped s root" and args: "arg_list argv" "arg_list envp"
  shows "\<exists>s2 s3 s4 stack1 stack2 stack3 env_a argv_a.
    push_strings root envp XBKS_USER_STACK_TOP s = Some (Some (stack1, env_a), s2) \<and>
    push_strings root argv stack1 s2 = Some (Some (stack2, argv_a), s3) \<and>
    push_words root (of_nat (length argv) # argv_a @ 0 # env_a @ [0]) (stack2 AND NOT 0xf) s3 = Some (Some stack3, s4) \<and>
    uspace_inv s4 root fs \<and> confined root s fs s4 fs \<and> start_stack s4 root stack3 argv envp \<and>
    stack_lo \<le> unat stack3 \<and> unat stack3 + 8 * (length argv + length envp + 3) \<le> stack_hi \<and>
    16 dvd unat stack3 + 8 * (length argv + length envp + 3) \<and>
    (\<forall>a. user_va a \<longrightarrow> unat a < stack_lo \<or> stack_hi \<le> unat a \<longrightarrow> umem s4 root a = umem s root a)"
proof -
  note len = arg_list_block [OF args(1)] arg_list_block [OF args(2)]
  have t: "\<forall>t \<in> set envp. terminated t" "\<forall>t \<in> set argv. terminated t" using args by (auto simp: arg_list_def)
  have n: "length argv \<le> 31" "length envp \<le> 31" using args by (auto simp: arg_list_def)
  obtain s2 stack1 env_a where e: "push_strings root envp XBKS_USER_STACK_TOP s = Some (Some (stack1, env_a), s2)"
      "unat stack1 = unat XBKS_USER_STACK_TOP - length (string_block envp)"
      "map unat env_a = string_addresses (unat stack1) envp" "writes root fs (unat stack1) (string_block envp) s s2"
    using push_strings_spec [OF t(1) inv, of XBKS_USER_STACK_TOP] len by fastforce
  have i2: "uspace_inv s2 root fs" "stack_mapped s2 root"
    using e(4) writes_stack_mapped [OF e(4) inv(2)] by (simp_all add: writes_def)
  obtain s3 stack2 argv_a where a: "push_strings root argv stack1 s2 = Some (Some (stack2, argv_a), s3)"
      "unat stack2 = unat stack1 - length (string_block argv)"
      "map unat argv_a = string_addresses (unat stack2) argv" "writes root fs (unat stack2) (string_block argv) s2 s3"
    using push_strings_spec [OF t(2) i2, of stack1] len e(2) by fastforce
  have i3: "uspace_inv s3 root fs" "stack_mapped s3 root"
    using a(4) writes_stack_mapped [OF a(4) i2(2)] by (simp_all add: writes_def)
  let ?ws = "of_nat (length argv) # argv_a @ 0 # env_a @ [0]" and ?al = "stack2 AND NOT 0xf"
  have b: "unat stack1 + length (string_block envp) = stack_hi" "unat stack2 + length (string_block argv) = unat stack1"
      "stack_hi - 15872 \<le> unat stack2"
    using e(2) a(2) len by simp_all
  have la: "length argv_a = length argv" "length env_a = length envp"
    using addresses_bound(2) [OF a(3), of "2 ^ 47"] addresses_bound(2) [OF e(3), of "2 ^ 47"] b by simp_all
  have al: "unat ?al = unat stack2 div 16 * 16" by (rule unat_align_16)
  have al2: "unat ?al \<le> unat stack2" "unat stack2 < unat ?al + 16"
    unfolding al using dividend_less_div_times [of 16 "unat stack2"] by simp_all
  have fit: "unat ?al \<le> stack_hi" "stack_lo + 8 * length ?ws \<le> unat ?al" using al2 b n la by simp_all
  obtain s4 stack3 where w: "push_words root ?ws ?al s3 = Some (Some stack3, s4)"
      "unat stack3 = unat ?al - 8 * length ?ws" "writes root fs (unat stack3) (word_block ?ws) s3 s4"
    using push_words_spec [OF i3 fit] by (elim exE conjE) (rule that)
  have w2: "unat stack3 + 8 * length ?ws = unat ?al" using w(2) fit by simp
  have k: "writes root fs (unat stack3) (word_block ?ws) s3 s4" "unat stack3 + length (word_block ?ws) \<le> unat stack2"
    using w(3) w2 al2 by simp_all
  have sa: "strings_at s4 root argv_a argv" using strings_survive [OF a(4,3) _ k] b by simp
  have "strings_at s3 root env_a envp" using strings_survive [OF e(4,3) _ a(4)] b by simp
  then have se: "strings_at s4 root env_a envp"
    using writes_keeps_strings [OF k(1)] addresses_bound(1) [OF e(3)] k(2) b by fastforce
  have "bytes_at s4 root stack3 (word_block ?ws)"
    using writes_bytes_at [of root fs "unat stack3" "[]" _ "[]" s3 s4 stack3] w(3) w2 fit by simp
  moreover have "\<forall>x \<in> set (argv_a @ env_a). stack_lo \<le> unat x \<and> unat x < stack_hi"
    using addresses_bound(1) [OF a(3), of stack_hi] addresses_bound(1) [OF e(3), of stack_hi] b la
    by (force simp: in_set_conv_nth)
  ultimately have "start_stack s4 root stack3 argv envp" using sa se unfolding start_stack_def by blast
  moreover have "uspace_inv s4 root fs" "confined root s fs s4 fs"
    using w(3) a(4) e(4) confined_trans unfolding writes_def by blast+
  moreover have "16 dvd unat stack3 + 8 * (length argv + length envp + 3)" "stack_lo \<le> unat stack3"
      "unat stack3 + 8 * (length argv + length envp + 3) \<le> stack_hi"
    using w2 la al fit by (simp_all add: algebra_simps)
  moreover have "umem s4 root x = umem s root x" if "user_va x" "unat x < stack_lo \<or> stack_hi \<le> unat x" for x
    using writes_outside [OF e(4) _ _ that] writes_outside [OF a(4) _ _ that] writes_outside [OF w(3) _ _ that]
      b fit w2 by simp
  ultimately show ?thesis using e(1) a(1) w(1) by blast
qed

lemma build_user_stack_spec:
  assumes inv: "uspace_inv s (proc_cr3 p) fs" and args: "arg_list argv" "arg_list envp"
    and free: "\<forall>a. stack_lo \<le> unat a \<longrightarrow> unat a < stack_hi \<longrightarrow> umem s (proc_cr3 p) a = None" "64 \<le> length fs"
  shows "\<exists>rsp s' fs'. build_user_stack argv envp p s = Some (True, p\<lparr>proc_stack := rsp\<rparr>, s') \<and>
    uspace_inv s' (proc_cr3 p) fs' \<and> confined (proc_cr3 p) s fs s' fs' \<and> start_stack s' (proc_cr3 p) rsp argv envp \<and>
    stack_lo \<le> unat rsp \<and> unat rsp + 8 * (length argv + length envp + 3) \<le> stack_hi \<and>
    16 dvd unat rsp + 8 * (length argv + length envp + 3) \<and>
    (\<forall>a. user_va a \<longrightarrow> unat a < stack_lo \<or> stack_hi \<le> unat a \<longrightarrow> umem s' (proc_cr3 p) a = umem s (proc_cr3 p) a)"
proof -
  let ?r = "proc_cr3 p"
  obtain s1 fs1 where m: "map_user_range ?r (XBKS_USER_STACK_TOP - XBKS_USER_STACK_SIZE) XBKS_USER_STACK_SIZE
        XBKS_PAGE_WRITABLE s = Some (True, s1)"
      "uspace_inv s1 ?r fs1" "confined ?r s fs s1 fs1" "stack_mapped s1 ?r"
      "\<forall>a. user_va a \<longrightarrow> unat a < stack_lo \<or> stack_hi \<le> unat a \<longrightarrow> umem s1 ?r a = umem s ?r a"
    using map_stack [OF inv free] by (elim exE conjE) rule
  obtain s2 s3 s4 stack1 stack2 rsp env_a argv_a where
      w: "push_strings ?r envp XBKS_USER_STACK_TOP s1 = Some (Some (stack1, env_a), s2)"
      "push_strings ?r argv stack1 s2 = Some (Some (stack2, argv_a), s3)"
      "push_words ?r (of_nat (length argv) # argv_a @ 0 # env_a @ [0]) (stack2 AND NOT 0xf) s3 = Some (Some rsp, s4)"
    and c: "uspace_inv s4 ?r fs1" "confined ?r s1 fs1 s4 fs1" "start_stack s4 ?r rsp argv envp" "stack_lo \<le> unat rsp"
      "unat rsp + 8 * (length argv + length envp + 3) \<le> stack_hi"
      "16 dvd unat rsp + 8 * (length argv + length envp + 3)"
      "\<forall>a. user_va a \<longrightarrow> unat a < stack_lo \<or> stack_hi \<le> unat a \<longrightarrow> umem s4 ?r a = umem s1 ?r a"
    using push_stack [OF m(2,4) args] by (elim exE conjE) rule
  have "build_user_stack argv envp p s = Some (True, p\<lparr>proc_stack := rsp\<rparr>, s4)"
    using m(1) w by (simp add: build_user_stack_def Let_def del: push_words.simps)
  then show ?thesis
    using c m(5) confined_trans [OF m(3) c(2)] by (intro exI [of _ rsp] exI [of _ s4] exI [of _ fs1]) simp
qed

end
