(* ===== verification/Program_Load.thy ===== *)
theory Program_Load
  imports Program_Image Ramdisk_Tree
begin

text \<open>
  \<^verbatim>\<open>load_program\<close> as a whole: from a path and free frames to an address space a program can be entered in.
\<close>

section \<open>A new address space\<close>

lemma create_uspace:
  assumes inv: "pmm_inv s (f # fs)" "\<forall>g \<in> set fs. g AND ENTRY_ADDRESS = g"
    and k: "kernel_cr3_value s \<notin> set (f # fs)" "aligned_page (kernel_cr3_value s)"
    and r: "xbks_create_kernel_mapped_pml4 s = (root, s')"
  shows "root = f" "f \<noteq> 0" "uspace_inv s' f fs" "user_va va \<Longrightarrow> umem s' f va = None"
    "owned s' f fs = set (f # fs)" "\<not> page_at s f x \<Longrightarrow> kmem s' x = kmem s x"
    "hhdm_offset_value s' = hhdm_offset_value s" "cr3 s' = cr3 s" "kernel_cr3_value s' = kernel_cr3_value s"
proof -
  note c = create_pml4_spec [OF inv(1) k inv(2) r]
  show root: "root = f" by (rule c(1))
  show "f \<noteq> 0" using inv(1) by (simp add: pmm_inv_def usable_frame_def)
  have leaf: "leaf s' f va = None" if "user_va va" for va using c(3) [OF that] root by (simp add: leaf_def)
  then show "uspace_inv s' f fs" using c(2) root by (simp add: uspace_inv_def)
  show "umem s' f va = None" if "user_va va" using leaf [OF that] by (simp add: umem_None that)
  show "owned s' f fs = set (f # fs)" using leaf c(8) root by (auto simp: owned_def)
  show "\<not> page_at s f x \<Longrightarrow> kmem s' x = kmem s x" "hhdm_offset_value s' = hhdm_offset_value s" "cr3 s' = cr3 s"
      "kernel_cr3_value s' = kernel_cr3_value s"
    using c(5-7,9) by blast+
qed

section \<open>Programs that fit\<close>

text \<open>
  An executable whose segments lie in the file, between the lowest user address and the stack, on pages of their own.
\<close>

definition loadable :: "u8 list \<Rightarrow> xbks_ramdisk_file \<Rightarrow> u64 \<Rightarrow> elf64_ehdr \<Rightarrow> elf64_phdr list \<Rightarrow> bool" where
  "loadable data file base h segs \<longleftrightarrow> file_ok data file \<and> executable file \<and> \<not> directory file \<and>
     validate_elf data file = Some (Some (base, h)) \<and> segs = segments data (base + e_phoff h) (phdr_indices h) \<and>
     (\<forall>ph \<in> set segs. user_segment (file_size file) ph \<and> seg_hi ph \<le> stack_lo) \<and> apart segs"

lemma user_segment_plain: "user_segment sz ph \<Longrightarrow> plain_segment ph"
proof -
  assume "user_segment sz ph"
  moreover have "unat sz < 2 ^ 64" using unsigned_less [of sz] by simp
  ultimately show ?thesis by (simp add: user_segment_def segment_ok_def plain_segment_def)
qed

lemma image_above_segments:
  assumes "\<forall>ph \<in> set segs. segment_ok sz ph \<and> seg_hi ph \<le> lo" "lo \<le> unat a"
  shows "program_image data base segs a v = v"
  using assms
proof (induction segs arbitrary: v)
  case (Cons ph segs)
  then have "segment_byte data base a ph v = v"
    using seg_bounds [of ph] by (auto simp: segment_byte_def in_pages_def segment_ok_def word_le_nat_alt)
  then show ?case using Cons by (simp add: program_image_def)
qed (simp add: program_image_def)

definition program_ready ::
  "u8 list \<Rightarrow> u64 \<Rightarrow> elf64_phdr list \<Rightarrow> u8 list list \<Rightarrow> u8 list list \<Rightarrow> process \<Rightarrow> mm_state \<Rightarrow> bool" where
  "program_ready data base segs argv envp p s \<longleftrightarrow>
     start_stack s (proc_cr3 p) (proc_stack p) argv envp \<and> stack_lo \<le> unat (proc_stack p) \<and>
     unat (proc_stack p) + 8 * (length argv + length envp + 3) \<le> stack_hi \<and>
     16 dvd unat (proc_stack p) + 8 * (length argv + length envp + 3) \<and>
     (\<forall>a. user_va a \<longrightarrow> unat a < stack_lo \<or> stack_hi \<le> unat a \<longrightarrow>
        umem s (proc_cr3 p) a = program_image data base segs a None)"

lemma load_program_spec:
  assumes inv: "pmm_inv s (f # fs)" "\<forall>g \<in> set fs. g AND ENTRY_ADDRESS = g"
    and k: "kernel_cr3_value s \<notin> set (f # fs)" "aligned_page (kernel_cr3_value s)"
    and found: "xbks_ramdisk_find rd (Some path) = Some (Some file)" "loadable (ramdisk_data rd) file base h segs"
    and frames: "seg_frames segs + 64 \<le> length fs"
    and args: "arg_list argv" "arg_list envp"
  shows "\<exists>rsp s' fs'.
    load_program rd path argv envp p s = Some (True, p\<lparr>proc_cr3 := f, proc_entry := e_entry h, proc_stack := rsp,
      proc_brk := 0x800000\<rparr>, s') \<and>
    uspace_inv s' f fs' \<and> program_ready (ramdisk_data rd) base segs argv envp (p\<lparr>proc_cr3 := f, proc_stack := rsp\<rparr>) s' \<and>
    cr3 s' = cr3 s \<and> (\<forall>x. (\<forall>g \<in> set (f # fs). \<not> page_at s g x) \<longrightarrow> kmem s' x = kmem s x)"
proof -
  obtain root s1 where r: "xbks_create_kernel_mapped_pml4 s = (root, s1)" by fastforce
  note c = create_uspace [OF inv k r]
  let ?p = "p\<lparr>proc_cr3 := f\<rparr>" and ?d = "ramdisk_data rd"
  have l: "file_ok ?d file" "validate_elf ?d file = Some (Some (base, h))" "segs = segments ?d (base + e_phoff h) (phdr_indices h)"
      "\<forall>ph \<in> set segs. user_segment (file_size file) ph \<and> seg_hi ph \<le> stack_lo" "apart segs" "executable file" "\<not> directory file"
    using found(2) by (auto simp: loadable_def)
  have pl: "placeable s1 f (file_size file) segs"
    using l(4,5) c(4) in_pages_user unfolding placeable_def by blast
  have plain: "\<forall>ph \<in> set segs. plain_segment ph" using l(4) user_segment_plain by blast
  have "uspace_inv s1 (proc_cr3 ?p) fs" using c(3) by simp
  then obtain ok p2 s2 where e': "load_elf_into_process ?d file ?p s1 = Some (ok, p2, s2)" "elf_outcome ?d file ?p fs s1 ok p2 s2"
    using load_elf_spec [OF l(1), of s1 ?p fs] plain l(2,3) by auto
  have e2': "loads ?d base (file_size file) f segs fs s1 ok s2"
      "p2 = (if ok then ?p\<lparr>proc_entry := e_entry h, proc_brk := 0x800000\<rparr> else ?p)"
    using e'(2) l(2,3) by (simp_all add: elf_outcome_def)
  then have "ok" using pl frames by (auto simp: loads_def split: if_splits)
  then have e: "load_elf_into_process ?d file ?p s1 = Some (True, ?p\<lparr>proc_entry := e_entry h, proc_brk := 0x800000\<rparr>, s2)"
      "loads ?d base (file_size file) f segs fs s1 True s2"
    using e'(1) e2' by simp_all
  obtain fs2 where e2: "uspace_inv s2 f fs2" "confined f s1 fs s2 fs2" "length fs \<le> length fs2 + seg_frames segs"
      "\<forall>a. user_va a \<longrightarrow> umem s2 f a = program_image ?d base segs a None"
    using e(2) c(4) by (auto simp: loads_def)
  have sk: "\<forall>ph \<in> set segs. segment_ok (file_size file) ph \<and> seg_hi ph \<le> stack_lo"
    using l(4) by (simp add: user_segment_def)
  have free: "\<forall>a. stack_lo \<le> unat a \<longrightarrow> unat a < stack_hi \<longrightarrow> umem s2 f a = None"
    using e2(4) image_above_segments [OF sk] by (simp add: user_va_def word_less_nat_alt)
  let ?p2 = "?p\<lparr>proc_entry := e_entry h, proc_brk := 0x800000\<rparr>"
  obtain rsp s3 fs3 where b: "build_user_stack argv envp ?p2 s2 = Some (True, ?p2\<lparr>proc_stack := rsp\<rparr>, s3)"
      "uspace_inv s3 f fs3" "confined f s2 fs2 s3 fs3" "start_stack s3 f rsp argv envp" "stack_lo \<le> unat rsp"
      "unat rsp + 8 * (length argv + length envp + 3) \<le> stack_hi"
      "16 dvd unat rsp + 8 * (length argv + length envp + 3)"
      "\<forall>a. user_va a \<longrightarrow> unat a < stack_lo \<or> stack_hi \<le> unat a \<longrightarrow> umem s3 f a = umem s2 f a"
    using build_user_stack_spec [of s2 ?p2 fs2 argv envp] e2(1,3) args free frames by auto
  have "load_program rd path argv envp p s = Some (True, ?p2\<lparr>proc_stack := rsp\<rparr>, s3)"
    using found(1) l(6,7) r c(1,2) e(1) b(1) by (simp add: load_program_def Let_def)
  moreover have "confined f s1 fs s3 fs3" using confined_trans [OF e2(2) b(3)] .
  moreover have "cr3 s3 = cr3 s" using calculation(2) c(8) by (simp add: confined_def)
  moreover have "kmem s3 x = kmem s x" if "\<forall>g \<in> set (f # fs). \<not> page_at s g x" for x
    using calculation(2) that c(5-7) by (simp add: confined_def)
  moreover have "program_ready ?d base segs argv envp (?p\<lparr>proc_stack := rsp\<rparr>) s3"
    using b(4-8) e2(4) by (simp add: program_ready_def)
  ultimately show ?thesis using b(2) by (intro exI [of _ rsp] exI [of _ s3] exI [of _ fs3]) simp
qed

section \<open>Machines for the witnesses\<close>

definition new_space :: mm_state where
  "new_space = snd (xbks_create_kernel_mapped_pml4 five_frames)"

lemma new_space_inv:
  "uspace_inv new_space 0x1000 [0x2000, 0x3000, 0x4000, 0x5000]" "user_va va \<Longrightarrow> umem new_space 0x1000 va = None"
  "tables new_space 0x1000 = {0x1000}" "kernel_cr3_value new_space = 0x9000"
proof -
  obtain root where r: "xbks_create_kernel_mapped_pml4 five_frames = (root, new_space)"
    unfolding new_space_def by (metis prod.collapse)
  have k: "kernel_cr3_value five_frames \<notin> set [0x1000, 0x2000, 0x3000, 0x4000, 0x5000]" "aligned_page (kernel_cr3_value five_frames)"
    "\<forall>f \<in> set [0x2000, 0x3000, 0x4000, 0x5000]. f AND ENTRY_ADDRESS = f"
    by (simp_all add: five_frames_static aligned_page_def)
  note c = create_uspace [OF five_frames_pool k(3,1,2) r]
  show "uspace_inv new_space 0x1000 [0x2000, 0x3000, 0x4000, 0x5000]" "user_va va \<Longrightarrow> umem new_space 0x1000 va = None"
    using c(3,4) by simp_all
  show "tables new_space 0x1000 = {0x1000}" "kernel_cr3_value new_space = 0x9000"
    using create_pml4_spec(8) [OF five_frames_pool k(1,2,3) r] c(1,9) by (simp_all add: five_frames_static)
qed

text \<open>Eighty frames from the second megabyte on.\<close>

fun frames_from :: "u64 \<Rightarrow> nat \<Rightarrow> u64 list" where
  "frames_from a 0 = []"
| "frames_from a (Suc n) = a # frames_from (a + 4096) n"

definition frame_list :: "u64 list" where
  "frame_list = frames_from 0x101000 80"

definition many_frames :: mm_state where
  "many_frames = fold xbks_pmm_free_frame (rev (0x100000 # frame_list)) boot_mm"

lemma frame_list_props:
  "distinct (0x100000 # frame_list)" "length frame_list = 80" "0x9000 \<notin> set (0x100000 # frame_list)"
  "\<forall>g \<in> set frame_list. g AND ENTRY_ADDRESS = g"
  "list_all (\<lambda>g. g \<noteq> 0 \<and> g AND 0xfff = 0 \<and> g + 0xffff800000000000 \<noteq> 0) (0x100000 # frame_list)"
  by code_simp+

lemma many_frames_pool: "pmm_inv many_frames (0x100000 # frame_list)"
proof -
  have "usable_frame boot_mm g" if "g \<in> set (0x100000 # frame_list)" for g
    using frame_list_props(5) that by (auto simp: usable_frame_def list_all_iff aligned_page_def boot_mm_def)
  then show ?thesis
    using pmm.free_list [OF boot_mm_pool, of "rev (0x100000 # frame_list)"] frame_list_props(1)
    unfolding many_frames_def by simp
qed

lemma many_frames_static: "kernel_cr3_value many_frames = 0x9000"
proof -
  have "kernel_cr3_value (fold xbks_pmm_free_frame gs s) = kernel_cr3_value s" for gs s
    by (induction gs arbitrary: s) simp_all
  then show ?thesis by (simp add: many_frames_def boot_mm_def)
qed

text \<open>An address space with the two pages at \<^verbatim>\<open>0x10000\<close>.\<close>

lemma two_pages:
  obtains s fs where "map_user_range 0x100000 0x10ffe 4 XBKS_PAGE_WRITABLE (snd (xbks_create_kernel_mapped_pml4 many_frames)) =
      Some (True, s)" "uspace_inv s 0x100000 fs"
    "\<forall>a. 0x10ffe \<le> unat a \<longrightarrow> unat a < 0x11002 \<longrightarrow> umem s 0x100000 a \<noteq> None"
proof -
  obtain root s0 where r: "xbks_create_kernel_mapped_pml4 many_frames = (root, s0)" by fastforce
  have k: "kernel_cr3_value many_frames \<notin> set (0x100000 # frame_list)" "aligned_page (kernel_cr3_value many_frames)"
    using frame_list_props(3) by (simp_all add: many_frames_static aligned_page_def)
  note c = create_uspace [OF many_frames_pool frame_list_props(4) k r]
  obtain ok s where m: "map_user_range 0x100000 0x10ffe 4 XBKS_PAGE_WRITABLE s0 = Some (ok, s)"
      "maps_zeroes 0x100000 0x10000 0x12000 frame_list s0 ok s"
    using map_user_range_spec [OF c(3), of "0x10ffe" 4 XBKS_PAGE_WRITABLE] by auto
  have "umem s0 0x100000 (of_nat mid) = None" if "mid < 0x12000" for mid
    using that by (intro c(4)) (simp add: user_va_def word_less_nat_alt unat_of_nat)
  then have ok: ok using m(2) frame_list_props(2) by (auto simp: maps_zeroes_def split: if_splits)
  then have z: "umem s 0x100000 a \<noteq> None" if "0x10ffe \<le> unat a" "unat a < 0x11002" for a
    using m(2) that by (auto simp: maps_zeroes_def user_va_def word_less_nat_alt)
  obtain fs where "uspace_inv s 0x100000 fs" using m(2) by (auto simp: maps_zeroes_def)
  then show ?thesis using m(1) r ok z by (intro that [of s fs]) auto
qed

text \<open>The image of \<^verbatim>\<open>Elf_Loader\<close> as the file \<^verbatim>\<open>bin/xsh\<close>.\<close>

definition program_disk :: ramdisk where
  "program_disk = \<lparr>ramdisk_data = demo_header ''bin/xsh'' ''755'' ''173'' 48 @ demo_elf @ replicate 389 0,
    ramdisk_size = 1024, ramdisk_available = True\<rparr>"

lemma program_disk_wf: "wf_ramdisk program_disk" "ramdisk_available program_disk"
  by (simp_all add: program_disk_def wf_ramdisk_def demo_header_def lit_def demo_elf_length)

lemma program_disk_lookup:
  "ram_lookup (tar_entries (ramdisk_data program_disk) 0) (norm_path 256 (cstr (lit ''/bin/xsh''))) =
     Some \<lparr>node_path = cstr (lit ''/bin/xsh''), node_data = Some 512, node_size = 123, node_dir = False, node_exec = True\<rparr>"
proof -
  let ?a = "demo_header ''bin/xsh'' ''755'' ''173'' 48"
  let ?d = "ramdisk_data program_disk"
  have l: "length ?a = 512" by (simp add: demo_header_def lit_def)
  have d: "?d = ?a @ demo_elf @ replicate 389 0" by (simp add: program_disk_def)
  have z: "\<not> block_is_zero ?a" by (simp add: block_is_zero_def demo_header_def lit_def)
  have sz: "octal_value (hdr_size (header_of ?a)) = 123" by code_simp
  have "entry_at ?d 0 = Some (header_of ?a, 123, 512)" "entry_at ?d 1024 = None"
    unfolding d using l z sz by (simp_all add: entry_at_def Let_def demo_elf_length)
  then have e: "tar_entries ?d 0 = [(0, header_of ?a, 123, 512)]"
    by (simp add: tar_entries_Cons tar_entries_Nil round_block_def)
  have h: "is_exec (header_of ?a)" "\<not> is_dir (header_of ?a)" "entry_path (header_of ?a) = cstr (lit ''bin/xsh'')"
    "norm_path 256 (cstr (lit ''/bin/xsh'')) = cstr (lit ''bin/xsh'')"
    "public_path (cstr (lit ''bin/xsh'')) = cstr (lit ''/bin/xsh'')" "cstr (lit ''bin/xsh'') \<noteq> []"
    by code_simp+
  show ?thesis unfolding e ram_lookup_def by (simp add: entry_node_def h)
qed

lemma program_disk_headers:
  "slice (ramdisk_data program_disk) 512 64 = Some demo_ehdr" "slice (ramdisk_data program_disk) 576 56 = Some demo_phdr"
proof -
  have l: "length (demo_header ''bin/xsh'' ''755'' ''173'' 48) = 512" "length demo_ehdr = 64" "length demo_phdr = 56"
    by (simp_all add: demo_header_def lit_def demo_ehdr_def demo_phdr_def)
  show "slice (ramdisk_data program_disk) 512 64 = Some demo_ehdr" "slice (ramdisk_data program_disk) 576 56 = Some demo_phdr"
    by (simp_all add: slice_def program_disk_def demo_elf_def l)
qed

lemma demo_phdr_fields:
  "p_type (phdr_of demo_phdr) = 1" "p_offset (phdr_of demo_phdr) = 120" "p_vaddr (phdr_of demo_phdr) = 0x10000"
  "p_filesz (phdr_of demo_phdr) = 3" "p_memsz (phdr_of demo_phdr) = 8"
  "elf_magic (ehdr_of demo_ehdr)" "e_machine (ehdr_of demo_ehdr) = 62" "ucast (e_phentsize (ehdr_of demo_ehdr)) = PHDR_SIZE"
  "e_phnum (ehdr_of demo_ehdr) = 1"
  by code_simp+

lemma demo_seg_bounds: "seg_lo (phdr_of demo_phdr) = 0x10000" "seg_hi (phdr_of demo_phdr) = 0x11000"
  by (simp_all add: seg_lo_def seg_hi_def demo_phdr_fields)

lemma program_disk_loadable:
  obtains f where "xbks_ramdisk_find program_disk (Some (lit ''/bin/xsh'')) = Some (Some f)"
    "loadable (ramdisk_data program_disk) f 512 (ehdr_of demo_ehdr) [phdr_of demo_phdr]"
proof -
  let ?d = "ramdisk_data program_disk" and ?h = "ehdr_of demo_ehdr"
  obtain f where f: "xbks_ramdisk_find program_disk (Some (lit ''/bin/xsh'')) = Some (Some f)"
      "abs_file f = \<lparr>node_path = cstr (lit ''/bin/xsh''), node_data = Some 512, node_size = 123, node_dir = False, node_exec = True\<rparr>"
    using ramdisk_find_apply [OF program_disk_wf lit_terminated [of "''/bin/xsh''"]] unfolding program_disk_lookup by auto
  have fields: "file_data f = Some 512" "file_size f = 123" "\<not> directory f" "executable f"
    using f(2) by (auto simp: abs_file_def word_unat_eq_iff)
  have "length ?d = 1024" by (simp add: program_disk_def demo_header_def lit_def demo_elf_length)
  then have "file_ok ?d f" by (simp add: file_ok_def fields)
  moreover have "validate_elf ?d f = Some (Some (512, ?h))"
    by (simp add: validate_elf_def fields read_ehdr_def program_disk_headers demo_phdr_fields demo_elf_headers)
  moreover have "segments ?d (512 + e_phoff ?h) (phdr_indices ?h) = [phdr_of demo_phdr]"
    by (simp add: segments_simps demo_elf_headers read_phdr_def program_disk_headers demo_phdr_fields)
  moreover have "user_segment 123 (phdr_of demo_phdr)" "seg_hi (phdr_of demo_phdr) \<le> stack_lo"
    by (simp_all add: user_segment_def segment_ok_def demo_phdr_fields demo_seg_bounds)
  ultimately show ?thesis using f(1) fields by (intro that [of f]) (simp_all add: loadable_def)
qed


section \<open>Properties\<close>

text \<open>
  Property C15. \<^verbatim>\<open>write_process_memory\<close> crosses page boundaries correctly: on a mapped range it succeeds,
  afterwards the process reads the bytes of the source there, every other address reads what it read before,
  and only frames of this address space are written.
\<close>

theorem write_process_memory_correct:
  assumes "uspace_inv s root fs" and "unat va + unat sz \<le> 2 ^ 47"
    and "\<forall>a. unat va \<le> unat a \<longrightarrow> unat a < unat va + unat sz \<longrightarrow> umem s root a \<noteq> None"
    and "length bytes = unat sz"
  shows "\<exists>s'. write_process_memory root va (from_buffer bytes) sz s = Some (True, s') \<and> writes root fs (unat va) bytes s s'"
proof -
  have "\<forall>off n. unat off + unat n \<le> unat sz \<longrightarrow> from_buffer bytes off n = Some (take (unat n) (drop (unat off) bytes))"
    using assms(4) by (auto simp: from_buffer_def slice_def)
  then show ?thesis by (rule write_process_memory_spec [OF assms])
qed

theorem write_process_memory_correct_witness:
  "\<exists>s s'. map_user_range 0x100000 0x10ffe 4 XBKS_PAGE_WRITABLE (snd (xbks_create_kernel_mapped_pml4 many_frames)) =
      Some (True, s) \<and>
    write_process_memory 0x100000 0x10ffe (from_buffer [1, 2, 3, 4]) 4 s = Some (True, s') \<and>
    umem s' 0x100000 0x10fff = Some 2 \<and> umem s' 0x100000 0x11000 = Some 3"
proof -
  obtain s fs where m: "map_user_range 0x100000 0x10ffe 4 XBKS_PAGE_WRITABLE (snd (xbks_create_kernel_mapped_pml4 many_frames)) =
      Some (True, s)" "uspace_inv s 0x100000 fs"
      "\<forall>a. 0x10ffe \<le> unat a \<longrightarrow> unat a < 0x11002 \<longrightarrow> umem s 0x100000 a \<noteq> None"
    by (rule two_pages)
  obtain s' where w: "write_process_memory 0x100000 0x10ffe (from_buffer [1, 2, 3, 4]) 4 s = Some (True, s')"
      "writes 0x100000 fs 0x10ffe [1, 2, 3, 4] s s'"
    using write_process_memory_correct [OF m(2), of "0x10ffe" 4 "[1, 2, 3, 4]"] m(3) by auto
  have "user_va 0x10fff" "user_va 0x11000" by (simp_all add: user_va_def)
  then have "umem s' 0x100000 0x10fff = Some 2" "umem s' 0x100000 0x11000 = Some 3"
    using w(2) unfolding writes_def by simp_all
  then show ?thesis using m(1) w(1) by blast
qed

text \<open>
  Property C3. \<^verbatim>\<open>load_program\<close> succeeds on every executable whose segments lie in the file and in user
  memory below the stack, on pages of their own, given free frames enough. The process then has an address
  space of its own, in which every segment is at its address over zeroes, the rest below the stack is
  unmapped, and the stack pointer is at the argument count, the argument and environment vectors and the strings they
  point to; the frames of all other processes are untouched.
\<close>

theorem load_program_correct:
  assumes "pmm_inv s (f # fs)" and "\<forall>g \<in> set fs. g AND ENTRY_ADDRESS = g"
    and "kernel_cr3_value s \<notin> set (f # fs)" and "aligned_page (kernel_cr3_value s)"
    and "xbks_ramdisk_find rd (Some path) = Some (Some file)" and "loadable (ramdisk_data rd) file base h segs"
    and "seg_frames segs + 64 \<le> length fs" and "arg_list argv" and "arg_list envp"
  shows "\<exists>rsp s' fs'.
    load_program rd path argv envp p s = Some (True, p\<lparr>proc_cr3 := f, proc_entry := e_entry h, proc_stack := rsp,
      proc_brk := 0x800000\<rparr>, s') \<and>
    uspace_inv s' f fs' \<and> program_ready (ramdisk_data rd) base segs argv envp (p\<lparr>proc_cr3 := f, proc_stack := rsp\<rparr>) s' \<and>
    cr3 s' = cr3 s \<and> (\<forall>x. (\<forall>g \<in> set (f # fs). \<not> page_at s g x) \<longrightarrow> kmem s' x = kmem s x)"
  using assms by (rule load_program_spec)

theorem load_program_correct_witness:
  "\<exists>p' s'. load_program program_disk (lit ''/bin/xsh'') [lit ''xsh''] [] zero_process many_frames = Some (True, p', s') \<and>
     program_ready (ramdisk_data program_disk) 512 [phdr_of demo_phdr] [lit ''xsh''] [] p' s'"
proof -
  obtain f where f: "xbks_ramdisk_find program_disk (Some (lit ''/bin/xsh'')) = Some (Some f)"
      "loadable (ramdisk_data program_disk) f 512 (ehdr_of demo_ehdr) [phdr_of demo_phdr]"
    by (rule program_disk_loadable)
  have k: "kernel_cr3_value many_frames \<notin> set (0x100000 # frame_list)" "aligned_page (kernel_cr3_value many_frames)"
    using frame_list_props(3) by (simp_all add: many_frames_static aligned_page_def)
  have n: "seg_frames [phdr_of demo_phdr] + 64 \<le> length frame_list"
    by (simp add: seg_frames_def demo_seg_bounds frame_list_props)
  have a: "arg_list [lit ''xsh'']" "arg_list []" by (simp_all add: arg_list_def lit_def terminated_def)
  show ?thesis
    using load_program_correct [OF many_frames_pool frame_list_props(4) k f n a, of zero_process]
    by (auto simp: program_ready_def)
qed



end
