(* ===== verification/Syscall_Spec.thy ===== *)
theory Syscall_Spec
  imports Syscalls Program_Load
begin

text \<open>
  The invariant of the kernel between system calls, and what the handlers do under it.
\<close>

section \<open>Scheduling\<close>

text \<open>
  The only switches between processes are \<^verbatim>\<open>vfork\<close>, which blocks the caller and runs the child, and \<^verbatim>\<open>exit\<close>, which
  resumes the blocked parent: one process runs, and the others that have not exited wait in a chain behind it.
\<close>

definition active :: "process \<Rightarrow> bool" where
  "active p \<longleftrightarrow> proc_state p = PROCESS_RUNNING \<or> proc_state p = PROCESS_BLOCKED"

definition one_running :: "process list \<Rightarrow> nat \<Rightarrow> bool" where
  "one_running ps i \<longleftrightarrow> i < length ps \<and> (\<forall>j < length ps. proc_state (ps ! j) = PROCESS_RUNNING \<longleftrightarrow> j = i)"

definition waits :: "process list \<Rightarrow> nat \<Rightarrow> nat \<Rightarrow> bool" where
  "waits ps q j \<longleftrightarrow> j < length ps \<and> active (ps ! j) \<and> vfork_parent (ps ! j) = Some q"

definition blocked :: "process list \<Rightarrow> nat \<Rightarrow> bool" where
  "blocked ps q \<longleftrightarrow> q < length ps \<and> proc_state (ps ! q) = PROCESS_BLOCKED"

definition sched_inv :: "process list \<Rightarrow> nat option \<Rightarrow> bool" where
  "sched_inv ps cur \<longleftrightarrow> length ps = 16 \<and> (\<exists>i. cur = Some i \<and> one_running ps i) \<and>
     (\<forall>q j. waits ps q j \<longrightarrow> blocked ps q) \<and>
     (\<forall>q j j'. waits ps q j \<longrightarrow> waits ps q j' \<longrightarrow> j = j') \<and>
     (\<forall>q. blocked ps q \<longrightarrow> (\<exists>j. waits ps q j))"

lemma sched_invD:
  assumes "sched_inv ps (Some i)"
  shows "length ps = 16" "one_running ps i" "waits ps q j \<Longrightarrow> blocked ps q"
    "waits ps q j \<Longrightarrow> waits ps q j' \<Longrightarrow> j = j'" "blocked ps q \<Longrightarrow> \<exists>j. waits ps q j"
  using assms unfolding sched_inv_def by blast+

lemma sched_current: "sched_inv ps cur \<Longrightarrow> \<exists>i. cur = Some i \<and> i < length ps \<and> sched_inv ps (Some i)"
  by (auto simp: sched_inv_def one_running_def)

lemma nth_upd: "j < length xs \<Longrightarrow> xs[i := x] ! j = (if i = j then x else xs ! j)"
  by (cases "i = j") simp_all

lemma sched_cong:
  assumes "length qs = length ps" "\<And>j. one_running qs j \<longleftrightarrow> one_running ps j" "\<And>q j. waits qs q j \<longleftrightarrow> waits ps q j"
    "\<And>q. blocked qs q \<longleftrightarrow> blocked ps q"
  shows "sched_inv qs cur \<longleftrightarrow> sched_inv ps cur"
  by (simp add: sched_inv_def assms)

lemma sched_keep:
  assumes "proc_state p = proc_state (ps ! i)" "vfork_parent p = vfork_parent (ps ! i)"
  shows "sched_inv (ps[i := p]) cur \<longleftrightarrow> sched_inv ps cur"
  using assms by (intro sched_cong) (auto simp: waits_def active_def one_running_def blocked_def nth_upd split: if_splits)

lemma sched_clear:
  assumes inv: "sched_inv ps cur" and c: "\<not> active (ps ! c)" "\<not> active p"
  shows "sched_inv (ps[c := p]) cur"
proof -
  have "sched_inv (ps[c := p]) cur \<longleftrightarrow> sched_inv ps cur"
    using c by (intro sched_cong) (auto simp: waits_def active_def one_running_def blocked_def nth_upd split: if_splits)
  then show ?thesis using inv by simp
qed

lemma sched_vfork:
  assumes inv: "sched_inv ps (Some i)" and c: "c < length ps" "\<not> active (ps ! c)"
    and new: "proc_state child = PROCESS_RUNNING" "vfork_parent child = Some i"
      "proc_state p = PROCESS_BLOCKED" "vfork_parent p = vfork_parent (ps ! i)"
  shows "sched_inv (ps[c := child, i := p]) (Some c)"
proof -
  note D = sched_invD [OF inv]
  have i: "i < length ps" "proc_state (ps ! i) = PROCESS_RUNNING" "i \<noteq> c"
    using D(2) c(2) by (auto simp: one_running_def active_def)
  have nw: "\<not> waits ps i j" for j using D(3) [of i j] i(2) by (auto simp: blocked_def)
  have w: "waits (ps[c := child, i := p]) q j \<longleftrightarrow> waits ps q j \<or> q = i \<and> j = c" for q j
    using c i new by (auto simp: waits_def nth_upd active_def split: if_splits)
  have b: "blocked (ps[c := child, i := p]) q \<longleftrightarrow> blocked ps q \<or> q = i" for q
    using c i new by (auto simp: blocked_def nth_upd active_def split: if_splits)
  have "one_running (ps[c := child, i := p]) c"
    using D(2) c i new by (auto simp: one_running_def nth_upd)
  then show ?thesis using D(1,3,4,5) nw unfolding sched_inv_def w b length_list_update by metis
qed

lemma sched_exit:
  assumes inv: "sched_inv ps (Some i)" and j: "vfork_parent (ps ! i) = Some j"
    and z: "proc_state z = PROCESS_ZOMBIE" and p: "proc_state p = PROCESS_RUNNING" "vfork_parent p = vfork_parent (ps ! j)"
  shows "sched_inv (ps[i := z, j := p]) (Some j)"
proof -
  note D = sched_invD [OF inv]
  have i: "i < length ps" "proc_state (ps ! i) = PROCESS_RUNNING" using D(2) by (auto simp: one_running_def)
  have wi: "waits ps j i" using i j by (simp add: waits_def active_def)
  have jb: "j < length ps" "proc_state (ps ! j) = PROCESS_BLOCKED" "j \<noteq> i"
    using D(3) [OF wi] i(2) by (auto simp: blocked_def)
  have nw: "\<not> waits ps i k" for k using D(3) [of i k] i(2) by (auto simp: blocked_def)
  have w: "waits (ps[i := z, j := p]) q k \<longleftrightarrow> waits ps q k \<and> k \<noteq> i" for q k
    using i jb z p by (auto simp: waits_def nth_upd active_def split: if_splits)
  have b: "blocked (ps[i := z, j := p]) q \<longleftrightarrow> blocked ps q \<and> q \<noteq> j" for q
    using i jb z p by (auto simp: blocked_def nth_upd split: if_splits)
  have "one_running (ps[i := z, j := p]) j"
    using D(2) i jb z p by (auto simp: one_running_def nth_upd)
  moreover have "q = j" if "waits ps q i" for q using that j by (simp add: waits_def)
  ultimately show ?thesis using D(1,3,4,5) wi unfolding sched_inv_def w b length_list_update by metis
qed

section \<open>The kernel invariant\<close>

definition fd_ok :: "u8 list \<Rightarrow> process_fd \<Rightarrow> bool" where
  "fd_ok data f \<longleftrightarrow> (fd_kind f = FD_FILE \<longrightarrow>
     (\<exists>d. file_data (fd_file f) = Some d \<and> unat d + unat (file_size (fd_file f)) \<le> length data))"

definition std_fds :: "process_fd list \<Rightarrow> bool" where
  "std_fds fds \<longleftrightarrow> fd_kind (fds ! 0) = FD_STDIN \<and> fd_kind (fds ! 1) = FD_STDOUT \<and> fd_kind (fds ! 2) = FD_STDERR \<and>
     (\<forall>i < length fds. 3 \<le> i \<longrightarrow> fd_kind (fds ! i) \<in> {FD_NONE, FD_FILE, FD_DIR})"

definition proc_ok :: "u8 list \<Rightarrow> process \<Rightarrow> bool" where
  "proc_ok data p \<longleftrightarrow> length (proc_fds p) = 16 \<and> (\<forall>f \<in> set (proc_fds p). fd_ok data f) \<and>
     (active p \<longrightarrow> std_fds (proc_fds p))"

definition kinv :: "kernel \<Rightarrow> bool" where
  "kinv k \<longleftrightarrow> wf_ramdisk (rdisk k) \<and> sched_inv (processes k) (current_process k) \<and>
     (\<forall>p \<in> set (processes k). proc_ok (ramdisk_data (rdisk k)) p)"

lemma kinv_memory [simp]: "kinv (k\<lparr>mm := m\<rparr>) \<longleftrightarrow> kinv k" "kinv (k\<lparr>io := d\<rparr>) \<longleftrightarrow> kinv k"
  by (simp_all add: kinv_def)

lemma kinvE:
  assumes "kinv k"
  obtains i where "current_process k = Some i" "i < length (processes k)" "current k = Some (processes k ! i)"
    "sched_inv (processes k) (Some i)" "proc_ok (ramdisk_data (rdisk k)) (processes k ! i)" "active (processes k ! i)"
proof -
  obtain i where i: "current_process k = Some i" "i < length (processes k)" "sched_inv (processes k) (Some i)"
    using assms sched_current [of "processes k" "current_process k"] by (auto simp: kinv_def)
  moreover have "proc_state (processes k ! i) = PROCESS_RUNNING"
    using sched_invD(2) [OF i(3)] by (auto simp: one_running_def)
  ultimately show ?thesis using assms by (intro that [of i]) (auto simp: current_def kinv_def active_def)
qed

text \<open>The running process changes what is its own, and stays the running process.\<close>

lemma kinv_set_current:
  assumes inv: "kinv k" and p: "current k = Some p" and p': "proc_state p' = proc_state p" "vfork_parent p' = vfork_parent p"
    "proc_ok (ramdisk_data (rdisk k)) p'"
  shows "kinv (set_current p' k)"
proof -
  obtain i where i: "current_process k = Some i" "i < length (processes k)" "current k = Some (processes k ! i)"
      "sched_inv (processes k) (Some i)"
    using inv by (rule kinvE)
  have e: "set_current p' k = k\<lparr>processes := (processes k)[i := p']\<rparr>" using i(1) by (simp add: set_current_def set_process_def)
  have "sched_inv ((processes k)[i := p']) (Some i)" using sched_keep [of p' "processes k" i] p p' i by simp
  moreover have "\<forall>q \<in> set ((processes k)[i := p']). proc_ok (ramdisk_data (rdisk k)) q"
    using inv p'(3) set_update_subset_insert [of "processes k" i p'] by (auto simp: kinv_def)
  ultimately show ?thesis using inv i(1) by (simp add: e kinv_def)
qed

lemma proc_ok_set_fd:
  assumes "proc_ok data p" "i < 16" "fd_ok data f"
    and "fd_kind f = fd_kind (proc_fds p ! i) \<or> 3 \<le> i \<and> fd_kind f \<in> {FD_NONE, FD_FILE, FD_DIR}"
  shows "proc_ok data (set_fd i f p)"
proof -
  have l: "length (proc_fds p) = 16" using assms(1) by (simp add: proc_ok_def)
  have "std_fds ((proc_fds p)[i := f])" if s: "std_fds (proc_fds p)"
    using s assms(4) l by (auto simp: std_fds_def nth_upd split: if_splits)
  moreover have "\<forall>g \<in> set ((proc_fds p)[i := f]). fd_ok data g"
    using assms(1,3) set_update_subset_insert [of "proc_fds p" i f] by (auto simp: proc_ok_def)
  ultimately show ?thesis using assms(1) by (simp add: proc_ok_def set_fd_def active_def)
qed

subsection \<open>Preservation, handler by handler\<close>

definition preserves :: "(kernel \<Rightarrow> (u64 \<times> kernel) option) \<Rightarrow> bool" where
  "preserves h \<longleftrightarrow> (\<forall>k v k'. kinv k \<longrightarrow> h k = Some (v, k') \<longrightarrow> kinv k')"

lemma preservesI: "(\<And>k v k'. kinv k \<Longrightarrow> h k = Some (v, k') \<Longrightarrow> kinv k') \<Longrightarrow> preserves h"
  by (simp add: preserves_def)

lemma preservesD: "preserves h \<Longrightarrow> kinv k \<Longrightarrow> h k = Some (v, k') \<Longrightarrow> kinv k'"
  by (auto simp: preserves_def)

lemmas handler_splits = bind_splits if_splits option.splits prod.splits

lemma err_kernel [simp]: "err e k = Some (v, k') \<longleftrightarrow> v = negative_errno e \<and> k' = k"
  by (auto simp: err_def)

lemma read_stdin_kinv: "read_stdin_loop buffer n k = Some k' \<Longrightarrow> kinv k' \<longleftrightarrow> kinv k"
  by (induction buffer n k rule: read_stdin_loop.induct) (auto split: bind_splits)

lemma current_fd:
  assumes "kinv k" "current k = Some p" "getb (proc_fds p) (unat fd) = Some f" "\<not> fd \<ge> MAX_FDS"
  shows "proc_ok (ramdisk_data (rdisk k)) p" "fd_ok (ramdisk_data (rdisk k)) f" "unat fd < 16" "f = proc_fds p ! unat fd"
proof -
  show p: "proc_ok (ramdisk_data (rdisk k)) p" using assms(1,2) by (auto elim!: kinvE)
  show "unat fd < 16" using assms(4) by (simp add: word_le_nat_alt)
  show f: "f = proc_fds p ! unat fd" using assms(3) by (simp add: getb_eq_Some)
  show "fd_ok (ramdisk_data (rdisk k)) f" using p f assms(3) by (simp add: proc_ok_def getb_eq_Some)
qed

lemma kinv_set_fd:
  assumes "kinv k" "current k = Some p" "i < 16" "fd_ok (ramdisk_data (rdisk k)) f"
    "fd_kind f = fd_kind (proc_fds p ! i) \<or> 3 \<le> i \<and> fd_kind f \<in> {FD_NONE, FD_FILE, FD_DIR}"
  shows "kinv (set_current (set_fd i f p) k)"
proof (rule kinv_set_current [OF assms(1,2)])
  have "proc_ok (ramdisk_data (rdisk k)) p" using assms(1,2) by (auto elim!: kinvE)
  then show "proc_ok (ramdisk_data (rdisk k)) (set_fd i f p)" using assms(3-5) by (rule proc_ok_set_fd)
qed (simp_all add: set_fd_def)

lemma set_current_memory: "set_current p (k\<lparr>mm := m\<rparr>) = (set_current p k)\<lparr>mm := m\<rparr>"
  by (simp add: set_current_def set_process_def split: option.split)

lemma syscall_read_kinv: "preserves (syscall_read fd buffer_address count)"
proof (rule preservesI)
  fix k v k' assume k: "kinv k" and r: "syscall_read fd buffer_address count k = Some (v, k')"
  show "kinv k'"
  proof (cases "\<not> user_range_is_valid buffer_address count \<or> fd \<ge> MAX_FDS")
    case True
    then show ?thesis using k r by (auto simp: syscall_read_def split: if_splits)
  next
    case False
    then obtain p f where pf: "current k = Some p" "getb (proc_fds p) (unat fd) = Some f"
      using r by (auto simp: syscall_read_def split: bind_splits)
    have fd: "\<not> fd \<ge> MAX_FDS" using False by simp
    note c = current_fd [OF k pf fd]
    have "kinv (set_current (set_fd (unat fd) (f\<lparr>fd_offset := a\<rparr>) p) k)" for a
      using c by (intro kinv_set_fd [OF k pf(1)]) (simp_all add: fd_ok_def)
    then show ?thesis using k r False pf read_stdin_kinv
      by (auto simp: syscall_read_def set_current_memory Let_def split: handler_splits)
  qed
qed

lemma syscall_write_kinv: "preserves (syscall_write fd buffer_address count)"
  by (rule preservesI) (auto simp: syscall_write_def split: handler_splits)

lemma find_index_Some: "find_index P xs n = Some i \<Longrightarrow> n \<le> i \<and> i - n < length xs \<and> P (xs ! (i - n))"
  by (induction P xs n rule: find_index.induct) (auto split: if_splits simp: nth_Cons' Suc_le_eq)

lemma syscall_close_kinv: "preserves (syscall_close fd)"
proof (rule preservesI)
  fix k v k' assume k: "kinv k" and r: "syscall_close fd k = Some (v, k')"
  show "kinv k'"
  proof (cases "fd \<ge> MAX_FDS \<or> fd \<le> 2")
    case True
    then show ?thesis using k r by (auto simp: syscall_close_def)
  next
    case False
    then obtain p f where pf: "current k = Some p" "getb (proc_fds p) (unat fd) = Some f"
      using r by (auto simp: syscall_close_def split: bind_splits)
    have fd: "\<not> fd \<ge> MAX_FDS" "3 \<le> unat fd" using False by (auto simp: word_le_nat_alt)
    have "kinv (set_current (set_fd (unat fd) zero_fd p) k)"
      using current_fd [OF k pf fd(1)] fd(2) by (intro kinv_set_fd [OF k pf(1)]) (simp_all add: fd_ok_def zero_fd_def)
    then show ?thesis using k r False pf by (auto simp: syscall_close_def split: if_splits)
  qed
qed

lemma syscall_lseek_kinv: "preserves (syscall_lseek fd off whence)"
proof (rule preservesI)
  fix k v k' assume k: "kinv k" and r: "syscall_lseek fd off whence k = Some (v, k')"
  show "kinv k'"
  proof (cases "fd \<ge> MAX_FDS")
    case True
    then show ?thesis using k r by (auto simp: syscall_lseek_def)
  next
    case False
    then obtain p f where pf: "current k = Some p" "getb (proc_fds p) (unat fd) = Some f"
      using r by (auto simp: syscall_lseek_def split: bind_splits)
    have "kinv (set_current (set_fd (unat fd) (f\<lparr>fd_offset := a\<rparr>) p) k)" for a
      using current_fd [OF k pf False] by (intro kinv_set_fd [OF k pf(1)]) (simp_all add: fd_ok_def)
    then show ?thesis using k r False pf by (auto simp: syscall_lseek_def Let_def split: if_splits)
  qed
qed

text \<open>A string that \<^verbatim>\<open>copy_user_string\<close> accepts: terminated, and byte for byte what the process has.\<close>

lemma copy_user_string_loop_spec:
  assumes "copy_user_string_loop s src i n dest = Some (Some d)" "i + n \<le> length dest" "\<forall>j < i. dest ! j \<noteq> 0"
  shows "\<exists>m. i \<le> m \<and> m < i + n \<and> d ! m = 0 \<and> (\<forall>j < m. d ! j \<noteq> 0) \<and> length d = length dest \<and>
    (\<forall>j < i. d ! j = dest ! j) \<and> (\<forall>j. i \<le> j \<and> j \<le> m \<longrightarrow> user_load s (src + of_nat j) = Some (d ! j))"
  using assms
proof (induction s src i n dest rule: copy_user_string_loop.induct)
  case (2 s src i n dest)
  obtain c where c: "user_load s (src + of_nat i) = Some c" "user_range_is_valid (src + of_nat i) 1"
    using "2.prems"(1) by (auto split: if_splits bind_splits)
  have i: "setb dest i c = Some (dest[i := c])" using "2.prems"(2) by simp
  show ?case
  proof (cases "c = 0")
    case True
    then show ?thesis
      using "2.prems" c i by (intro exI [of _ i]) (auto simp: nth_upd)
  next
    case False
    have r: "copy_user_string_loop s src (Suc i) n (dest[i := c]) = Some (Some d)"
      using "2.prems"(1) c i False by simp
    have nz: "\<forall>j < Suc i. dest[i := c] ! j \<noteq> 0" using "2.prems"(2,3) False by (auto simp: nth_upd less_Suc_eq)
    obtain m where m: "Suc i \<le> m" "m < Suc i + n" "d ! m = 0" "\<forall>j < m. d ! j \<noteq> 0" "length d = length (dest[i := c])"
        "\<forall>j < Suc i. d ! j = dest[i := c] ! j" "\<forall>j. Suc i \<le> j \<and> j \<le> m \<longrightarrow> user_load s (src + of_nat j) = Some (d ! j)"
      using "2.IH" [OF _ c(1) i False r _ nz] c(2) "2.prems"(2) by (auto 0 0)
    have "user_load s (src + of_nat j) = Some (d ! j)" if "i \<le> j \<and> j \<le> m" for j
      using that m(1,5-7) c(1) "2.prems"(2) by (cases "j = i") (auto simp: nth_upd)
    then show ?thesis using m "2.prems"(2) by (intro exI [of _ m]) (auto simp: nth_upd)
  qed
qed simp

lemma copy_user_string_spec:
  assumes "copy_user_string s dest n src = Some (Some d)" "n \<le> length dest"
  shows "terminated d" "length d = length dest" "length (cstr d) < n"
    "j \<le> length (cstr d) \<Longrightarrow> user_load s (src + of_nat j) = Some (d ! j)"
proof -
  have "copy_user_string_loop s src 0 n dest = Some (Some d)"
    using assms(1) by (auto simp: copy_user_string_def split: if_splits)
  then obtain m where m: "m < n" "d ! m = 0" "\<forall>j < m. d ! j \<noteq> 0" "length d = length dest"
      "\<forall>j. j \<le> m \<longrightarrow> user_load s (src + of_nat j) = Some (d ! j)"
    using copy_user_string_loop_spec [of s src 0 n dest d] assms(2) by auto
  have l: "m < length d" using m(1,4) assms(2) by simp
  then show t: "terminated d" using m(2) by (auto simp: terminated_def in_set_conv_nth)
  show "length d = length dest" by (rule m(4))
  have "d ! length (cstr d) = 0" using nth_length_cstr [OF t] .
  moreover have "d ! j \<noteq> 0" if "j < length (cstr d)" for j
    using that nth_mem [OF that] nul_notin_cstr [of d] by (metis cstr_def takeWhile_nth)
  ultimately have e: "length (cstr d) = m" using m(2,3) by (metis linorder_neqE_nat)
  show "length (cstr d) < n" using e m(1) by simp
  show "j \<le> length (cstr d) \<Longrightarrow> user_load s (src + of_nat j) = Some (d ! j)" using e m(5) by simp
qed

lemma allocate_fd_Some:
  assumes "allocate_fd p = Some fd" "length (proc_fds p) = 16"
  shows "3 \<le> fd" "fd < 16" "fd_kind (proc_fds p ! fd) = FD_NONE"
  using find_index_Some [OF assms(1) [unfolded allocate_fd_def]] assms(2) by auto

lemma found_fd_ok:
  assumes "wf_ramdisk rd" "terminated path" "xbks_ramdisk_find rd (Some path) = Some (Some f)"
  shows "fd_ok (ramdisk_data rd) \<lparr>fd_kind = (if directory f then FD_DIR else FD_FILE), fd_file = f, fd_offset = a\<rparr>"
  using files_in_archive [OF assms(1,2), of f 0] assms(3) by (auto simp: fd_ok_def split: option.splits)

lemma syscall_open_kinv: "preserves (syscall_open path_address)"
proof (rule preservesI)
  fix k v k' assume k: "kinv k" and r: "syscall_open path_address k = Some (v, k')"
  obtain p where p: "current k = Some p" "proc_ok (ramdisk_data (rdisk k)) p" using k by (auto elim: kinvE)
  show "kinv k'"
  proof (cases "k' = k")
    case False
    obtain fd path f where o: "allocate_fd p = Some fd"
        "copy_user_string (mm k) (replicate MAX_STRING 0) MAX_STRING path_address = Some (Some path)"
        "xbks_ramdisk_find (rdisk k) (Some path) = Some (Some f)"
        "k' = set_current (set_fd fd \<lparr>fd_kind = (if directory f then FD_DIR else FD_FILE), fd_file = f, fd_offset = 0\<rparr> p) k"
      using r False p(1) by (auto simp: syscall_open_def split: handler_splits)
    have t: "terminated path" using copy_user_string_spec(1) [OF o(2)] by simp
    have "length (proc_fds p) = 16" using p(2) by (simp add: proc_ok_def)
    note a = allocate_fd_Some [OF o(1) this]
    have "fd_ok (ramdisk_data (rdisk k)) \<lparr>fd_kind = (if directory f then FD_DIR else FD_FILE), fd_file = f, fd_offset = 0\<rparr>"
      using k t o(3) by (intro found_fd_ok) (auto simp: kinv_def)
    then show ?thesis unfolding o(4) using a by (intro kinv_set_fd [OF k p(1)]) auto
  qed (use k in simp)
qed

lemma syscall_getdents64_kinv: "preserves (syscall_getdents64 fd dirent_address count)"
proof (rule preservesI)
  fix k v k' assume k: "kinv k" and r: "syscall_getdents64 fd dirent_address count k = Some (v, k')"
  show "kinv k'"
  proof (cases "fd \<ge> MAX_FDS")
    case True
    then show ?thesis using k r by (auto simp: syscall_getdents64_def)
  next
    case False
    then obtain p f where pf: "current k = Some p" "getb (proc_fds p) (unat fd) = Some f"
      using r by (auto simp: syscall_getdents64_def split: bind_splits)
    have "kinv (set_current (set_fd (unat fd) (f\<lparr>fd_offset := a\<rparr>) p) k)" for a
      using current_fd [OF k pf False] by (intro kinv_set_fd [OF k pf(1)]) (simp_all add: fd_ok_def)
    then show ?thesis using k r False pf
      by (auto simp: syscall_getdents64_def set_current_memory split: handler_splits)
  qed
qed

lemma syscall_access_kinv: "preserves (syscall_access path_address)"
  by (rule preservesI) (auto simp: syscall_access_def split: handler_splits)

lemma syscall_getcwd_kinv: "preserves (syscall_getcwd buffer_address sz)"
  by (rule preservesI) (auto simp: syscall_getcwd_def split: handler_splits)

lemma syscall_uname_kinv: "preserves (syscall_uname buffer_address)"
  by (rule preservesI) (auto simp: syscall_uname_def split: handler_splits)

lemma proc_ok_fields [simp]:
  "proc_ok data (p\<lparr>proc_brk := a\<rparr>) = proc_ok data p" "proc_ok data (p\<lparr>proc_cr3 := a\<rparr>) = proc_ok data p"
  "proc_ok data (p\<lparr>proc_entry := a\<rparr>) = proc_ok data p" "proc_ok data (p\<lparr>proc_stack := a\<rparr>) = proc_ok data p"
  by (simp_all add: proc_ok_def active_def)

lemma syscall_brk_kinv: "preserves (syscall_brk requested)"
proof (rule preservesI)
  fix k v k' assume k: "kinv k" and r: "syscall_brk requested k = Some (v, k')"
  obtain p where p: "current k = Some p" "proc_ok (ramdisk_data (rdisk k)) p" using k by (auto elim: kinvE)
  have "kinv (set_current (p\<lparr>proc_brk := a\<rparr>) k)" for a using p by (intro kinv_set_current [OF k p(1)]) simp_all
  then show "kinv k'" using k r p(1) by (auto simp: syscall_brk_def set_current_memory split: handler_splits)
qed

lemma syscall_execve_kinv:
  assumes k: "kinv k" and r: "syscall_execve frame k = Some (v, frame', k')"
  shows "kinv k'"
proof -
  obtain p where p: "current k = Some p" "proc_ok (ramdisk_data (rdisk k)) p" using k by (auto elim: kinvE)
  have "kinv (set_current (p\<lparr>proc_cr3 := a, proc_entry := b, proc_stack := c, proc_brk := d\<rparr>) k)" for a b c d
    using p by (intro kinv_set_current [OF k p(1)]) simp_all
  then show ?thesis using k r p(1) by (auto simp: syscall_execve_def set_current_memory Let_def split: handler_splits)
qed

lemma zero_process_props [simp]: "proc_ok data zero_process" "\<not> active zero_process"
  by (auto simp: proc_ok_def active_def zero_process_def zero_fd_def fd_ok_def)

lemma allocate_process_Some:
  assumes "allocate_process k = (Some c, k1)"
  shows "c < length (processes k)" "proc_state (processes k ! c) = PROCESS_UNUSED"
    "k1 = k\<lparr>processes := (processes k)[c := fresh_process (next_pid k)], next_pid := next_pid k + 1\<rparr>"
proof -
  have f: "find_index (\<lambda>p. proc_state p = PROCESS_UNUSED) (processes k) 0 = Some c"
    using assms by (auto simp: allocate_process_def split: option.splits)
  show "c < length (processes k)" "proc_state (processes k ! c) = PROCESS_UNUSED"
    using find_index_Some [OF f] by simp_all
  show "k1 = k\<lparr>processes := (processes k)[c := fresh_process (next_pid k)], next_pid := next_pid k + 1\<rparr>"
    using assms f by (simp add: allocate_process_def)
qed

lemma kinv_processes:
  assumes "kinv k" "sched_inv ps (current_process k')" "set ps \<subseteq> set (processes k) \<union> qs"
    "\<forall>q \<in> qs. proc_ok (ramdisk_data (rdisk k)) q" "processes k' = ps" "rdisk k' = rdisk k"
  shows "kinv k'"
  using assms unfolding kinv_def by auto

lemma set_updates: "set (xs[i := x, j := y]) \<subseteq> set xs \<union> {x, y}"
  using set_update_subset_insert [of "xs[i := x]" j y] set_update_subset_insert [of xs i x] by auto

text \<open>The child that \<^verbatim>\<open>vfork\<close> makes of the process \<open>p\<close> in slot \<open>i\<close>, and its three outcomes.\<close>

definition vfork_child :: "nat \<Rightarrow> process \<Rightarrow> u32 \<Rightarrow> u64 \<Rightarrow> xbks_syscall_frame \<Rightarrow> process" where
  "vfork_child i p pid root frame = (fresh_process pid)\<lparr>proc_ppid := proc_pid p, proc_parent := Some i,
     vfork_parent := Some i, proc_cr3 := root, proc_entry := proc_entry p, proc_stack := proc_stack p,
     proc_brk := proc_brk p, saved_parent_frame := frame\<lparr>rax := scast pid\<rparr>, proc_fds := proc_fds p\<rparr>"

lemma vfork_child_fields [simp]:
  "proc_state (vfork_child i p pid root frame) = PROCESS_RUNNING" "vfork_parent (vfork_child i p pid root frame) = Some i"
  "proc_parent (vfork_child i p pid root frame) = Some i" "proc_fds (vfork_child i p pid root frame) = proc_fds p"
  "proc_pid (vfork_child i p pid root frame) = pid" "proc_cr3 (vfork_child i p pid root frame) = root"
  "saved_parent_frame (vfork_child i p pid root frame) = frame\<lparr>rax := scast pid\<rparr>"
  by (simp_all add: vfork_child_def fresh_process_def)

lemma vfork_outcome:
  assumes k: "kinv k" and i: "current_process k = Some i" and r: "syscall_vfork frame k = Some (v, k')"
  shows "v = negative_errno XBKS_EAGAIN \<and> k' = k \<or>
    (\<exists>c. c < length (processes k) \<and> proc_state (processes k ! c) = PROCESS_UNUSED \<and> i \<noteq> c \<and>
      (v = negative_errno XBKS_ENOMEM \<and> (\<exists>m. k' = k\<lparr>next_pid := next_pid k + 1, mm := m, processes := (processes k)[c := zero_process]\<rparr>) \<or>
       v = 0 \<and> (\<exists>root m. root \<noteq> 0 \<and> k' = k\<lparr>processes := (processes k)[c := vfork_child i (processes k ! i) (next_pid k) root frame,
           i := (processes k ! i)\<lparr>proc_state := PROCESS_BLOCKED\<rparr>], next_pid := next_pid k + 1, current_process := Some c,
           mm := xbks_write_cr3 root m\<rparr>)))"
proof -
  have ii: "i < length (processes k)" "active (processes k ! i)" using k i by (auto elim!: kinvE)
  obtain a k1 where a: "allocate_process k = (a, k1)" by fastforce
  show ?thesis
  proof (cases a)
    case None
    then have "k1 = k" using a by (auto simp: allocate_process_def split: option.splits)
    then show ?thesis using r None a by (simp add: syscall_vfork_def)
  next
    case (Some c)
    note c = allocate_process_Some [OF a [unfolded Some]]
    have ic: "i \<noteq> c" using c(2) ii(2) by (auto simp: active_def)
    obtain root m where m: "xbks_create_kernel_mapped_pml4 (mm k1) = (root, m)" by fastforce
    obtain ok m2 where m2: "(if root = 0 then (False, m)
        else xbks_vmm_clone_user_space (proc_cr3 (processes k ! i)) root XBKS_USER_TOP m) = (ok, m2)" by fastforce
    have run: "getb (processes k1) i = Some (processes k ! i)" "getb (processes k1) c = Some (fresh_process (next_pid k))"
        "current_process k1 = Some i" "proc_pid (fresh_process (next_pid k)) = next_pid k"
      using c i ii ic by (simp_all add: fresh_process_def)
    show ?thesis
    proof (cases ok)
      case False
      have "v = negative_errno XBKS_ENOMEM" "\<exists>m. k' = k\<lparr>next_pid := next_pid k + 1, mm := m, processes := (processes k)[c := zero_process]\<rparr>"
        using r a Some m m2 run False c(3) by (auto simp: syscall_vfork_def Let_def set_process_def)
      then show ?thesis using c(1,2) ic by blast
    next
      case True
      have "root \<noteq> 0" using m2 True by auto
      moreover have "v = 0" "k' = k\<lparr>processes := (processes k)[c := vfork_child i (processes k ! i) (next_pid k) root frame,
           i := (processes k ! i)\<lparr>proc_state := PROCESS_BLOCKED\<rparr>], next_pid := next_pid k + 1, current_process := Some c,
           mm := xbks_write_cr3 root m2\<rparr>"
        using r a Some m m2 run True c(3) by (auto simp: syscall_vfork_def Let_def set_process_def vfork_child_def)
      ultimately show ?thesis using c(1,2) ic by blast
    qed
  qed
qed

lemma syscall_vfork_kinv: "preserves (syscall_vfork frame)"
proof (rule preservesI)
  fix k v k' assume k: "kinv k" and r: "syscall_vfork frame k = Some (v, k')"
  obtain i where i: "current_process k = Some i" "sched_inv (processes k) (Some i)"
      "proc_ok (ramdisk_data (rdisk k)) (processes k ! i)" "active (processes k ! i)"
    using k by (rule kinvE)
  show "kinv k'"
    using vfork_outcome [OF k i(1) r]
  proof (elim disjE exE conjE)
    fix c m assume c: "proc_state (processes k ! c) = PROCESS_UNUSED"
      and e: "k' = k\<lparr>next_pid := next_pid k + 1, mm := m, processes := (processes k)[c := zero_process]\<rparr>"
    have "sched_inv ((processes k)[c := zero_process]) (Some i)" using i(2) c by (intro sched_clear) (auto simp: active_def zero_process_def)
    then show ?thesis
      using i(1) e set_update_subset_insert [of "processes k" c zero_process]
      by (intro kinv_processes [OF k, of _ k' "{zero_process}"]) auto
  next
    fix c root m assume c: "c < length (processes k)" "proc_state (processes k ! c) = PROCESS_UNUSED"
      and e: "k' = k\<lparr>processes := (processes k)[c := vfork_child i (processes k ! i) (next_pid k) root frame,
           i := (processes k ! i)\<lparr>proc_state := PROCESS_BLOCKED\<rparr>], next_pid := next_pid k + 1, current_process := Some c,
           mm := xbks_write_cr3 root m\<rparr>"
    let ?c = "vfork_child i (processes k ! i) (next_pid k) root frame" and ?b = "(processes k ! i)\<lparr>proc_state := PROCESS_BLOCKED\<rparr>"
    have "sched_inv ((processes k)[c := ?c, i := ?b]) (Some c)"
      using c(2) by (intro sched_vfork [OF i(2) c(1)]) (simp_all add: active_def)
    moreover have "proc_ok (ramdisk_data (rdisk k)) ?c" "proc_ok (ramdisk_data (rdisk k)) ?b"
      using i(3,4) by (auto simp: proc_ok_def active_def)
    ultimately show ?thesis
      using e set_updates [of "processes k" c ?c i ?b] by (intro kinv_processes [OF k, of _ k' "{?c, ?b}"]) auto
  qed (use k in simp)
qed

lemma syscall_wait4_kinv: "preserves (syscall_wait4 pid status_address)"
proof (rule preservesI)
  fix k v k' assume k: "kinv k" and r: "syscall_wait4 pid status_address k = Some (v, k')"
  show "kinv k'"
  proof (cases "find_index (waits_for pid (current_process k)) (processes k) 0")
    case None
    then show ?thesis using k r by (simp add: syscall_wait4_def)
  next
    case (Some c)
    have c: "c < length (processes k)" "proc_state (processes k ! c) = PROCESS_ZOMBIE"
      using find_index_Some [OF Some] by (simp_all add: waits_for_def)
    have "sched_inv ((processes k)[c := zero_process]) (current_process k)"
      using k c by (intro sched_clear) (auto simp: kinv_def active_def zero_process_def)
    then have "kinv (set_process c zero_process k)"
      using set_update_subset_insert [of "processes k" c zero_process]
      by (intro kinv_processes [OF k, of _ _ "{zero_process}"]) (auto simp: set_process_def)
    moreover have "set_process c zero_process (k\<lparr>mm := m\<rparr>) = (set_process c zero_process k)\<lparr>mm := m\<rparr>" for m
      by (simp add: set_process_def)
    ultimately show ?thesis using k r Some c
      by (auto simp: syscall_wait4_def Let_def split: handler_splits)
  qed
qed

text \<open>What \<^verbatim>\<open>exit\<close> does: the caller becomes a zombie and its blocked parent runs on, or the machine halts.\<close>

definition exited :: "u64 \<Rightarrow> process \<Rightarrow> process" where
  "exited status p = p\<lparr>exit_status := ucast (status AND 0xff), proc_state := PROCESS_ZOMBIE\<rparr>"

lemma exited_fields [simp]:
  "proc_state (exited status p) = PROCESS_ZOMBIE" "proc_fds (exited status p) = proc_fds p" "proc_pid (exited status p) = proc_pid p"
  "vfork_parent (exited status p) = vfork_parent p" "exit_status (exited status p) = ucast (status AND 0xff)"
  "proc_parent (exited status p) = proc_parent p" "proc_cr3 (exited status p) = proc_cr3 p"
  by (simp_all add: exited_def)

lemma exit_resumes:
  assumes k: "kinv k" and i: "current_process k = Some i" and j: "vfork_parent (processes k ! i) = Some j"
  defines "p \<equiv> processes k ! i" and "parent \<equiv> processes k ! j"
  shows "j < length (processes k)" "j \<noteq> i" "proc_state parent = PROCESS_BLOCKED"
    "syscall_exit frame status k = Some (Returns (scast (proc_pid p)) ((saved_parent_frame p)\<lparr>rax := scast (proc_pid p)\<rparr>)
      (k\<lparr>processes := (processes k)[i := exited status p, j := parent\<lparr>proc_state := PROCESS_RUNNING\<rparr>],
         current_process := Some j, mm := xbks_write_cr3 (proc_cr3 parent) (mm k)\<rparr>))"
proof -
  have ii: "i < length (processes k)" "active (processes k ! i)" "sched_inv (processes k) (Some i)"
    using k i by (auto elim!: kinvE)
  have "waits (processes k) j i" using ii j by (simp add: waits_def)
  then have b: "j < length (processes k)" "proc_state (processes k ! j) = PROCESS_BLOCKED"
    using sched_invD(3) [OF ii(3)] by (simp_all add: blocked_def)
  then have ne: "j \<noteq> i" using sched_invD(2) [OF ii(3)] ii(1) by (auto simp: one_running_def)
  show "j < length (processes k)" "j \<noteq> i" "proc_state parent = PROCESS_BLOCKED" using b ne by (simp_all add: parent_def)
  show "syscall_exit frame status k = Some (Returns (scast (proc_pid p)) ((saved_parent_frame p)\<lparr>rax := scast (proc_pid p)\<rparr>)
      (k\<lparr>processes := (processes k)[i := exited status p, j := parent\<lparr>proc_state := PROCESS_RUNNING\<rparr>],
         current_process := Some j, mm := xbks_write_cr3 (proc_cr3 parent) (mm k)\<rparr>))"
    using i ii(1) j b(1) ne
    by (simp add: syscall_exit_def Let_def set_process_def exited_def p_def parent_def nth_upd)
qed

lemma syscall_exit_kinv:
  assumes k: "kinv k" and r: "syscall_exit frame status k = Some (Returns v frame' k')"
  shows "kinv k'"
proof -
  obtain i where i: "current_process k = Some i" "i < length (processes k)" "sched_inv (processes k) (Some i)"
      "proc_ok (ramdisk_data (rdisk k)) (processes k ! i)" using k by (rule kinvE)
  show ?thesis
  proof (cases "vfork_parent (processes k ! i)")
    case None
    then show ?thesis using r i by (auto simp: syscall_exit_def Let_def split: bind_splits)
  next
    case (Some j)
    note e = exit_resumes [OF k i(1) Some]
    let ?z = "exited status (processes k ! i)" and ?p = "(processes k ! j)\<lparr>proc_state := PROCESS_RUNNING\<rparr>"
    have "sched_inv ((processes k)[i := ?z, j := ?p]) (Some j)"
      by (intro sched_exit [OF i(3) Some]) simp_all
    moreover have "proc_ok (ramdisk_data (rdisk k)) (processes k ! j)" using k e(1) by (simp add: kinv_def)
    then have "proc_ok (ramdisk_data (rdisk k)) ?z" "proc_ok (ramdisk_data (rdisk k)) ?p"
      using i(4) e(3) by (auto simp: proc_ok_def active_def)
    ultimately show ?thesis using r e(4) [of frame status] set_updates [of "processes k" i ?z j ?p]
      by (intro kinv_processes [OF k, of _ k' "{?z, ?p}"]) auto
  qed
qed

lemmas handlers_kinv = syscall_read_kinv syscall_write_kinv syscall_open_kinv syscall_close_kinv syscall_lseek_kinv
  syscall_access_kinv syscall_getdents64_kinv syscall_brk_kinv syscall_getcwd_kinv syscall_uname_kinv
  syscall_vfork_kinv syscall_wait4_kinv

definition leads_to_kinv :: "syscall_result option \<Rightarrow> bool" where
  "leads_to_kinv r \<longleftrightarrow> (\<forall>v frame k. r = Some (Returns v frame k) \<longrightarrow> kinv k)"

lemma leads_to_kinv_intros:
  "leads_to_kinv a \<Longrightarrow> leads_to_kinv b \<Longrightarrow> leads_to_kinv (if c then a else b)"
  "preserves h \<Longrightarrow> kinv k \<Longrightarrow> leads_to_kinv (returns frame (h k))"
  "kinv k \<Longrightarrow> leads_to_kinv (Some (Returns v frame k))"
  "kinv k \<Longrightarrow> leads_to_kinv (Option.bind (current k) (\<lambda>p. Some (Returns (g p) frame k)))"
  by (auto simp: leads_to_kinv_def returns_def preserves_def split: bind_splits)

lemma leads_to_kinv_execve:
  assumes "kinv k"
  shows "leads_to_kinv (map_option (\<lambda>(v, f, k'). Returns v f k') (syscall_execve frame k))"
  unfolding leads_to_kinv_def
proof (intro allI impI)
  fix v f k' assume "map_option (\<lambda>(v, f, k'). Returns v f k') (syscall_execve frame k) = Some (Returns v f k')"
  then have "syscall_execve frame k = Some (v, f, k')" by (auto simp: map_option_eq_Some)
  then show "kinv k'" by (rule syscall_execve_kinv [OF assms])
qed

lemma leads_to_kinv_exit: "kinv k \<Longrightarrow> leads_to_kinv (syscall_exit frame status k)"
  unfolding leads_to_kinv_def using syscall_exit_kinv by blast

lemma dispatch_kinv: "kinv k \<Longrightarrow> leads_to_kinv (xbks_syscall_dispatch frame k)"
  unfolding xbks_syscall_dispatch_def xbks_process_syscall_dispatch_def Let_def
  by (intro leads_to_kinv_intros leads_to_kinv_execve leads_to_kinv_exit handlers_kinv)

end
