(* ===== verification/Kernel_Run.thy ===== *)
theory Kernel_Run
  imports Syscall_Spec Format_Types
begin

text \<open>
  The kernel as a transition system: from \<^verbatim>\<open>xbks_process_start_init\<close> to the system calls of the processes,
  with the steps of the programs and the devices between them.
\<close>

section \<open>Start\<close>

text \<open>
  What the boot loader promises of a module: the size it reports is the size of the block.
\<close>

definition modules_ok :: "module_response \<Rightarrow> bool" where
  "modules_ok modules \<longleftrightarrow> (\<forall>ms m d. modules = Some ms \<longrightarrow> Some m \<in> set ms \<longrightarrow> lf_address m = Some d \<longrightarrow>
     unat (lf_size m) = length d \<and> length d < 2 ^ 63)"

definition booted :: "kernel \<Rightarrow> bool" where
  "booted k \<longleftrightarrow> processes k = replicate MAX_PROCESSES zero_process \<and> current_process k = None"

lemma ramdisk_search_module:
  "ramdisk_search ms = Some (Some rd) \<Longrightarrow> \<exists>m. Some m \<in> set ms \<and> lf_address m \<noteq> None \<and> rd = use_module m"
  by (induction ms rule: ramdisk_search.induct) (auto split: if_splits bind_splits)

lemma ramdisk_init_wf:
  assumes "modules_ok modules" "xbks_ramdisk_init modules = Some (True, rd, fmt)"
  shows "wf_ramdisk rd"
proof -
  obtain ms where ms: "modules = Some ms" "ms \<noteq> []" using assms(2) by (auto simp: xbks_ramdisk_init_def split: option.splits if_splits)
  have "\<exists>m. Some m \<in> set ms \<and> lf_address m \<noteq> None \<and> rd = use_module m"
  proof (cases "ramdisk_search ms = Some (Some rd)")
    case True
    then show ?thesis by (rule ramdisk_search_module)
  next
    case False
    then obtain m where "hd ms = Some m" "lf_address m \<noteq> None" "rd = use_module m"
      using assms(2) ms by (auto simp: xbks_ramdisk_init_def split: option.splits if_splits bind_splits)
    then show ?thesis using ms(2) hd_in_set [of ms] by auto
  qed
  then show ?thesis using assms(1) ms(1) by (auto simp: modules_ok_def wf_ramdisk_def use_module_def)
qed

lemma load_elf_fields:
  "load_elf_into_process data f p s = Some (ok, p', s') \<Longrightarrow>
   proc_state p' = proc_state p \<and> vfork_parent p' = vfork_parent p \<and> proc_fds p' = proc_fds p"
  by (auto simp: load_elf_into_process_def split: handler_splits)

lemma build_stack_fields:
  "build_user_stack argv envp p s = Some (ok, p', s') \<Longrightarrow>
   proc_state p' = proc_state p \<and> vfork_parent p' = vfork_parent p \<and> proc_fds p' = proc_fds p"
  by (auto simp: build_user_stack_def Let_def split: handler_splits)

lemma load_program_fields:
  assumes "load_program rd path argv envp p s = Some (ok, p', s')"
  shows "proc_state p' = proc_state p \<and> vfork_parent p' = vfork_parent p \<and> proc_fds p' = proc_fds p"
  using assms by (auto simp: load_program_def Let_def split: handler_splits dest!: load_elf_fields build_stack_fields)

lemma first_process_inv:
  assumes "i < 16" "proc_state p = PROCESS_RUNNING" "vfork_parent p = None" "proc_fds p = proc_fds (fresh_process 0)"
    and "wf_ramdisk (rdisk k)" "processes k = (replicate MAX_PROCESSES zero_process)[i := p]" "current_process k = Some i"
  shows "kinv k"
proof -
  have st: "processes k ! j = (if i = j then p else zero_process)" if "j < 16" for j
    using that assms(6) by (simp add: nth_upd)
  have l: "length (processes k) = 16" using assms(6) by simp
  have "one_running (processes k) i" "\<not> waits (processes k) q j" "\<not> blocked (processes k) q" for q j
    using assms(1-3) l st by (auto simp: one_running_def waits_def blocked_def zero_process_def split: if_splits)
  moreover have "proc_ok data p" for data
    using assms(2,4)
    by (auto simp: proc_ok_def fd_ok_def std_fds_def fresh_process_def zero_process_def zero_fd_def nth_upd in_set_conv_nth
        split: if_splits)
  ultimately show ?thesis
    using assms(5-7) l set_update_subset_insert [of "replicate 16 zero_process" i p]
    by (auto simp: kinv_def sched_inv_def)
qed

text \<open>The line that reports the size of the archive.\<close>

lemma log_size_ok:
  assumes "serial_fair s" "fmt = lit ''RAMDISK loaded: %llu bytes'' \<or> fmt = lit ''RAMDISK loaded from only module: %llu bytes''"
  shows "\<exists>s'. xbks_log_printf XBKS_LOG_INFO fmt [ArgLong n] s = Some s' \<and> serial_fair s'"
proof -
  have "fits (cstr (lit ''RAMDISK loaded: %llu bytes'')) [KLong]" "fits (cstr (lit ''RAMDISK loaded from only module: %llu bytes'')) [KLong]"
    by code_simp+
  then show ?thesis
    using log_printf_fits [of s fmt "[ArgLong n]" XBKS_LOG_INFO] assms wrote_fair [OF _ assms(1)] by (auto simp: arg_ok_def)
qed

section \<open>The run\<close>

inductive kernel_step :: "kernel \<Rightarrow> kernel \<Rightarrow> bool" where
  syscall: "xbks_syscall_dispatch frame k = Some (Returns v frame' k') \<Longrightarrow> kernel_step k k'"
| user: "kernel_step k (k\<lparr>mm := m, io := d\<rparr>)" \<comment> \<open>programs write their memory, devices change\<close>

inductive reachable :: "module_response \<Rightarrow> kernel \<Rightarrow> kernel \<Rightarrow> bool" for modules k0 where
  start: "xbks_process_start_init modules k0 = Some (EnterUser e st k) \<Longrightarrow> reachable modules k0 k"
| step: "reachable modules k0 k \<Longrightarrow> kernel_step k k' \<Longrightarrow> reachable modules k0 k'"

inductive_cases kernel_stepE: "kernel_step k k'"

lemma step_kinv: "kernel_step k k' \<Longrightarrow> kinv k \<Longrightarrow> kinv k'"
  by (erule kernel_stepE) (use dispatch_kinv in \<open>auto simp: leads_to_kinv_def\<close>)

lemma start_cases:
  assumes "xbks_process_start_init modules k0 = Some (EnterUser e st k)"
  obtains rd fmt io1 i k1 p mm1 k3 where "xbks_ramdisk_init modules = Some (True, rd, fmt)"
    "allocate_process (k0\<lparr>rdisk := rd, io := io1\<rparr>) = (Some i, k1)"
    "load_program rd (lit ''/bin/xsh'') [lit ''xsh''] [lit ''PATH=/bin:/sbin:/usr/bin''] (processes k1 ! i) (mm k1) =
      Some (True, p, mm1)"
    "log_to XBKS_LOG_INFO (lit ''entering ring3 init process /bin/xsh'')
       ((set_process i p (k1\<lparr>mm := mm1\<rparr>))\<lparr>current_process := Some i, io := xbks_keyboard_init (io k1)\<rparr>) = Some k3"
    "k = k3\<lparr>mm := xbks_write_cr3 (proc_cr3 p) (mm k3)\<rparr>"
  using assms
  by (auto simp: xbks_process_start_init_def Let_def getb_eq_Some set_process_def
      split: bind_splits option.splits prod.splits if_splits)

lemma start_kinv:
  assumes "modules_ok modules" "booted k0" "xbks_process_start_init modules k0 = Some (EnterUser e st k)"
  shows "kinv k"
proof -
  obtain rd fmt io1 i k1 p mm1 k3 where r: "xbks_ramdisk_init modules = Some (True, rd, fmt)"
    "allocate_process (k0\<lparr>rdisk := rd, io := io1\<rparr>) = (Some i, k1)"
    "load_program rd (lit ''/bin/xsh'') [lit ''xsh''] [lit ''PATH=/bin:/sbin:/usr/bin''] (processes k1 ! i) (mm k1) =
      Some (True, p, mm1)"
    "log_to XBKS_LOG_INFO (lit ''entering ring3 init process /bin/xsh'')
       ((set_process i p (k1\<lparr>mm := mm1\<rparr>))\<lparr>current_process := Some i, io := xbks_keyboard_init (io k1)\<rparr>) = Some k3"
    "k = k3\<lparr>mm := xbks_write_cr3 (proc_cr3 p) (mm k3)\<rparr>"
    using assms(3) by (rule start_cases)
  note c = allocate_process_Some [OF r(2)]
  have i: "i < 16" "processes k1 = (replicate MAX_PROCESSES zero_process)[i := fresh_process (next_pid k0)]" "rdisk k1 = rd"
    using c assms(2) by (simp_all add: booted_def)
  have "kinv k3"
  proof (rule first_process_inv [OF i(1)])
    show "proc_state p = PROCESS_RUNNING" "vfork_parent p = None" "proc_fds p = proc_fds (fresh_process 0)"
      using load_program_fields [OF r(3)] i by (simp_all add: fresh_process_def zero_process_def)
    show "wf_ramdisk (rdisk k3)" "processes k3 = (replicate MAX_PROCESSES zero_process)[i := p]" "current_process k3 = Some i"
      using r(4) i(2,3) ramdisk_init_wf [OF assms(1) r(1)] by (auto simp: log_to_def set_process_def)
  qed
  then show ?thesis by (simp add: r(5))
qed

lemma reachable_kinv: "reachable modules k0 k \<Longrightarrow> modules_ok modules \<Longrightarrow> booted k0 \<Longrightarrow> kinv k"
  by (induction rule: reachable.induct) (use start_kinv step_kinv in blast)+

section \<open>The first program\<close>

lemma umem_write_cr3 [simp]: "umem (xbks_write_cr3 a s) root va = umem s root va"
  by (simp add: umem_def xbks_write_cr3_def xbks_vmm_translate_def table_get_def page_table_from_entry_def xbks_phys_to_virt_def Let_def)

lemma xbks_write_cr3_cr3 [simp]: "cr3 (xbks_write_cr3 a s) = a"
  by (simp add: xbks_write_cr3_def)

lemma program_ready_write_cr3 [simp]:
  "program_ready data base segs argv envp p (xbks_write_cr3 a s) = program_ready data base segs argv envp p s"
  by (simp add: program_ready_def start_stack_def strings_at_def bytes_at_def)

lemma ramdisk_init_fmt:
  assumes "xbks_ramdisk_init modules = Some (True, rd, fmt)"
  shows "fmt = Some (lit ''RAMDISK loaded: %llu bytes'') \<or> fmt = Some (lit ''RAMDISK loaded from only module: %llu bytes'')"
  using assms by (auto simp: xbks_ramdisk_init_def split: option.splits if_splits bind_splits)

lemma start_enters:
  assumes k: "booted k0" "serial_fair (io k0)"
    and inv: "pmm_inv (mm k0) (f # fs)" "\<forall>g \<in> set fs. g AND ENTRY_ADDRESS = g"
      "kernel_cr3_value (mm k0) \<notin> set (f # fs)" "aligned_page (kernel_cr3_value (mm k0))"
    and disk: "xbks_ramdisk_init modules = Some (True, rd, fmt)"
      "xbks_ramdisk_find rd (Some (lit ''/bin/xsh'')) = Some (Some file)" "loadable (ramdisk_data rd) file base h segs"
    and frames: "seg_frames segs + 64 \<le> length fs"
  shows "\<exists>rsp k. xbks_process_start_init modules k0 = Some (EnterUser (e_entry h) rsp k) \<and>
    current_process k = Some 0 \<and> cr3 (mm k) = f \<and> proc_cr3 (processes k ! 0) = f \<and> proc_stack (processes k ! 0) = rsp \<and>
    program_ready (ramdisk_data rd) base segs [lit ''xsh''] [lit ''PATH=/bin:/sbin:/usr/bin''] (processes k ! 0) (mm k)"
proof -
  let ?argv = "[lit ''xsh'']" and ?envp = "[lit ''PATH=/bin:/sbin:/usr/bin'']" and ?p = "fresh_process (next_pid k0)"
  obtain fm where fm: "fmt = Some fm" "fm = lit ''RAMDISK loaded: %llu bytes'' \<or> fm = lit ''RAMDISK loaded from only module: %llu bytes''"
    using ramdisk_init_fmt [OF disk(1)] by auto
  obtain io1 where io1: "xbks_log_printf XBKS_LOG_INFO fm [ArgLong (ramdisk_size rd)] (io k0) = Some io1" "serial_fair io1"
    using log_size_ok [OF k(2) fm(2)] by blast
  let ?k = "k0\<lparr>rdisk := rd, io := io1\<rparr>"
  let ?k1 = "?k\<lparr>processes := (replicate MAX_PROCESSES zero_process)[0 := ?p], next_pid := next_pid k0 + 1\<rparr>"
  have "find_index (\<lambda>p. proc_state p = PROCESS_UNUSED) (processes ?k) 0 = Some 0"
    using k(1) by (simp add: booted_def zero_process_def eval_nat_numeral)
  then have a: "allocate_process ?k = (Some 0, ?k1)" using k(1) by (simp add: allocate_process_def booted_def)
  have g: "getb (processes ?k1) 0 = Some ?p" by simp
  have args: "arg_list ?argv" "arg_list ?envp" by (simp_all add: arg_list_def lit_def terminated_def)
  obtain rsp m fs' where l: "load_program rd (lit ''/bin/xsh'') ?argv ?envp ?p (mm k0) =
        Some (True, ?p\<lparr>proc_cr3 := f, proc_entry := e_entry h, proc_stack := rsp, proc_brk := 0x800000\<rparr>, m)"
      "program_ready (ramdisk_data rd) base segs ?argv ?envp (?p\<lparr>proc_cr3 := f, proc_stack := rsp\<rparr>) m"
    using load_program_spec [OF inv disk(2,3) frames args] by blast
  let ?q = "?p\<lparr>proc_cr3 := f, proc_entry := e_entry h, proc_stack := rsp, proc_brk := 0x800000\<rparr>"
  let ?k2 = "(set_process 0 ?q (?k1\<lparr>mm := m\<rparr>))\<lparr>current_process := Some 0, io := xbks_keyboard_init io1\<rparr>"
  have "serial_fair (io ?k2)" using io1(2) by (simp add: serial_fair_def xbks_keyboard_init_def)
  then obtain io3 where io3: "xbks_log_write XBKS_LOG_INFO (lit ''entering ring3 init process /bin/xsh'') (io ?k2) = Some io3"
    using log_write_ok lit_terminated by blast
  let ?k3 = "?k2\<lparr>io := io3\<rparr>"
  have run: "xbks_process_start_init modules k0 = Some (EnterUser (e_entry h) rsp (?k3\<lparr>mm := xbks_write_cr3 f (mm ?k3)\<rparr>))"
    using disk(1) fm(1) io1(1) a g l(1) io3
    by (simp add: xbks_process_start_init_def Let_def log_to_def set_process_def)
  have "program_ready (ramdisk_data rd) base segs ?argv ?envp ?q m" using l(2) by (simp add: program_ready_def)
  moreover have "processes ?k3 ! 0 = ?q" "mm ?k3 = m" "current_process ?k3 = Some 0" by (simp_all add: set_process_def)
  ultimately show ?thesis
    using run by (intro exI [of _ rsp] exI [of _ "?k3\<lparr>mm := xbks_write_cr3 f (mm ?k3)\<rparr>"]) simp
qed

end
