(* ===== verification/Syscall_Entry.thy ===== *)
theory Syscall_Entry
  imports Arch Kernel_Run
begin

text \<open>
  The ways between user mode and the kernel: \<^verbatim>\<open>arch/x86_64/syscall_entry.S\<close> saves the registers of the program on the kernel stack, where the
  C code sees them as a \<^verbatim>\<open>struct xbks_syscall_frame\<close>, calls \<^verbatim>\<open>xbks_syscall_dispatch\<close> and restores what the frame
  holds then; \<^verbatim>\<open>user_entry.S\<close> starts the first program. \<^verbatim>\<open>syscall\<close> and \<^verbatim>\<open>sysret\<close> are as the manual of the
  processor has them.
\<close>

section \<open>Registers and instructions\<close>

record user_regs =
  g_rax :: u64
  g_rbx :: u64
  g_rcx :: u64
  g_rdx :: u64
  g_rsi :: u64
  g_rdi :: u64
  g_rbp :: u64
  g_r8 :: u64
  g_r9 :: u64
  g_r10 :: u64
  g_r11 :: u64
  g_r12 :: u64
  g_r13 :: u64
  g_r14 :: u64
  g_r15 :: u64
  g_rsp :: u64
  g_rip :: u64
  g_rflags :: u64

text \<open>\<open>g_rip\<close> is the address of the instruction behind the \<^verbatim>\<open>syscall\<close>.\<close>

definition syscall_insn :: "cpu_state \<Rightarrow> user_regs \<Rightarrow> user_regs" where
  "syscall_insn c r = r\<lparr>g_rcx := g_rip r, g_r11 := g_rflags r, g_rip := msr c XBKS_MSR_LSTAR,
     g_rflags := g_rflags r AND NOT (msr c XBKS_MSR_FMASK)\<rparr>"

definition RFLAGS_RESTORED :: u64 where "RFLAGS_RESTORED = 0x3c7fd7"

definition sysret_insn :: "user_regs \<Rightarrow> user_regs" where
  "sysret_insn r = r\<lparr>g_rip := g_rcx r, g_rflags := (g_r11 r AND RFLAGS_RESTORED) OR 2\<rparr>"

section \<open>The entry\<close>

text \<open>The pushes; the head of the list is the word that the stack pointer points to.\<close>

definition save_registers :: "user_regs \<Rightarrow> u64 list" where
  "save_registers r = fold (#) [g_rsp r, g_rcx r, g_r11 r, g_rax r, g_rbx r, g_rcx r, g_rdx r, g_rsi r, g_rdi r,
     g_rbp r, g_r8 r, g_r9 r, g_r10 r, g_r11 r, g_r12 r, g_r13 r, g_r14 r, g_r15 r] []"

text \<open>The words as the fields of \<^verbatim>\<open>struct xbks_syscall_frame\<close>, and back.\<close>

definition frame_at :: "u64 list \<Rightarrow> xbks_syscall_frame" where
  "frame_at ws = \<lparr>r15 = ws ! 0, r14 = ws ! 1, r13 = ws ! 2, r12 = ws ! 3, r11 = ws ! 4, r10 = ws ! 5, r9 = ws ! 6, r8 = ws ! 7,
     rbp = ws ! 8, rdi = ws ! 9, rsi = ws ! 10, rdx = ws ! 11, rcx = ws ! 12, rbx = ws ! 13, rax = ws ! 14,
     user_rflags = ws ! 15, user_rip = ws ! 16, user_rsp = ws ! 17\<rparr>"

definition frame_words :: "xbks_syscall_frame \<Rightarrow> u64 list" where
  "frame_words f = [r15 f, r14 f, r13 f, r12 f, r11 f, r10 f, r9 f, r8 f, rbp f, rdi f, rsi f, rdx f, rcx f, rbx f, rax f,
     user_rflags f, user_rip f, user_rsp f]"

text \<open>The pops, in order: \<^verbatim>\<open>r11\<close> and \<^verbatim>\<open>rcx\<close> are popped twice.\<close>

definition restore_registers :: "u64 list \<Rightarrow> user_regs \<Rightarrow> user_regs" where
  "restore_registers ws r = r
     \<lparr>g_r15 := ws ! 0, g_r14 := ws ! 1, g_r13 := ws ! 2, g_r12 := ws ! 3, g_r11 := ws ! 4, g_r10 := ws ! 5, g_r9 := ws ! 6,
      g_r8 := ws ! 7, g_rbp := ws ! 8, g_rdi := ws ! 9, g_rsi := ws ! 10, g_rdx := ws ! 11, g_rcx := ws ! 12,
      g_rbx := ws ! 13, g_rax := ws ! 14\<rparr>
     \<lparr>g_r11 := ws ! 15, g_rcx := ws ! 16, g_rsp := ws ! 17\<rparr>"

datatype trap_result = Resumed user_regs kernel | Stopped kernel

text \<open>\<^verbatim>\<open>movq %rax, 112(%rsp)\<close> stores the result of the C function over word 14.\<close>

definition xbks_x86_64_syscall_entry :: "user_regs \<Rightarrow> kernel \<Rightarrow> trap_result option" where
  "xbks_x86_64_syscall_entry r k = do {
     result \<leftarrow> xbks_syscall_dispatch (frame_at (save_registers r)) k;
     case result of
       Halts k' \<Rightarrow> Some (Stopped k')
     | Returns v frame k' \<Rightarrow> Some (Resumed (sysret_insn (restore_registers ((frame_words frame)[14 := v]) r)) k') }"

definition xbks_x86_64_enter_user :: "u64 \<Rightarrow> u64 \<Rightarrow> user_regs" where
  "xbks_x86_64_enter_user entry_point stack = sysret_insn \<lparr>g_rax = 0, g_rbx = 0, g_rcx = entry_point, g_rdx = 0, g_rsi = 0, g_rdi = 0, g_rbp = 0,
     g_r8 = 0, g_r9 = 0, g_r10 = 0, g_r11 = 0x202, g_r12 = 0, g_r13 = 0, g_r14 = 0, g_r15 = 0, g_rsp = stack,
     g_rip = 0, g_rflags = 0\<rparr>"

text \<open>A program that executes \<^verbatim>\<open>syscall\<close>.\<close>

definition user_syscall :: "cpu_state \<Rightarrow> user_regs \<Rightarrow> kernel \<Rightarrow> trap_result option" where
  "user_syscall c r k = xbks_x86_64_syscall_entry (syscall_insn c r) k"

section \<open>Registers across a call\<close>

text \<open>The frame of a program: its registers under their names, and where and how it goes on.\<close>

definition frame_of :: "user_regs \<Rightarrow> xbks_syscall_frame" where
  "frame_of r = \<lparr>r15 = g_r15 r, r14 = g_r14 r, r13 = g_r13 r, r12 = g_r12 r, r11 = g_rflags r, r10 = g_r10 r, r9 = g_r9 r, r8 = g_r8 r,
     rbp = g_rbp r, rdi = g_rdi r, rsi = g_rsi r, rdx = g_rdx r, rcx = g_rip r, rbx = g_rbx r, rax = g_rax r,
     user_rflags = g_rflags r, user_rip = g_rip r, user_rsp = g_rsp r\<rparr>"

text \<open>What a program sees of a system call that returns \<open>v\<close>: all else is as it was.\<close>

definition after_call :: "u64 \<Rightarrow> user_regs \<Rightarrow> user_regs" where
  "after_call v r = r\<lparr>g_rax := v, g_rcx := g_rip r, g_r11 := g_rflags r, g_rflags := (g_rflags r AND RFLAGS_RESTORED) OR 2\<rparr>"

lemma frame_of_syscall: "frame_at (save_registers (syscall_insn c r)) = frame_of r"
  by (simp add: frame_at_def save_registers_def syscall_insn_def frame_of_def eval_nat_numeral)

lemma frame_words_upd:
  "(frame_words f)[14 := v] = frame_words (f\<lparr>rax := v\<rparr>)"
  by (simp add: frame_words_def eval_nat_numeral)

lemma restore_frame_of:
  "sysret_insn (restore_registers (frame_words ((frame_of r)\<lparr>rax := v\<rparr>)) r') = after_call v r"
  by (simp add: sysret_insn_def restore_registers_def frame_words_def frame_of_def after_call_def eval_nat_numeral)

lemma user_syscall_returns:
  assumes "xbks_syscall_dispatch (frame_of r) k = Some (Returns v ((frame_of r')\<lparr>rax := w\<rparr>) k')"
  shows "user_syscall c r k = Some (Resumed (after_call v r') k')"
proof -
  have "(frame_words ((frame_of r')\<lparr>rax := w\<rparr>))[14 := v] = frame_words ((frame_of r')\<lparr>rax := v\<rparr>)"
    by (simp add: frame_words_upd)
  then show ?thesis
    using assms by (simp add: user_syscall_def xbks_x86_64_syscall_entry_def frame_of_syscall restore_frame_of)
qed

lemma frame_of_rax [simp]: "(frame_of r)\<lparr>rax := g_rax r\<rparr> = frame_of r" "rax (frame_of r) = g_rax r" "rdi (frame_of r) = g_rdi r"
    "rsi (frame_of r) = g_rsi r" "rdx (frame_of r) = g_rdx r"
  by (simp_all add: frame_of_def)

text \<open>The calls that leave the frame alone: all but \<^verbatim>\<open>execve\<close> and \<^verbatim>\<open>exit\<close>.\<close>

lemma dispatch_keeps_frame:
  assumes "xbks_syscall_dispatch frame k = Some (Returns v frame' k')" "rax frame \<notin> {59, 60, 231}"
  shows "frame' = frame"
  using assms
  by (auto simp: xbks_syscall_dispatch_def xbks_process_syscall_dispatch_def returns_def Let_def split: if_splits bind_splits)

lemma ordinary_call_returns:
  assumes "xbks_syscall_dispatch (frame_of r) k = Some (Returns v frame' k')" "g_rax r \<notin> {59, 60, 231}"
  shows "user_syscall c r k = Some (Resumed (after_call v r) k')"
  using user_syscall_returns [where r = r and r' = r and k = k and v = v and w = "g_rax r" and k' = k' and c = c] dispatch_keeps_frame [OF assms(1)] assms by simp

lemma vfork_then_exit:
  assumes k: "kinv k" and i: "current_process k = Some i" and r: "g_rax r = 58" "syscall_vfork (frame_of r) k = Some (0, k1)"
    and r2: "g_rax r2 = 60"
  shows "user_syscall c r k = Some (Resumed (after_call 0 r) k1) \<and>
    (\<exists>k2. user_syscall c r2 (k1\<lparr>mm := m, io := d\<rparr>) = Some (Resumed (after_call (scast (next_pid k)) r) k2) \<and>
      current_process k2 = Some i \<and> processes k2 ! i = processes k ! i \<and> cr3 (mm k2) = proc_cr3 (processes k ! i))"
proof
  have disp: "xbks_syscall_dispatch (frame_of r) k = Some (Returns 0 (frame_of r) k1)"
    using r by (simp add: xbks_syscall_dispatch_def xbks_process_syscall_dispatch_def returns_def)
  then show "user_syscall c r k = Some (Resumed (after_call 0 r) k1)" by (rule ordinary_call_returns) (simp add: r)
  let ?ps = "processes k"
  obtain ch root m1 where ch: "ch < length ?ps" "proc_state (?ps ! ch) = PROCESS_UNUSED" "i \<noteq> ch"
      "k1 = k\<lparr>processes := ?ps[ch := vfork_child i (?ps ! i) (next_pid k) root (frame_of r),
           i := (?ps ! i)\<lparr>proc_state := PROCESS_BLOCKED\<rparr>], next_pid := next_pid k + 1, current_process := Some ch,
           mm := xbks_write_cr3 root m1\<rparr>"
    using vfork_outcome [OF k i r(2)] by (auto simp: negative_errno_def)
  have ii: "i < length ?ps" "proc_state (?ps ! i) = PROCESS_RUNNING"
    using k i by (auto elim!: kinvE simp: sched_inv_def one_running_def)
  let ?k1 = "k1\<lparr>mm := m, io := d\<rparr>"
  have k1: "kinv ?k1" using dispatch_kinv [OF k] disp step_kinv [OF kernel_step.user] step_kinv [OF kernel_step.syscall [OF disp] k]
    by blast
  have cur: "current_process ?k1 = Some ch" "processes ?k1 ! ch = vfork_child i (?ps ! i) (next_pid k) root (frame_of r)"
      "processes ?k1 ! i = (?ps ! i)\<lparr>proc_state := PROCESS_BLOCKED\<rparr>" "length (processes ?k1) = length ?ps"
    using ch ii by (simp_all add: nth_upd)
  have vp: "vfork_parent (processes ?k1 ! ch) = Some i" unfolding cur(2) by simp
  note ex = exit_resumes(4) [OF k1 cur(1) vp, of "frame_of r2" "g_rdi r2"]
  have fr: "(saved_parent_frame (processes ?k1 ! ch))\<lparr>rax := scast (next_pid k)\<rparr> = (frame_of r)\<lparr>rax := scast (next_pid k)\<rparr>"
    unfolding cur(2) by simp
  let ?k2 = "?k1\<lparr>processes := (processes ?k1)[ch := exited (g_rdi r2) (processes ?k1 ! ch),
      i := (processes ?k1 ! i)\<lparr>proc_state := PROCESS_RUNNING\<rparr>], current_process := Some i,
      mm := xbks_write_cr3 (proc_cr3 (processes ?k1 ! i)) (mm ?k1)\<rparr>"
  have "xbks_syscall_dispatch (frame_of r2) ?k1 = Some (Returns (scast (next_pid k)) ((frame_of r)\<lparr>rax := scast (next_pid k)\<rparr>) ?k2)"
    using ex fr r2 unfolding cur(2) by (simp add: xbks_syscall_dispatch_def xbks_process_syscall_dispatch_def)
  then have "user_syscall c r2 ?k1 = Some (Resumed (after_call (scast (next_pid k)) r) ?k2)" by (rule user_syscall_returns)
  moreover have "processes ?k2 ! i = ?ps ! i" using ii ch cur by (simp add: nth_upd)
  moreover have "cr3 (mm ?k2) = proc_cr3 (?ps ! i)" using cur(3) by simp
  ultimately show "\<exists>k2. user_syscall c r2 ?k1 = Some (Resumed (after_call (scast (next_pid k)) r) k2) \<and>
      current_process k2 = Some i \<and> processes k2 ! i = ?ps ! i \<and> cr3 (mm k2) = proc_cr3 (?ps ! i)"
    by (intro exI [of _ ?k2]) simp
qed

lemma execve_enters:
  assumes "xbks_syscall_dispatch (frame_of r) k = Some (Returns 0 ((frame_of r)\<lparr>user_rip := e, user_rsp := st\<rparr>) k')"
  shows "\<exists>r'. user_syscall c r k = Some (Resumed r' k') \<and> g_rip r' = e \<and> g_rsp r' = st \<and> g_rax r' = 0"
  using assms
  by (simp add: user_syscall_def xbks_x86_64_syscall_entry_def frame_of_syscall sysret_insn_def restore_registers_def
      frame_words_def eval_nat_numeral)

end
