(* ===== verification/Shell.thy ===== *)
theory Shell
  imports Boot_Memory
begin

text \<open>
  The kernel shell, \<^verbatim>\<open>kernel/shell.c\<close>: a line editor over a buffer of 128 characters and five commands. The reset of the machine ends it;
  nothing else does, so that \<^verbatim>\<open>xbks_shell_run\<close> is a partial function whose only result is the state at the reset.
\<close>

section \<open>Commands\<close>

datatype shell_handler = COMMAND_HELP | COMMAND_INFO | COMMAND_MEMMAP | COMMAND_CLEAR | COMMAND_REBOOT

record shell_command =
  cmd_name :: "u8 list"
  cmd_summary :: "u8 list"
  cmd_handler :: shell_handler

definition commands :: "shell_command list" where
  "commands =
     [\<lparr>cmd_name = lit ''help'', cmd_summary = lit ''list built-in commands'', cmd_handler = COMMAND_HELP\<rparr>,
      \<lparr>cmd_name = lit ''info'', cmd_summary = lit ''print boot protocol state'', cmd_handler = COMMAND_INFO\<rparr>,
      \<lparr>cmd_name = lit ''memmap'', cmd_summary = lit ''print memory map summary'', cmd_handler = COMMAND_MEMMAP\<rparr>,
      \<lparr>cmd_name = lit ''clear'', cmd_summary = lit ''clear the terminal'', cmd_handler = COMMAND_CLEAR\<rparr>,
      \<lparr>cmd_name = lit ''reboot'', cmd_summary = lit ''reset through the PS/2 controller'', cmd_handler = COMMAND_REBOOT\<rparr>]"

definition write_prompt :: "io_state \<Rightarrow> io_state option" where
  "write_prompt d = xbks_console_write_string (lit ''xbks> '') d"

fun help_loop :: "shell_command list \<Rightarrow> io_state \<Rightarrow> io_state option" where
  "help_loop [] d = Some d"
| "help_loop (c # cs) d = do {
     d1 \<leftarrow> xbks_console_write_string (lit ''  '') d;
     d2 \<leftarrow> xbks_console_write_string (cmd_name c) d1;
     d3 \<leftarrow> xbks_console_write_string (lit '' - '') d2;
     d4 \<leftarrow> xbks_console_write_string (cmd_summary c) d3;
     d5 \<leftarrow> xbks_console_write_string [10, 0] d4;
     help_loop cs d5 }"

definition command_help :: "io_state \<Rightarrow> io_state option" where
  "command_help d = do {
     d1 \<leftarrow> xbks_console_write_string (map chr ''built-in commands:'' @ [10, 0]) d;
     help_loop commands d1 }"

definition command_info :: "xbks_boot_info \<Rightarrow> io_state \<Rightarrow> io_state option" where
  "command_info boot_info d = do {
     let (name, version) = (case bi_bootloader boot_info of
         None \<Rightarrow> (Some (lit ''(unknown)''), Some (lit ''(unknown)''))
       | Some b \<Rightarrow> (bootloader_name b, bootloader_version b));
     let cmdline = (case bi_cmdline boot_info of Some (Some text) \<Rightarrow> text | _ \<Rightarrow> lit '''');
     d1 \<leftarrow> xbks_log_printf XBKS_LOG_INFO (lit ''bootloader: %s %s'') [ArgStr name, ArgStr version] d;
     xbks_log_printf XBKS_LOG_INFO (lit ''cmdline: %s'') [ArgStr (Some cmdline)] d1 }"

definition command_memmap :: "xbks_boot_info \<Rightarrow> io_state \<Rightarrow> io_state option" where
  "command_memmap boot_info d =
     (case bi_memmap boot_info of
        None \<Rightarrow> xbks_console_write_string (map chr ''memory map unavailable'' @ [10, 0]) d
      | Some entries \<Rightarrow> xbks_log_printf XBKS_LOG_INFO (lit ''memory map has %llu entries'') [ArgLong (of_nat (length entries))] d)"

definition command_clear :: "io_state \<Rightarrow> io_state option" where
  "command_clear d = xbks_console_write_string ([0x1b] @ map chr ''[2J'' @ [0x1b] @ lit ''[H'') d"

partial_function (option) ps2_wait :: "io_state \<Rightarrow> io_state option" where
  "ps2_wait d = (case xbks_inb 0x64 d of (status, d') \<Rightarrow> if status AND 0x02 \<noteq> 0 then ps2_wait d' else Some d')"

declare ps2_wait.simps [code]

text \<open>The devices when \<^verbatim>\<open>command_reboot\<close> enters its final \<^verbatim>\<open>hlt\<close> loop.\<close>

definition command_reboot :: "io_state \<Rightarrow> io_state option" where
  "command_reboot d = do {
     d1 \<leftarrow> xbks_console_write_string (map chr ''rebooting...'' @ [10, 0]) d;
     d2 \<leftarrow> ps2_wait d1;
     Some (xbks_outb 0x64 0xfe d2) }"

datatype command_result = Continues io_state | Resets io_state

definition call_handler :: "shell_handler \<Rightarrow> xbks_boot_info \<Rightarrow> io_state \<Rightarrow> command_result option" where
  "call_handler h boot_info d =
     (case h of
        COMMAND_HELP \<Rightarrow> map_option Continues (command_help d)
      | COMMAND_INFO \<Rightarrow> map_option Continues (command_info boot_info d)
      | COMMAND_MEMMAP \<Rightarrow> map_option Continues (command_memmap boot_info d)
      | COMMAND_CLEAR \<Rightarrow> map_option Continues (command_clear d)
      | COMMAND_REBOOT \<Rightarrow> map_option Resets (command_reboot d))"

fun find_command :: "u8 list \<Rightarrow> shell_command list \<Rightarrow> shell_command option option" where
  "find_command name [] = Some None"
| "find_command name (c # cs) = do {
     r \<leftarrow> strcmp name (cmd_name c);
     if r = 0 then Some (Some c) else find_command name cs }"

definition run_command :: "u8 list \<Rightarrow> xbks_boot_info \<Rightarrow> io_state \<Rightarrow> command_result option" where
  "run_command name boot_info d = do {
     first \<leftarrow> getb name 0;
     if first = 0 then Some (Continues d)
     else do {
       found \<leftarrow> find_command name commands;
       case found of
         Some c \<Rightarrow> call_handler (cmd_handler c) boot_info d
       | None \<Rightarrow> do {
           d1 \<leftarrow> xbks_console_write_string (lit ''unknown command: '') d;
           d2 \<leftarrow> xbks_console_write_string name d1;
           d3 \<leftarrow> xbks_console_write_string [10, 0] d2;
           Some (Continues d3) } } }"

section \<open>The line editor\<close>

datatype shell_next =
  Next "u8 list" nat io_state \<comment> \<open>\<^verbatim>\<open>line\<close> and \<^verbatim>\<open>line_length\<close>\<close>
| Reset io_state

text \<open>The body of the loop for one character.\<close>

definition shell_char :: "xbks_boot_info \<Rightarrow> u8 \<Rightarrow> u8 list \<Rightarrow> nat \<Rightarrow> io_state \<Rightarrow> shell_next option" where
  "shell_char boot_info ch line line_length d =
     (if ch = 10 then do {
        d1 \<leftarrow> xbks_console_write_string [10, 0] d;
        line' \<leftarrow> setb line line_length 0;
        result \<leftarrow> run_command line' boot_info d1;
        case result of
          Resets d2 \<Rightarrow> Some (Reset d2)
        | Continues d2 \<Rightarrow> do {
            d3 \<leftarrow> write_prompt d2;
            Some (Next line' 0 d3) } }
      else if ch = 8 then
        if line_length \<noteq> 0 then do {
          d1 \<leftarrow> xbks_console_write_string [8, 32, 8, 0] d;
          Some (Next line (line_length - 1) d1) }
        else Some (Next line line_length d)
      else if ch \<ge> 32 \<and> ch \<le> 126 \<and> line_length + 1 < 128 then do {
        line' \<leftarrow> setb line line_length ch;
        d1 \<leftarrow> xbks_console_write [ch] d;
        Some (Next line' (line_length + 1) d1) }
      else Some (Next line line_length d))"

partial_function (option) shell_loop :: "xbks_boot_info \<Rightarrow> u8 list \<Rightarrow> nat \<Rightarrow> io_state \<Rightarrow> io_state option" where
  "shell_loop boot_info line line_length d =
     Option.bind (xbks_keyboard_read_char_blocking d) (\<lambda>(ch, d1).
     Option.bind (shell_char boot_info ch line line_length d1) (\<lambda>r. case r of
       Next line' n d2 \<Rightarrow> shell_loop boot_info line' n d2
     | Reset d2 \<Rightarrow> Some d2))"

declare shell_loop.simps [code]

text \<open>\<open>line\<close> is the uninitialised buffer.\<close>

definition xbks_shell_run :: "xbks_boot_info \<Rightarrow> u8 list \<Rightarrow> io_state \<Rightarrow> io_state option" where
  "xbks_shell_run boot_info line d = do {
     d1 \<leftarrow> xbks_console_write_string ([10] @ map chr ''xbks early shell'' @ [10, 0]) (xbks_keyboard_init d);
     d2 \<leftarrow> xbks_console_write_string (map chr ''type '' @ [39] @ map chr ''help'' @ [39] @ map chr '' for commands'' @ [10, 0]) d1;
     d3 \<leftarrow> write_prompt d2;
     shell_loop boot_info line 0 d3 }"

section \<open>What the shell is to do\<close>

definition help_line :: "shell_command \<Rightarrow> u8 list" where
  "help_line c = map chr ''  '' @ cstr (cmd_name c) @ map chr '' - '' @ cstr (cmd_summary c) @ [10]"

definition help_text :: "u8 list" where
  "help_text = map chr ''built-in commands:'' @ [10] @ concat (map help_line commands)"

definition info_text :: "xbks_boot_info \<Rightarrow> u8 list" where
  "info_text boot_info =
     (let (name, version) = (case bi_bootloader boot_info of
            None \<Rightarrow> (map chr ''(unknown)'', map chr ''(unknown)'')
          | Some b \<Rightarrow> (str_text (bootloader_name b), str_text (bootloader_version b)));
          cmdline = (case bi_cmdline boot_info of Some (Some text) \<Rightarrow> cstr text | _ \<Rightarrow> [])
      in log_text XBKS_LOG_INFO (take 511 (map chr ''bootloader: '' @ name @ [32] @ version)) @
         log_text XBKS_LOG_INFO (take 511 (map chr ''cmdline: '' @ cmdline)))"

definition memmap_text :: "xbks_boot_info \<Rightarrow> u8 list" where
  "memmap_text boot_info =
     (case bi_memmap boot_info of
        None \<Rightarrow> map chr ''memory map unavailable'' @ [10]
      | Some entries \<Rightarrow> log_text XBKS_LOG_INFO (take 511 (map chr ''memory map has '' @
          num_text False 10 (unat (of_nat (length entries) :: u64)) @ map chr '' entries'')))"

definition clear_text :: "u8 list" where
  "clear_text = [0x1b] @ map chr ''[2J'' @ [0x1b] @ map chr ''[H''"

definition command_text :: "xbks_boot_info \<Rightarrow> u8 list \<Rightarrow> u8 list" where
  "command_text boot_info line =
     (if line = [] then []
      else if line = map chr ''help'' then help_text
      else if line = map chr ''info'' then info_text boot_info
      else if line = map chr ''memmap'' then memmap_text boot_info
      else if line = map chr ''clear'' then clear_text
      else map chr ''unknown command: '' @ line @ [10])"

definition prompt :: "u8 list" where "prompt = map chr ''xbks> ''"

text \<open>The line behind one character, and what the console shows for it.\<close>

definition edit :: "u8 \<Rightarrow> u8 list \<Rightarrow> u8 list" where
  "edit ch line =
     (if ch = 10 then [] else if ch = 8 then butlast line
      else if ch \<ge> 32 \<and> ch \<le> 126 \<and> length line < 127 then line @ [ch] else line)"

definition char_text :: "xbks_boot_info \<Rightarrow> u8 \<Rightarrow> u8 list \<Rightarrow> u8 list" where
  "char_text boot_info ch line =
     (if ch = 10 then [10] @ command_text boot_info line @ prompt
      else if ch = 8 then (if line = [] then [] else [8, 32, 8])
      else if ch \<ge> 32 \<and> ch \<le> 126 \<and> length line < 127 then [ch] else [])"

fun session_text :: "xbks_boot_info \<Rightarrow> u8 list \<Rightarrow> u8 list \<Rightarrow> u8 list" where
  "session_text boot_info line [] = []"
| "session_text boot_info line (c # cs) = char_text boot_info c line @ session_text boot_info (edit c line) cs"

definition boot_strings_ok :: "xbks_boot_info \<Rightarrow> bool" where
  "boot_strings_ok boot_info \<longleftrightarrow>
     (\<forall>b. bi_bootloader boot_info = Some b \<longrightarrow> pred_option terminated (bootloader_name b) \<and> pred_option terminated (bootloader_version b)) \<and>
     (\<forall>text. bi_cmdline boot_info = Some (Some text) \<longrightarrow> terminated text)"

section \<open>Commands\<close>

lemma chr_nonzero [simp]: "chr c = 0 \<longleftrightarrow> c = CHR 0x00"
proof
  assume "chr c = 0"
  then have "256 dvd (of_char c :: nat)" by (simp add: chr_def word_of_nat_eq_0_iff)
  moreover have "(of_char c :: nat) < 256" by (rule nat_of_char_less_256)
  ultimately have "of_char c = (0 :: nat)" using nat_dvd_not_less by blast
  then have "c = char_of (0 :: nat)" by (metis char_of_char)
  then show "c = CHR 0x00" by (simp add: char_of_def)
qed (simp add: chr_def)

lemma cstr_Cons [simp]: "cstr [] = []" "cstr (c # t) = (if c = 0 then [] else c # cstr t)"
  by (simp_all add: cstr_def)

lemma cstr_lit: "CHR 0x00 \<notin> set t \<Longrightarrow> cstr (lit t) = map chr t"
  by (auto simp: lit_def chr_def [symmetric] image_iff)

lemma session_text_snoc:
  "session_text boot_info line (cs @ [c]) = session_text boot_info line cs @ char_text boot_info c (fold edit cs line)"
  by (induction cs arbitrary: line) auto

lemma ends_line [simp]: "terminated (t @ [10, 0])" "terminated [10, 0]"
  by (simp_all add: terminated_def)

lemma help_loop_says:
  "serial_fair d \<Longrightarrow> \<forall>c \<in> set cs. terminated (cmd_name c) \<and> terminated (cmd_summary c) \<Longrightarrow>
   runs (wrote d (concat (map help_line cs))) (help_loop cs d)"
proof (induction cs arbitrary: d)
  case (Cons c cs)
  have t: "terminated (cmd_name c)" "terminated (cmd_summary c)" "\<forall>c \<in> set cs. terminated (cmd_name c) \<and> terminated (cmd_summary c)"
    using Cons.prems(2) by simp_all
  show ?case
    unfolding help_loop.simps
    by (rule runs_wrote_eq, (rule says_intros Cons.IH t Cons.prems(1) ends_line lit_terminated | assumption)+)
      (simp add: help_line_def cstr_lit)
qed simp

lemma commands_terminated: "\<forall>c \<in> set commands. terminated (cmd_name c) \<and> terminated (cmd_summary c)"
  by (simp add: commands_def)

lemma command_help_says: "serial_fair d \<Longrightarrow> runs (wrote d help_text) (command_help d)"
  unfolding command_help_def
  by (rule runs_wrote_eq, (rule says_intros help_loop_says commands_terminated ends_line | assumption)+)
    (simp add: help_text_def)

lemma command_clear_says: "serial_fair d \<Longrightarrow> runs (wrote d clear_text) (command_clear d)"
proof -
  let ?t = "[0x1b] @ map chr ''[2J'' @ [0x1b] @ lit ''[H''"
  have "terminated ?t" "cstr ?t = clear_text" by code_simp+
  then show "serial_fair d \<Longrightarrow> runs (wrote d clear_text) (command_clear d)"
    using console_write_string_says [of d ?t] by (simp add: command_clear_def)
qed

lemma str_text_no_nul: "pred_option terminated t \<Longrightarrow> 0 \<notin> set (str_text t)"
  by (auto simp: str_text_def split: option.splits)

lemma info_formats:
  "format_text (cstr (lit ''bootloader: %s %s'')) [ArgStr a, ArgStr b] = Some (map chr ''bootloader: '' @ str_text a @ [32] @ str_text b)"
  "format_text (cstr (lit ''cmdline: %s'')) [ArgStr a] = Some (map chr ''cmdline: '' @ str_text a)"
  "format_text (cstr (lit ''memory map has %llu entries'')) [ArgLong n] =
     Some (map chr ''memory map has '' @ num_text False 10 (unat n) @ map chr '' entries'')"
  by (simp_all add: cstr_lit format_text.simps chr_def conv_text_def va_unsigned_def)

lemma command_info_says:
  assumes "serial_fair d" "boot_strings_ok boot_info"
  shows "runs (wrote d (info_text boot_info)) (command_info boot_info d)"
proof -
  obtain name version where nv: "(case bi_bootloader boot_info of
         None \<Rightarrow> (Some (lit ''(unknown)''), Some (lit ''(unknown)''))
       | Some b \<Rightarrow> (bootloader_name b, bootloader_version b)) = (name, version)" by fastforce
  define cmdline where "cmdline = (case bi_cmdline boot_info of Some (Some text) \<Rightarrow> text | _ \<Rightarrow> lit '''')"
  have ok: "pred_option terminated name" "pred_option terminated version" "terminated cmdline"
    using assms(2) nv by (auto simp: boot_strings_ok_def cmdline_def split: option.splits)
  have n: "0 \<notin> set (str_text name)" "0 \<notin> set (str_text version)" "0 \<notin> set (str_text (Some cmdline))"
    using ok by (simp_all add: str_text_no_nul)
  have unknown: "str_text (Some (lit ''(unknown)'')) = map chr ''(unknown)''" by (simp add: str_text_def cstr_lit)
  have t: "info_text boot_info = log_text XBKS_LOG_INFO (take 511 (map chr ''bootloader: '' @ str_text name @ [32] @ str_text version)) @
      log_text XBKS_LOG_INFO (take 511 (map chr ''cmdline: '' @ str_text (Some cmdline)))"
    using nv unknown by (auto simp: info_text_def cmdline_def str_text_def cstr_lit split: option.splits)
  have args: "list_all arg_ok [ArgStr name, ArgStr version]" "list_all arg_ok [ArgStr (Some cmdline)]"
    using ok by (auto simp: arg_ok_def split: option.splits)
  have "runs (wrote d (log_text XBKS_LOG_INFO (take 511 (map chr ''bootloader: '' @ str_text name @ [32] @ str_text version))))
      (xbks_log_printf XBKS_LOG_INFO (lit ''bootloader: %s %s'') [ArgStr name, ArgStr version] d)"
    using n(1,2) by (intro log_printf_says assms(1) args(1) info_formats(1) lit_terminated) (simp add: image_iff)
  moreover have "runs (wrote d' (log_text XBKS_LOG_INFO (take 511 (map chr ''cmdline: '' @ str_text (Some cmdline)))))
      (xbks_log_printf XBKS_LOG_INFO (lit ''cmdline: %s'') [ArgStr (Some cmdline)] d')" if "serial_fair d'" for d'
    using n(3) that by (intro log_printf_says args(2) info_formats(2) lit_terminated) (simp_all add: image_iff)
  ultimately show ?thesis
    unfolding t command_info_def nv Let_def cmdline_def [symmetric] using says_bind [OF _ assms(1)] by simp
qed

lemma command_memmap_says:
  assumes "serial_fair d"
  shows "runs (wrote d (memmap_text boot_info)) (command_memmap boot_info d)"
proof (cases "bi_memmap boot_info")
  case None
  then show ?thesis
    using console_write_string_says [OF assms ends_line(1), of "map chr ''memory map unavailable''"]
    by (simp add: command_memmap_def memmap_text_def)
next
  case (Some es)
  let ?n = "of_nat (length es) :: u64"
  have "runs (wrote d (log_text XBKS_LOG_INFO (take 511 (map chr ''memory map has '' @ num_text False 10 (unat ?n) @ map chr '' entries''))))
      (xbks_log_printf XBKS_LOG_INFO (lit ''memory map has %llu entries'') [ArgLong ?n] d)"
    using num_text_no_nul by (intro log_printf_says assms info_formats(3) lit_terminated) (simp_all add: arg_ok_def)
  then show ?thesis using Some by (simp add: command_memmap_def memmap_text_def)
qed

lemma find_command_ok:
  "terminated name \<Longrightarrow> \<forall>c \<in> set cs. terminated (cmd_name c) \<Longrightarrow>
   find_command name cs = Some (List.find (\<lambda>c. cstr (cmd_name c) = cstr name) cs)"
proof (induction cs)
  case (Cons c cs)
  obtain r where "strcmp name (cmd_name c) = Some r" "r = 0 \<longleftrightarrow> cstr name = cstr (cmd_name c)"
    using strcmp_cstr [of name "cmd_name c"] Cons.prems by auto
  then show ?case using Cons by auto
qed simp

definition says_continue :: "io_state \<Rightarrow> u8 list \<Rightarrow> command_result option \<Rightarrow> bool" where
  "says_continue d t r \<longleftrightarrow> (\<exists>d'. r = Some (Continues d') \<and> wrote d t d')"

lemma says_continue_map: "runs (wrote d t) m \<Longrightarrow> says_continue d t (map_option Continues m)"
  by (auto simp: says_continue_def runs_def)

lemma run_command_ok:
  assumes f: "serial_fair d" and b: "boot_strings_ok boot_info" and t: "terminated line" "cstr line \<noteq> map chr ''reboot''"
  shows "says_continue d (command_text boot_info (cstr line)) (run_command line boot_info d)"
proof -
  obtain first rest where l: "line = first # rest" using t(1) by (cases line) (auto simp: terminated_def)
  have names: "\<forall>c \<in> set commands. terminated (cmd_name c)" using commands_terminated by blast
  have found: "List.find (\<lambda>c. cstr (cmd_name c) = cstr line) commands =
      (if cstr line = map chr ''help'' then Some (commands ! 0) else if cstr line = map chr ''info'' then Some (commands ! 1)
       else if cstr line = map chr ''memmap'' then Some (commands ! 2) else if cstr line = map chr ''clear'' then Some (commands ! 3)
       else None)"
    using t(2) by (auto simp: commands_def cstr_lit)
  have h: "cmd_handler (commands ! 0) = COMMAND_HELP" "cmd_handler (commands ! 1) = COMMAND_INFO"
      "cmd_handler (commands ! 2) = COMMAND_MEMMAP" "cmd_handler (commands ! 3) = COMMAND_CLEAR"
    by (simp_all add: commands_def)
  have unknown: "runs (wrote d (map chr ''unknown command: '' @ cstr line @ [10])) (do {
      d1 \<leftarrow> xbks_console_write_string (lit ''unknown command: '') d;
      d2 \<leftarrow> xbks_console_write_string line d1;
      xbks_console_write_string [10, 0] d2 })"
    by (rule runs_wrote_eq, (rule says_intros f t(1) ends_line lit_terminated | assumption)+) (simp add: cstr_lit)
  have unknown': "says_continue d (map chr ''unknown command: '' @ cstr line @ [10]) (do {
      d1 \<leftarrow> xbks_console_write_string (lit ''unknown command: '') d;
      d2 \<leftarrow> xbks_console_write_string line d1;
      d3 \<leftarrow> xbks_console_write_string [10, 0] d2;
      Some (Continues d3) })"
    using unknown by (auto simp: says_continue_def runs_def bind_eq_Some_conv)
  show ?thesis
  proof (cases "first = 0")
    case True
    then show ?thesis by (simp add: run_command_def l command_text_def says_continue_def)
  next
    case False
    then have ne: "cstr line \<noteq> []" by (simp add: l)
    show ?thesis
      using False ne f b unknown' h
      by (simp add: run_command_def l [THEN arg_cong [of _ _ "\<lambda>x. getb x 0"]] find_command_ok [OF t(1) names] found command_text_def
          call_handler_def says_continue_map command_help_says command_info_says command_memmap_says command_clear_says)
  qed
qed

section \<open>The editor\<close>

text \<open>The buffer holds a line.\<close>

definition holds :: "u8 list \<Rightarrow> nat \<Rightarrow> u8 list \<Rightarrow> bool" where
  "holds line n s \<longleftrightarrow> length line = 128 \<and> n \<le> 127 \<and> take n line = s \<and> 0 \<notin> set s"

lemma holds_length: "holds line n s \<Longrightarrow> length s = n"
  by (auto simp: holds_def)

lemma holds_setb:
  assumes "holds line n s"
  shows "setb line n c = Some (line[n := c])" "cstr (line[n := 0]) = s" "terminated (line[n := 0])"
    "holds (line[n := c]) 0 []" "c \<noteq> 0 \<Longrightarrow> n < 127 \<Longrightarrow> holds (line[n := c]) (Suc n) (s @ [c])"
    "n \<noteq> 0 \<Longrightarrow> holds line (n - 1) (butlast s)"
proof -
  have l: "n < length line" "take n line = s" "0 \<notin> set s" using assms by (auto simp: holds_def)
  then show "setb line n c = Some (line[n := c])" by simp
  have z: "line[n := 0] = s @ 0 # drop (Suc n) line" using l by (simp add: upd_conv_take_nth_drop)
  show "cstr (line[n := 0]) = s" "terminated (line[n := 0])" unfolding z using l(3) by (simp_all add: terminated_def)
  show "holds (line[n := c]) 0 []" using assms by (simp add: holds_def)
  show "c \<noteq> 0 \<Longrightarrow> n < 127 \<Longrightarrow> holds (line[n := c]) (Suc n) (s @ [c])"
    using assms l by (simp add: holds_def take_Suc_conv_app_nth)
  show "n \<noteq> 0 \<Longrightarrow> holds line (n - 1) (butlast s)"
    using assms l by (auto simp: holds_def butlast_take dest: in_set_butlastD)
qed

lemma bind_runs_wrote:
  "runs (wrote d t) m \<Longrightarrow> \<exists>d'. m = Some d' \<and> wrote d t d' \<and> (serial_fair d \<longrightarrow> serial_fair d')"
  using wrote_fair by (auto simp: runs_def)

lemma shell_char_ok:
  assumes f: "serial_fair d" and b: "boot_strings_ok boot_info" and h: "holds line n s"
    and r: "\<not> (ch = 10 \<and> s = map chr ''reboot'')"
  shows "\<exists>line' n' d'. shell_char boot_info ch line n d = Some (Next line' n' d') \<and> holds line' n' (edit ch s) \<and>
    wrote d (char_text boot_info ch s) d'"
proof -
  note set = holds_setb [OF h] and len = holds_length [OF h]
  consider "ch = 10" | "ch = 8" "n = 0" | "ch = 8" "n \<noteq> 0" | "ch \<noteq> 10" "ch \<noteq> 8" "ch \<ge> 32 \<and> ch \<le> 126 \<and> n < 127"
    | "ch \<noteq> 10" "ch \<noteq> 8" "\<not> (ch \<ge> 32 \<and> ch \<le> 126 \<and> n < 127)" by argo
  then show ?thesis
  proof cases
    case 1
    obtain d1 where d1: "xbks_console_write_string [10, 0] d = Some d1" "wrote d [10] d1" "serial_fair d1"
      using bind_runs_wrote [OF console_write_string_says [OF f ends_line(2)]] f by auto
    obtain d2 where d2: "run_command (line[n := 0]) boot_info d1 = Some (Continues d2)" "wrote d1 (command_text boot_info s) d2"
      using run_command_ok [OF d1(3) b set(3)] r 1 set(2) by (auto simp: says_continue_def)
    obtain d3 where d3: "write_prompt d2 = Some d3" "wrote d2 prompt d3"
      using bind_runs_wrote [OF console_write_string_says [OF wrote_fair [OF d2(2) d1(3)] lit_terminated, of "''xbks> ''"]]
      by (auto simp: write_prompt_def prompt_def cstr_lit)
    have "wrote d ([10] @ command_text boot_info s @ prompt) d3" using wrote_trans [OF d1(2) wrote_trans [OF d2(2) d3(2)]] .
    then show ?thesis
      using 1 d1(1) d2(1) d3(1) set(1,4) by (simp add: shell_char_def edit_def char_text_def)
  next
    case 2
    then show ?thesis using h len by (auto simp: shell_char_def edit_def char_text_def)
  next
    case 3
    have "terminated [8, 32, 8, 0 :: u8]" by (simp add: terminated_def)
    then show ?thesis
      using bind_runs_wrote [OF console_write_string_says [OF f, of "[8, 32, 8, 0]"]] 3 len set(6)
      by (auto simp: shell_char_def edit_def char_text_def)
  next
    case 4
    then have "ch \<noteq> 0" by auto
    then show ?thesis
      using bind_runs_wrote [OF console_write_says [OF f, of "[ch]"]] 4 len set(1,5)
      by (auto simp: shell_char_def edit_def char_text_def)
  next
    case 5
    then have "shell_char boot_info ch line n d = Some (Next line n d)" "edit ch s = s" "char_text boot_info ch s = []"
      using len by (auto simp: shell_char_def edit_def char_text_def)
    then show ?thesis using h by simp
  qed
qed

text \<open>The controller of the keyboard takes commands again and again.\<close>

definition ps2_fair :: "io_state \<Rightarrow> bool" where
  "ps2_fair d \<longleftrightarrow> (\<forall>n. \<exists>m \<ge> n. inputs d m 0x64 AND 0x02 = 0)"

lemma ps2_wait_ok:
  assumes "ps2_fair d"
  shows "\<exists>k. ps2_wait d = Some (d\<lparr>reads := reads d + k\<rparr>)"
proof -
  obtain m where "m \<ge> reads d" "inputs d m 0x64 AND 0x02 = 0" using assms unfolding ps2_fair_def by blast
  then obtain e where "inputs d (reads d + e) 0x64 AND 0x02 = 0" by (metis le_add_diff_inverse)
  then show ?thesis
  proof (induction e arbitrary: d)
    case 0
    then have "ps2_wait d = Some (d\<lparr>reads := reads d + 1\<rparr>)" by (subst ps2_wait.simps) (simp add: xbks_inb_def)
    then show ?case by blast
  next
    case (Suc e)
    let ?d = "d\<lparr>reads := reads d + 1\<rparr>"
    obtain k where "ps2_wait ?d = Some (?d\<lparr>reads := reads ?d + k\<rparr>)" using Suc.IH [of ?d] Suc.prems by auto
    then have "ps2_wait d = Some (d\<lparr>reads := reads d + (if inputs d (reads d) 0x64 AND 0x02 \<noteq> 0 then 1 + k else 1)\<rparr>)"
      by (subst ps2_wait.simps) (auto simp: xbks_inb_def)
    then show ?case by blast
  qed
qed

lemma find_reboot: "cstr line = map chr ''reboot'' \<Longrightarrow> List.find (\<lambda>c. cstr (cmd_name c) = cstr line) commands = Some (commands ! 4)"
  by (simp add: commands_def cstr_lit chr_def)

lemma run_reboot:
  assumes h: "holds line n (map chr ''reboot'')"
  shows "run_command (line[n := 0]) boot_info d = map_option Resets (command_reboot d)"
proof -
  note set = holds_setb [OF h]
  have n: "n = 6" using holds_length [OF h] by simp
  have "take n line ! 0 = chr (CHR ''r'')" using h by (simp add: holds_def)
  then have "getb (line[n := 0]) 0 = Some (chr (CHR ''r''))" using h n by (simp add: holds_def)
  then show ?thesis
    using find_command_ok [OF set(3), of commands] commands_terminated find_reboot [OF set(2)]
    by (simp add: run_command_def call_handler_def commands_def)
qed

lemma reboot_not_next:
  "holds line n (map chr ''reboot'') \<Longrightarrow> shell_char boot_info 10 line n d \<noteq> Some (Next line' n' d')"
  by (auto simp: shell_char_def run_reboot holds_setb(1) split: bind_splits)

lemma reboot_ok:
  assumes f: "serial_fair d" "ps2_fair d" and h: "holds line n (map chr ''reboot'')"
  shows "\<exists>d'. shell_char boot_info 10 line n d = Some (Reset d') \<and> last (outputs d') = (0x64, 0xfe) \<and>
    port_bytes 0xe9 d' = port_bytes 0xe9 d @ [10] @ map chr ''rebooting...'' @ [10]"
proof -
  note set = holds_setb [OF h]
  obtain d1 where d1: "xbks_console_write_string [10, 0] d = Some d1" "wrote d [10] d1" "serial_fair d1"
    using bind_runs_wrote [OF console_write_string_says [OF f(1) ends_line(2)]] f by auto
  obtain d2 where d2: "xbks_console_write_string (map chr ''rebooting...'' @ [10, 0]) d1 = Some d2" "wrote d1 (map chr ''rebooting...'' @ [10]) d2"
    using bind_runs_wrote [OF console_write_string_says [OF d1(3) ends_line(1), of "map chr ''rebooting...''"]] by auto
  have "ps2_fair d2" using f(2) d1(2) d2(2) by (simp add: wrote_def ps2_fair_def)
  from ps2_wait_ok [OF this] obtain k where k: "ps2_wait d2 = Some (d2\<lparr>reads := reads d2 + k\<rparr>)" by blast
  have "run_command (line[n := 0]) boot_info d1 = Some (Resets (xbks_outb 0x64 0xfe (d2\<lparr>reads := reads d2 + k\<rparr>)))"
    using d2(1) k by (simp add: run_reboot [OF h] command_reboot_def)
  then show ?thesis
    using d1 d2(2) set(1) by (simp add: shell_char_def xbks_outb_def wrote_def port_bytes_def)
qed

section \<open>Sessions\<close>

text \<open>
  The states of the loop of \<^verbatim>\<open>xbks_shell_run\<close> in front of a read, with the characters read before.
\<close>

inductive shell_at :: "xbks_boot_info \<Rightarrow> u8 list \<Rightarrow> io_state \<Rightarrow> u8 list \<Rightarrow> u8 list \<Rightarrow> nat \<Rightarrow> io_state \<Rightarrow> bool"
  for boot_info line0 d0 where
  start: "shell_at boot_info line0 d0 [] line0 0 d0"
| char: "shell_at boot_info line0 d0 cs line n d \<Longrightarrow> xbks_keyboard_read_char_blocking d = Some (ch, d1) \<Longrightarrow>
    shell_char boot_info ch line n d1 = Some (Next line' n' d2) \<Longrightarrow> shell_at boot_info line0 d0 (cs @ [ch]) line' n' d2"

text \<open>The devices have shown a text, and the keyboard may have been read.\<close>

definition transcript :: "io_state \<Rightarrow> u8 list \<Rightarrow> io_state \<Rightarrow> bool" where
  "transcript d0 t d \<longleftrightarrow> wrote d0 t (d\<lparr>shift_pressed := shift_pressed d0\<rparr>)"

lemma transcript_refl: "transcript d [] d"
  by (simp add: transcript_def)

lemma transcript_fair: "transcript d0 t d \<Longrightarrow> serial_fair d0 \<Longrightarrow> serial_fair d" "transcript d0 t d \<Longrightarrow> ps2_fair d0 \<Longrightarrow> ps2_fair d"
  by (simp_all add: transcript_def wrote_def serial_fair_def ps2_fair_def)

lemma transcript_wrote: "transcript d0 t d \<Longrightarrow> wrote d u d' \<Longrightarrow> transcript d0 (t @ u) d'"
  by (auto simp: transcript_def wrote_def port_bytes_def)

text \<open>Reading the keyboard changes nothing but the state of its shift key.\<close>

definition quiet :: "io_state \<Rightarrow> io_state \<Rightarrow> bool" where
  "quiet d d' \<longleftrightarrow> inputs d' = inputs d \<and> reads d \<le> reads d' \<and> outputs d' = outputs d \<and> tty_context d' = tty_context d \<and>
     tty_output d' = tty_output d"

lemma transcript_read: "transcript d0 t d \<Longrightarrow> quiet d d' \<Longrightarrow> transcript d0 t d'"
  by (auto simp: quiet_def transcript_def wrote_def port_bytes_def)

lemma read_char_quiet: "quiet d (snd (xbks_keyboard_read_char d))"
  by (simp add: quiet_def xbks_keyboard_read_char_def xbks_serial_read_byte_def serial_received_def xbks_inb_def handle_scancode_def Let_def)

lemma quiet_trans: "quiet a b \<Longrightarrow> quiet b c \<Longrightarrow> quiet a c"
  by (simp add: quiet_def)

lemma read_blocking_quiet:
  assumes "xbks_keyboard_read_char_blocking d = Some r"
  shows "quiet d (snd r)"
  using assms
proof (rule xbks_keyboard_read_char_blocking.raw_induct [rotated])
  fix read d r
  assume ih: "\<And>d r. read d = Some r \<Longrightarrow> quiet d (snd r)"
    and step: "(case xbks_keyboard_read_char d of (None, s') \<Rightarrow> read s' | (Some ch, s') \<Rightarrow> Some (ch, s')) = Some r"
  obtain c d' where r: "xbks_keyboard_read_char d = (c, d')" by fastforce
  have "quiet d d'" using read_char_quiet [of d] r by simp
  then show "quiet d (snd r)" using step ih [of d' r] r quiet_trans by (cases c) auto
qed

lemma shell_at_ok:
  assumes "shell_at boot_info line0 d0 cs line n d" "serial_fair d0" "boot_strings_ok boot_info" "length line0 = 128"
  shows "holds line n (fold edit cs []) \<and> transcript d0 (session_text boot_info [] cs) d"
  using assms(1)
proof induction
  case start
  then show ?case using assms(4) by (simp add: holds_def transcript_refl)
next
  case (char cs line n d ch d1 line' n' d2)
  let ?s = "fold edit cs []"
  have t: "transcript d0 (session_text boot_info [] cs) d1"
    using read_blocking_quiet [OF char.hyps(2)] transcript_read char.IH by fastforce
  have f: "serial_fair d1" using t assms(2) by (rule transcript_fair)
  have "\<not> (ch = 10 \<and> ?s = map chr ''reboot'')"
    using reboot_not_next [of line n boot_info d1 line' n' d2] char.IH char.hyps(3) by auto
  from shell_char_ok [OF f assms(3) _ this] char.IH char.hyps(3) transcript_wrote [OF t] show ?case
    by (fastforce simp: session_text_snoc)
qed

lemma run_command_resets:
  assumes "run_command line boot_info d = Some (Resets d')"
  shows "last (outputs d') = (0x64, 0xfe)"
  using assms
  by (auto simp: run_command_def call_handler_def command_reboot_def xbks_outb_def
      split: bind_splits if_splits option.splits shell_handler.splits)

lemma shell_char_resets: "shell_char boot_info ch line n d = Some (Reset d') \<Longrightarrow> last (outputs d') = (0x64, 0xfe)"
  by (auto simp: shell_char_def split: bind_splits if_splits command_result.splits dest: run_command_resets)

text \<open>Only the reset ends the loop.\<close>

lemma shell_loop_resets:
  assumes "shell_loop boot_info line n d = Some d'"
  shows "last (outputs d') = (0x64, 0xfe)"
  using assms
proof (rule shell_loop.raw_induct [rotated])
  fix loop boot_info line n d d'
  assume ih: "\<And>boot_info line n d d'. loop boot_info line n d = Some d' \<Longrightarrow> last (outputs d') = (0x64, 0xfe)"
    and step: "xbks_keyboard_read_char_blocking d \<bind> (\<lambda>(ch, d1). shell_char boot_info ch line n d1 \<bind>
      (\<lambda>r. case r of Next line' n d2 \<Rightarrow> loop boot_info line' n d2 | Reset d2 \<Rightarrow> Some d2)) = Some d'"
  then show "last (outputs d') = (0x64, 0xfe)"
    by (auto split: bind_splits shell_next.splits dest: shell_char_resets)
qed

lemma shell_run_resets: "xbks_shell_run boot_info line d = Some d' \<Longrightarrow> last (outputs d') = (0x64, 0xfe)"
  by (auto simp: xbks_shell_run_def split: bind_splits dest: shell_loop_resets)

section \<open>Properties\<close>

text \<open>
  Property C8. The shell is a line editor. In every state of its loop the buffer holds the line that the characters read so far leave,
  never more than 127 of them, and the console has shown their echo, the output of every command entered, and the prompts, and nothing else.
  From there no character makes the shell fault or hang: it goes on with the edited line, and
  the newline after \<^verbatim>\<open>reboot\<close> resets the machine through the keyboard controller when that takes commands.
\<close>

theorem shell_is_line_editor:
  assumes "serial_fair d0" and "boot_strings_ok boot_info" and "length line0 = 128"
    and "shell_at boot_info line0 d0 cs line n d" and "quiet d d1" and "s = fold edit cs []"
  shows "n \<le> 127 \<and> take n line = s \<and> transcript d0 (session_text boot_info [] cs) d \<and>
    (if ch = 10 \<and> s = map chr ''reboot''
     then ps2_fair d0 \<longrightarrow> (\<exists>d'. shell_char boot_info ch line n d1 = Some (Reset d') \<and> last (outputs d') = (0x64, 0xfe))
     else \<exists>line' n' d'. shell_char boot_info ch line n d1 = Some (Next line' n' d') \<and> take n' line' = edit ch s \<and>
       wrote d1 (char_text boot_info ch s) d')"
proof -
  have h: "holds line n s" and t: "transcript d0 (session_text boot_info [] cs) d"
    using shell_at_ok [OF assms(4,1,2,3)] assms(6) by simp_all
  note t1 = transcript_read [OF t assms(5)]
  have f: "serial_fair d1" "ps2_fair d0 \<Longrightarrow> ps2_fair d1" using transcript_fair [OF t1] assms(1) by simp_all
  show ?thesis
    using h t shell_char_ok [OF f(1) assms(2) h, of ch] reboot_ok [OF f(1) f(2), of line n boot_info] by (auto simp: holds_def)
qed

definition demo_boot_info :: xbks_boot_info where
  "demo_boot_info = \<lparr>bi_bootloader = None, bi_cmdline = None, bi_firmware = 0, bi_hhdm = Some 0xffff800000000000,
     bi_memmap = Some [\<lparr>me_base = 0x1000, me_length = 0x100000, me_type = LIMINE_MEMMAP_USABLE\<rparr>,
       \<lparr>me_base = 0x200000, me_length = 0x1000, me_type = LIMINE_MEMMAP_RESERVED\<rparr>],
     bi_executable_file = 0, bi_framebuffer = None, bi_modules = None\<rparr>"

theorem shell_is_line_editor_witness:
  "\<exists>line' n' d'. shell_char demo_boot_info (chr (CHR ''h'')) (replicate 128 0) 0 demo_io = Some (Next line' n' d') \<and>
     take n' line' = [chr (CHR ''h'')] \<and> wrote demo_io [chr (CHR ''h'')] d'"
proof -
  have "boot_strings_ok demo_boot_info" by (simp add: boot_strings_ok_def demo_boot_info_def)
  moreover have "quiet demo_io demo_io" by (simp add: quiet_def)
  ultimately show ?thesis
    using shell_is_line_editor [OF demo_io_fair _ _ shell_at.start _ refl, of demo_boot_info "replicate 128 0" demo_io "chr (CHR ''h'')"]
    by (simp add: edit_def char_text_def chr_def)
qed

end
