(* ===== verification/Font_Tables.thy ===== *)
theory Font_Tables
  imports Ramdisk Devices Fallible "HOL-Library.Signed_Division"
begin

text \<open>
  The tables of a TrueType font, the first part of \<^verbatim>\<open>drivers/font_ttf.c\<close>: the module that holds the
  font, the table directory, the selection of a character map, the lookup of a glyph in it, and the
  places and widths of the glyphs.

  A pointer into the font is the rest of the file from the place it points to. \<^term>\<open>None\<close> is a read
  outside of the file, a write outside of an array or a signed overflow; a C function that returns
  false has the result \<open>Some None\<close>.
\<close>

section \<open>Reading the file\<close>

definition range_is_valid :: "u64 \<Rightarrow> u64 \<Rightarrow> u64 \<Rightarrow> bool" where
  "range_is_valid sz offset len \<longleftrightarrow> offset \<le> sz \<and> len \<le> sz - offset"

text \<open>\<^verbatim>\<open>p + offset\<close>\<close>

definition at :: "u8 list \<Rightarrow> u64 \<Rightarrow> u8 list" where
  "at p offset = drop (unat offset) p"

definition read_u16 :: "u8 list \<Rightarrow> u16 option" where
  "read_u16 data = do {
     a \<leftarrow> getb data 0;
     b \<leftarrow> getb data 1;
     Some (push_bit 8 (ucast a) OR ucast b) }"

definition read_s16 :: "u8 list \<Rightarrow> int option" where
  "read_s16 data = map_option sint (read_u16 data)"

definition read_u32 :: "u8 list \<Rightarrow> u32 option" where
  "read_u32 data = do {
     a \<leftarrow> getb data 0;
     b \<leftarrow> getb data 1;
     c \<leftarrow> getb data 2;
     d \<leftarrow> getb data 3;
     Some (push_bit 24 (ucast a) OR push_bit 16 (ucast b) OR push_bit 8 (ucast c) OR ucast d) }"

definition tag_from_string :: "u8 list \<Rightarrow> u32 option" where
  "tag_from_string tag = do {
     a \<leftarrow> getb tag 0;
     b \<leftarrow> getb tag 1;
     c \<leftarrow> getb tag 2;
     d \<leftarrow> getb tag 3;
     Some (push_bit 24 (ucast a) OR push_bit 16 (ucast b) OR push_bit 8 (ucast c) OR ucast d) }"

text \<open>The module that holds the font; the helper \<^verbatim>\<open>string_ends_with\<close> is a copy of the one of \<^verbatim>\<open>fs/ramdisk.c\<close>.\<close>

definition module_is_font :: "limine_file \<Rightarrow> bool option" where
  "module_is_font module =
     (let module_string = (case lf_string module of None \<Rightarrow> lit [] | Some t \<Rightarrow> t);
          module_path = (case lf_path module of None \<Rightarrow> lit [] | Some t \<Rightarrow> t)
      in do {
        r \<leftarrow> strcmp module_string (lit ''system-font'');
        if r = 0 then Some True
        else do {
          a \<leftarrow> string_ends_with module_path (lit ''/system.ttf'');
          if a then Some True else string_ends_with module_path (lit ''system.ttf'') } })"

fun font_module_search :: "limine_file option list \<Rightarrow> limine_file option option" where
  "font_module_search [] = Some None"
| "font_module_search (None # ms) = font_module_search ms"
| "font_module_search (Some module # ms) =
     (if lf_address module = None \<or> lf_size module = 0 then font_module_search ms
      else do {
        hit \<leftarrow> module_is_font module;
        if hit then Some (Some module) else font_module_search ms })"

definition find_font_module :: "module_response \<Rightarrow> limine_file option option" where
  "find_font_module modules = (case modules of None \<Rightarrow> Some None | Some ms \<Rightarrow> font_module_search ms)"

section \<open>The table directory\<close>

abbreviation TAG_CMAP :: u32 where "TAG_CMAP \<equiv> 0x636d6170"
abbreviation TAG_GLYF :: u32 where "TAG_GLYF \<equiv> 0x676c7966"
abbreviation TAG_HEAD :: u32 where "TAG_HEAD \<equiv> 0x68656164"
abbreviation TAG_HHEA :: u32 where "TAG_HHEA \<equiv> 0x68686561"
abbreviation TAG_HMTX :: u32 where "TAG_HMTX \<equiv> 0x686d7478"
abbreviation TAG_LOCA :: u32 where "TAG_LOCA \<equiv> 0x6c6f6361"
abbreviation TAG_MAXP :: u32 where "TAG_MAXP \<equiv> 0x6d617870"
abbreviation TAG_OS_2 :: u32 where "TAG_OS_2 \<equiv> 0x4f532f32"

record ttf_table =
  tbl_data :: "u8 list"
  tbl_size :: u64

record ttf_font =
  ttf_data :: "u8 list"
  ttf_size :: u64
  cmap :: ttf_table
  glyf :: ttf_table
  head :: ttf_table
  hhea :: ttf_table
  hmtx :: ttf_table
  loca :: ttf_table
  maxp :: ttf_table
  os_2 :: ttf_table
  cmap_subtable :: "u8 list option"
  cmap_subtable_size :: u64
  num_glyphs :: u16
  number_of_hmetrics :: u16
  units_per_em :: u16
  ascent :: int
  descent :: int
  line_gap :: int
  typo_ascent :: int
  typo_descent :: int
  typo_line_gap :: int
  index_to_loc_format :: int

definition zero_table :: ttf_table where
  "zero_table = \<lparr>tbl_data = [], tbl_size = 0\<rparr>"

definition new_font :: "u8 list \<Rightarrow> u64 \<Rightarrow> ttf_font" where
  "new_font data sz = \<lparr>ttf_data = data, ttf_size = sz, cmap = zero_table, glyf = zero_table, head = zero_table,
     hhea = zero_table, hmtx = zero_table, loca = zero_table, maxp = zero_table, os_2 = zero_table,
     cmap_subtable = None, cmap_subtable_size = 0, num_glyphs = 0, number_of_hmetrics = 0, units_per_em = 0,
     ascent = 0, descent = 0, line_gap = 0, typo_ascent = 0, typo_descent = 0, typo_line_gap = 0,
     index_to_loc_format = 0\<rparr>"

fun table_search :: "ttf_font \<Rightarrow> u32 \<Rightarrow> u64 list \<Rightarrow> ttf_table option option" where
  "table_search font tag [] = Some None"
| "table_search font tag (i # is) = do {
     let rec = at (ttf_data font) (12 + i * 16);
     record_tag \<leftarrow> tag_from_string rec;
     offset \<leftarrow> read_u32 (at rec 8);
     len \<leftarrow> read_u32 (at rec 12);
     if record_tag = tag then
       if \<not> range_is_valid (ttf_size font) (ucast offset) (ucast len) then Some None
       else Some (Some \<lparr>tbl_data = at (ttf_data font) (ucast offset), tbl_size = ucast len\<rparr>)
     else table_search font tag is }"

definition get_table :: "ttf_font \<Rightarrow> u32 \<Rightarrow> ttf_table option option" where
  "get_table font tag =
     (if \<not> range_is_valid (ttf_size font) 0 12 then Some None
      else do {
        table_count \<leftarrow> read_u16 (at (ttf_data font) 4);
        if \<not> range_is_valid (ttf_size font) 12 (ucast table_count * 16) then Some None
        else table_search font tag (indices 0 (unat table_count)) })"

text \<open>
  The length of a character map of a format the code reads, and its place; \<open>Some None\<close> where the C
  loop goes on to the next record.
\<close>

definition usable_subtable :: "ttf_table \<Rightarrow> u64 \<Rightarrow> (u8 list \<times> u64) option option" where
  "usable_subtable t offset =
     (if \<not> range_is_valid (tbl_size t) offset 2 then Some None
      else do {
        let subtable = at (tbl_data t) offset;
        fmt \<leftarrow> read_u16 subtable;
        len \<leftarrow> (if fmt = 4 then
                 if \<not> range_is_valid (tbl_size t) offset 4 then Some None
                 else do { n \<leftarrow> read_u16 (at subtable 2); Some (Some (ucast n)) }
               else if fmt = 12 then
                 if \<not> range_is_valid (tbl_size t) offset 16 then Some None
                 else do { n \<leftarrow> read_u32 (at subtable 4); Some (Some (ucast n)) }
               else Some None);
        case len of
          None \<Rightarrow> Some None
        | Some n \<Rightarrow> if \<not> range_is_valid (tbl_size t) offset n then Some None else Some (Some (subtable, n)) })"

fun cmap_search :: "ttf_table \<Rightarrow> u64 list \<Rightarrow> (u8 list \<times> u64) option \<Rightarrow> (u8 list \<times> u64) option option" where
  "cmap_search t [] fallback = Some fallback"
| "cmap_search t (i # is) fallback = do {
     let rec = at (tbl_data t) (4 + i * 8);
     platform \<leftarrow> read_u16 rec;
     encoding \<leftarrow> read_u16 (at rec 2);
     offset \<leftarrow> read_u32 (at rec 4);
     s \<leftarrow> usable_subtable t (ucast offset);
     case s of
       None \<Rightarrow> cmap_search t is fallback
     | Some sub \<Rightarrow>
         if platform = 3 \<and> (encoding = 1 \<or> encoding = 10) \<or> platform = 0 then Some (Some sub)
         else cmap_search t is (if fallback = None then Some sub else fallback) }"

definition select_cmap_subtable :: "ttf_font \<Rightarrow> ttf_font option option" where
  "select_cmap_subtable font =
     (if \<not> range_is_valid (tbl_size (cmap font)) 0 4 then Some None
      else do {
        subtable_count \<leftarrow> read_u16 (at (tbl_data (cmap font)) 2);
        if \<not> range_is_valid (tbl_size (cmap font)) 4 (ucast subtable_count * 8) then Some None
        else chain (cmap_search (cmap font) (indices 0 (unat subtable_count)) None) (\<lambda>(sub, n).
          Some (Some (font\<lparr>cmap_subtable := Some sub, cmap_subtable_size := n\<rparr>))) })"

definition read_head_fields :: "ttf_font \<Rightarrow> ttf_font option" where
  "read_head_fields f = do {
     upem \<leftarrow> read_u16 (at (tbl_data (head f)) 18);
     fmt \<leftarrow> read_s16 (at (tbl_data (head f)) 50);
     asc \<leftarrow> read_s16 (at (tbl_data (hhea f)) 4);
     desc \<leftarrow> read_s16 (at (tbl_data (hhea f)) 6);
     gap \<leftarrow> read_s16 (at (tbl_data (hhea f)) 8);
     metrics \<leftarrow> read_u16 (at (tbl_data (hhea f)) 34);
     glyphs \<leftarrow> read_u16 (at (tbl_data (maxp f)) 4);
     let f' = f\<lparr>units_per_em := upem, index_to_loc_format := fmt, ascent := asc, descent := desc,
       line_gap := gap, number_of_hmetrics := metrics, num_glyphs := glyphs\<rparr>;
     if tbl_size (os_2 f) \<ge> 74 then do {
       tasc \<leftarrow> read_s16 (at (tbl_data (os_2 f)) 68);
       tdesc \<leftarrow> read_s16 (at (tbl_data (os_2 f)) 70);
       tgap \<leftarrow> read_s16 (at (tbl_data (os_2 f)) 72);
       Some (f'\<lparr>typo_ascent := tasc, typo_descent := tdesc, typo_line_gap := tgap\<rparr>) }
     else Some f' }"

definition fields_refused :: "ttf_font \<Rightarrow> bool" where
  "fields_refused f \<longleftrightarrow> units_per_em f = 0 \<or> num_glyphs f = 0 \<or> number_of_hmetrics f = 0 \<or>
     number_of_hmetrics f > num_glyphs f \<or> (index_to_loc_format f \<noteq> 0 \<and> index_to_loc_format f \<noteq> 1) \<or>
     tbl_size (loca f) < (ucast (num_glyphs f) + 1) * (if index_to_loc_format f = 0 then 2 else 4) \<or>
     tbl_size (hmtx f) < ucast (number_of_hmetrics f) * 4"

definition parse_ttf :: "u8 list \<Rightarrow> u64 \<Rightarrow> ttf_font option option" where
  "parse_ttf data sz =
     (if \<not> range_is_valid sz 0 12 then Some None
      else do {
        scaler_type \<leftarrow> read_u32 data;
        if scaler_type \<noteq> 0x00010000 \<and> scaler_type \<noteq> 0x74727565 then Some None
        else
          let f = new_font data sz in
          chain (get_table f TAG_CMAP) (\<lambda>c. chain (get_table f TAG_GLYF) (\<lambda>g.
          chain (get_table f TAG_HEAD) (\<lambda>hd. chain (get_table f TAG_HHEA) (\<lambda>hh.
          chain (get_table f TAG_HMTX) (\<lambda>hm. chain (get_table f TAG_LOCA) (\<lambda>l.
          chain (get_table f TAG_MAXP) (\<lambda>m. do {
            os \<leftarrow> get_table f TAG_OS_2;
            let f1 = f\<lparr>cmap := c, glyf := g, head := hd, hhea := hh, hmtx := hm, loca := l, maxp := m,
              os_2 := (case os of None \<Rightarrow> zero_table | Some t \<Rightarrow> t)\<rparr>;
            if tbl_size hd < 54 \<or> tbl_size hh < 36 \<or> tbl_size m < 6 then Some None
            else do {
              f2 \<leftarrow> read_head_fields f1;
              if fields_refused f2 then Some None else select_cmap_subtable f2 } }))))))) })"

section \<open>Character maps and glyph places\<close>

text \<open>
  The segments of a format 4 map from the \<open>i\<close>-th on; \<open>sub\<close> is the map, \<open>sz\<close> its size, and the
  three arrays behind the end codes start at \<open>starts\<close>, \<open>deltas\<close> and \<open>ranges\<close>.
\<close>

fun cmap4_search :: "u8 list \<Rightarrow> u64 \<Rightarrow> u64 \<Rightarrow> u64 \<Rightarrow> u64 \<Rightarrow> u32 \<Rightarrow> u64 list \<Rightarrow> u16 option" where
  "cmap4_search sub sz starts deltas ranges codepoint [] = Some 0"
| "cmap4_search sub sz starts deltas ranges codepoint (i # is) = do {
     end_code \<leftarrow> read_u16 (at sub (14 + i * 2));
     start_code \<leftarrow> read_u16 (at sub (starts + i * 2));
     if codepoint < ucast start_code then Some 0
     else if codepoint > ucast end_code then cmap4_search sub sz starts deltas ranges codepoint is
     else do {
       delta \<leftarrow> read_u16 (at sub (deltas + i * 2));
       range_offset \<leftarrow> read_u16 (at sub (ranges + i * 2));
       if range_offset = 0 then Some (ucast (codepoint + scast delta))
       else
         let glyph_offset = ranges + i * 2 + ucast range_offset + (ucast codepoint - ucast start_code) * 2 in
         if \<not> range_is_valid sz glyph_offset 2 then Some 0
         else do {
           glyph \<leftarrow> read_u16 (at sub glyph_offset);
           if glyph = 0 then Some 0 else Some (glyph + delta) } } }"

definition cmap_format4_glyph :: "u8 list \<Rightarrow> u64 \<Rightarrow> u32 \<Rightarrow> u16 option" where
  "cmap_format4_glyph sub sz codepoint =
     (if codepoint > 0xffff \<or> sz < 16 then Some 0
      else do {
        seg_count_x2 \<leftarrow> read_u16 (at sub 6);
        let seg_count = (ucast (seg_count_x2 div 2) :: u64);
        let starts = 14 + seg_count * 2 + 2;
        let deltas = starts + seg_count * 2;
        let ranges = deltas + seg_count * 2;
        if \<not> range_is_valid sz ranges (seg_count * 2) then Some 0
        else cmap4_search sub sz starts deltas ranges codepoint (indices 0 (unat seg_count)) })"

text \<open>
  The \<open>n\<close> groups of a format 12 map from the \<open>i\<close>-th on. Counting down keeps the loop, whose bound
  is a field of 32 bits, free of a list of its indices.
\<close>

fun cmap12_search :: "u8 list \<Rightarrow> u32 \<Rightarrow> u64 \<Rightarrow> nat \<Rightarrow> u16 option" where
  "cmap12_search sub codepoint i 0 = Some 0"
| "cmap12_search sub codepoint i (Suc n) = do {
     let group = at sub (16 + i * 12);
     start_char \<leftarrow> read_u32 group;
     end_char \<leftarrow> read_u32 (at group 4);
     if codepoint < start_char then Some 0
     else if codepoint \<le> end_char then do {
       start_glyph \<leftarrow> read_u32 (at group 8);
       let glyph = start_glyph + codepoint - start_char;
       Some (if glyph \<le> 0xffff then ucast glyph else 0) }
     else cmap12_search sub codepoint (i + 1) n }"

definition cmap_format12_glyph :: "u8 list \<Rightarrow> u64 \<Rightarrow> u32 \<Rightarrow> u16 option" where
  "cmap_format12_glyph sub sz codepoint =
     (if sz < 16 then Some 0
      else do {
        group_count \<leftarrow> read_u32 (at sub 12);
        if \<not> range_is_valid sz 16 (ucast group_count * 12) then Some 0
        else cmap12_search sub codepoint 0 (unat group_count) })"

definition glyph_for_codepoint :: "ttf_font \<Rightarrow> u32 \<Rightarrow> u16 option" where
  "glyph_for_codepoint font codepoint =
     (case cmap_subtable font of
        None \<Rightarrow> Some 0
      | Some sub \<Rightarrow>
          if cmap_subtable_size font < 2 then Some 0
          else do {
            fmt \<leftarrow> read_u16 sub;
            if fmt = 4 then cmap_format4_glyph sub (cmap_subtable_size font) codepoint
            else if fmt = 12 then cmap_format12_glyph sub (cmap_subtable_size font) codepoint
            else Some 0 })"

definition glyph_bounds :: "ttf_font \<Rightarrow> u16 \<Rightarrow> (u64 \<times> u64) option option" where
  "glyph_bounds font glyph =
     (if glyph \<ge> num_glyphs font then Some None
      else do {
        (start, stop) \<leftarrow> (if index_to_loc_format font = 0 then do {
            let loca_offset = ucast glyph * 2;
            a \<leftarrow> read_u16 (at (tbl_data (loca font)) loca_offset);
            b \<leftarrow> read_u16 (at (tbl_data (loca font)) (loca_offset + 2));
            Some (ucast a * 2, ucast b * 2) }
          else do {
            let loca_offset = ucast glyph * 4;
            a \<leftarrow> read_u32 (at (tbl_data (loca font)) loca_offset);
            b \<leftarrow> read_u32 (at (tbl_data (loca font)) (loca_offset + 4));
            Some (ucast a, ucast b) });
        if stop < start \<or> \<not> range_is_valid (tbl_size (glyf font)) start (stop - start) then Some None
        else Some (Some (start, stop - start)) })"

definition glyph_advance :: "ttf_font \<Rightarrow> u16 \<Rightarrow> int option" where
  "glyph_advance font glyph =
     (if glyph < number_of_hmetrics font then read_s16 (at (tbl_data (hmtx font)) (ucast glyph * 4))
      else read_s16 (at (tbl_data (hmtx font)) ((ucast (number_of_hmetrics font) - 1) * 4)))"

section \<open>Safety\<close>

lemma range_is_valid_iff: "range_is_valid sz off n \<longleftrightarrow> unat off + unat n \<le> unat sz"
  by (auto simp: range_is_valid_def word_le_nat_alt unat_sub_if')

lemma length_at [simp]: "length (at p off) = length p - unat off"
  by (simp add: at_def)

lemma read_u16_runs: "2 \<le> length p \<Longrightarrow> runs (\<lambda>v. True) (read_u16 p)"
  by (auto simp: read_u16_def getb_def)

lemma read_s16_range: "read_s16 p = Some v \<Longrightarrow> - 32768 \<le> v \<and> v < 32768"
proof -
  have "- 32768 \<le> sint w \<and> sint w < 32768" for w :: u16
    using sint_greater_eq [of w] sint_less [of w] by simp
  then show "read_s16 p = Some v \<Longrightarrow> - 32768 \<le> v \<and> v < 32768" by (auto simp: read_s16_def)
qed

lemma read_s16_runs: "2 \<le> length p \<Longrightarrow> runs (\<lambda>v. - 32768 \<le> v \<and> v < 32768) (read_s16 p)"
  using read_u16_runs [of p] read_s16_range [of p] by (auto simp: runs_def read_s16_def)

lemma read_u32_runs: "4 \<le> length p \<Longrightarrow> runs (\<lambda>v. True) (read_u32 p)"
  by (auto simp: read_u32_def getb_def)

lemma tag_from_string_runs: "4 \<le> length p \<Longrightarrow> runs (\<lambda>v. True) (tag_from_string p)"
  by (auto simp: tag_from_string_def getb_def)

lemmas read_runs = read_u16_runs read_s16_runs read_u32_runs tag_from_string_runs

text \<open>One read at a time; the rules leave the bound of the read and the rest of the function.\<close>

lemmas safe_reads = read_runs [THEN safe_bind] read_runs [THEN runs_bind]

text \<open>A table that lies in the file.\<close>

definition wf_table :: "ttf_table \<Rightarrow> bool" where
  "wf_table t \<longleftrightarrow> unat (tbl_size t) \<le> length (tbl_data t)"

lemma wf_zero_table [simp]: "wf_table zero_table"
  by (simp add: wf_table_def zero_table_def)

lemma unat_word_index: "i \<in> set (indices 0 n) \<Longrightarrow> n < 2 ^ 64 \<Longrightarrow> unat i < n"
  by (auto simp: indices_def unat_of_nat)

text \<open>The place of an array element, without wrap-around.\<close>

lemma unat_elem:
  fixes b i k :: u64
  assumes "unat i < 2 ^ 32" "unat k \<le> 2 ^ 16" "unat b < 2 ^ 40"
  shows "unat (b + i * k) = unat b + unat i * unat k"
proof -
  have "unat i * unat k \<le> 2 ^ 32 * 2 ^ 16" using assms by (intro mult_mono) auto
  then have "unat i * unat k < 2 ^ 64 \<and> unat b + unat i * unat k < 2 ^ 64" using assms(3) by auto
  then show ?thesis by (simp add: unat_word_ariths)
qed

lemma safe_fail_or: "(P \<Longrightarrow> safe Q r) \<Longrightarrow> safe Q (if \<not> P then Some None else r)"
  by simp

lemma table_search_safe:
  assumes "unat (ttf_size f) \<le> length (ttf_data f)"
  shows "\<forall>i \<in> set is. unat i < 2 ^ 16 \<and> 28 + unat i * 16 \<le> length (ttf_data f) \<Longrightarrow> safe wf_table (table_search f tag is)"
proof (induction "is")
  case (Cons i "is")
  have l: "unat (12 + i * 16) = 12 + unat i * 16" "28 + unat i * 16 \<le> length (ttf_data f)"
    using Cons.prems unat_elem [of i 16 12] by auto
  have "safe wf_table (table_search f tag is)" using Cons by simp
  moreover have "wf_table \<lparr>tbl_data = at (ttf_data f) off, tbl_size = n\<rparr>" if "range_is_valid (ttf_size f) off n" for off n
    using that assms by (simp add: wf_table_def range_is_valid_iff)
  ultimately show ?case using l
    by (auto simp: Let_def intro!: safe_reads safe_if)
qed simp

lemma unat_u16: "unat (n :: u16) < 2 ^ 16"
  using unsigned_less [of n, where 'a = nat] by simp

lemma unat_u32: "unat (n :: u32) < 2 ^ 32"
  using unsigned_less [of n, where 'a = nat] by simp

lemma unat_ucast16 [simp]: "unat (ucast (n :: u16) :: u64) = unat n"
  using unat_u16 [of n] by (simp add: unsigned_ucast_eq take_bit_nat_eq_self)

lemma unat_ucast32 [simp]: "unat (ucast (n :: u32) :: u64) = unat n"
  using unat_u32 [of n] by (simp add: unsigned_ucast_eq take_bit_nat_eq_self)

lemma indices_u16: "i \<in> set (indices 0 (unat (n :: u16))) \<Longrightarrow> unat i < unat n \<and> unat i < 2 ^ 16"
  using unat_word_index [of i "unat n"] unat_u16 [of n] by simp

lemma unat_count:
  fixes n :: u16 and k :: u64
  assumes "unat k \<le> 2 ^ 16"
  shows "unat (ucast n * k) = unat n * unat k"
  using unat_elem [of "ucast n" k 0] unat_u16 [of n] assms by simp

lemma get_table_safe:
  assumes "unat (ttf_size f) \<le> length (ttf_data f)"
  shows "safe wf_table (get_table f tag)"
proof -
  have "safe wf_table (table_search f tag (indices 0 (unat n)))"
    if "range_is_valid (ttf_size f) 12 (ucast n * 16)" for n :: u16
  proof (rule table_search_safe [OF assms], rule ballI)
    fix i assume "i \<in> set (indices 0 (unat n))"
    then have i: "unat i < unat n" "unat i < 2 ^ 16" using indices_u16 by auto
    moreover have "12 + unat n * 16 \<le> length (ttf_data f)"
      using that assms by (simp add: range_is_valid_iff unat_count)
    ultimately show "unat i < 2 ^ 16 \<and> 28 + unat i * 16 \<le> length (ttf_data f)" by linarith
  qed
  then show ?thesis
    using assms by (auto simp: get_table_def range_is_valid_iff intro!: safe_reads safe_if safe_chain)
qed

text \<open>A character map and its size, inside of the file.\<close>

definition wf_subtable :: "u8 list \<times> u64 \<Rightarrow> bool" where
  "wf_subtable = (\<lambda>(sub, n). unat n \<le> length sub)"

lemma usable_subtable_safe:
  assumes "wf_table t"
  shows "safe wf_subtable (usable_subtable t off)"
  using assms unfolding usable_subtable_def Let_def
  by (auto simp: wf_table_def range_is_valid_iff wf_subtable_def split: option.splits
      intro!: safe_reads safe_if)

lemma cmap_search_safe:
  assumes "wf_table t"
  shows "\<forall>i \<in> set is. unat i < 2 ^ 16 \<and> 12 + unat i * 8 \<le> unat (tbl_size t) \<Longrightarrow> pred_option wf_subtable fb \<Longrightarrow>
    safe wf_subtable (cmap_search t is fb)"
proof (induction "is" arbitrary: fb)
  case Nil
  then show ?case by (cases fb) simp_all
next
  case (Cons i "is")
  have l: "unat (4 + i * 8) = 4 + unat i * 8" "12 + unat i * 8 \<le> length (tbl_data t)"
    using Cons.prems assms unat_elem [of i 8 4] by (auto simp: wf_table_def)
  have rest: "safe wf_subtable (cmap_search t is fb')" if "pred_option wf_subtable fb'" for fb'
    using Cons.IH Cons.prems(1) that by simp
  have "safe wf_subtable (case s of None \<Rightarrow> cmap_search t is fb
      | Some sub \<Rightarrow> if c then Some (Some sub) else cmap_search t is (if fb = None then Some sub else fb))"
    if "pred_option wf_subtable s" for s c
    using that rest Cons.prems(2) by (cases s) auto
  then have "safe wf_subtable (Option.bind (usable_subtable t off) (\<lambda>s. case s of None \<Rightarrow> cmap_search t is fb
      | Some sub \<Rightarrow> if c then Some (Some sub) else cmap_search t is (if fb = None then Some sub else fb)))" for off c
    using usable_subtable_safe [OF assms, of off] by (intro safe_bind) (auto simp: safe_def)
  then show ?case using l unfolding cmap_search.simps Let_def
    by (intro safe_reads) auto
qed

definition wf_font :: "ttf_font \<Rightarrow> bool" where
  "wf_font f \<longleftrightarrow>
     wf_table (glyf f) \<and> wf_table (hmtx f) \<and> wf_table (loca f) \<and> \<not> fields_refused f \<and>
     (\<exists>sub. cmap_subtable f = Some sub \<and> unat (cmap_subtable_size f) \<le> length sub) \<and>
     (\<forall>v \<in> {ascent f, descent f, line_gap f, typo_ascent f, typo_descent f, typo_line_gap f}. - 32768 \<le> v \<and> v < 32768)"

lemma select_cmap_subtable_safe:
  assumes "wf_table (cmap f)"
  shows "safe (\<lambda>f'. (\<exists>sub. cmap_subtable f' = Some sub \<and> unat (cmap_subtable_size f') \<le> length sub) \<and>
      f' = f\<lparr>cmap_subtable := cmap_subtable f', cmap_subtable_size := cmap_subtable_size f'\<rparr>) (select_cmap_subtable f)"
proof -
  have "safe wf_subtable (cmap_search (cmap f) (indices 0 (unat n)) None)"
    if "range_is_valid (tbl_size (cmap f)) 4 (ucast n * 8)" for n :: u16
  proof (rule cmap_search_safe [OF assms], rule ballI)
    fix i assume "i \<in> set (indices 0 (unat n))"
    then have i: "unat i < unat n" "unat i < 2 ^ 16" using indices_u16 by auto
    moreover have "4 + unat n * 8 \<le> unat (tbl_size (cmap f))" using that by (simp add: range_is_valid_iff unat_count)
    ultimately show "unat i < 2 ^ 16 \<and> 12 + unat i * 8 \<le> unat (tbl_size (cmap f))" by linarith
  qed simp
  moreover have "4 \<le> length (tbl_data (cmap f))" if "range_is_valid (tbl_size (cmap f)) 0 4"
    using that assms by (simp add: range_is_valid_iff wf_table_def)
  ultimately show ?thesis unfolding select_cmap_subtable_def
    by (intro safe_if safe_reads safe_chain [where P = wf_subtable]) (auto simp: wf_subtable_def)
qed

text \<open>The fields \<^verbatim>\<open>read_head_fields\<close> leaves alone, and the range of those it reads.\<close>

definition head_fields_read :: "ttf_font \<Rightarrow> ttf_font \<Rightarrow> bool" where
  "head_fields_read f f' \<longleftrightarrow> cmap f' = cmap f \<and> glyf f' = glyf f \<and> hmtx f' = hmtx f \<and> loca f' = loca f \<and>
     (\<forall>v \<in> {ascent f', descent f', line_gap f', typo_ascent f', typo_descent f', typo_line_gap f'}. - 32768 \<le> v \<and> v < 32768)"

lemma read_head_fields_runs:
  assumes "wf_table (head f)" "wf_table (hhea f)" "wf_table (maxp f)" "wf_table (os_2 f)"
    and "54 \<le> unat (tbl_size (head f))" "36 \<le> unat (tbl_size (hhea f))" "6 \<le> unat (tbl_size (maxp f))"
    and "typo_ascent f = 0" "typo_descent f = 0" "typo_line_gap f = 0"
  shows "runs (head_fields_read f) (read_head_fields f)"
proof -
  have "54 \<le> length (tbl_data (head f))" "36 \<le> length (tbl_data (hhea f))" "6 \<le> length (tbl_data (maxp f))"
      "74 \<le> tbl_size (os_2 f) \<Longrightarrow> 74 \<le> length (tbl_data (os_2 f))"
    using assms(1-7) by (auto simp: wf_table_def word_le_nat_alt)
  then show ?thesis
    using assms(8-10) unfolding read_head_fields_def Let_def
    by (intro safe_reads runs_if) (auto simp: head_fields_read_def)
qed

lemma get_table_chain:
  "unat (ttf_size f) \<le> length (ttf_data f) \<Longrightarrow> (\<And>t. wf_table t \<Longrightarrow> safe Q (g t)) \<Longrightarrow> safe Q (chain (get_table f tag) g)"
  by (rule safe_chain [OF get_table_safe])

lemma get_table_optional:
  assumes "unat (ttf_size f) \<le> length (ttf_data f)" "\<And>r. wf_table (case r of None \<Rightarrow> zero_table | Some t \<Rightarrow> t) \<Longrightarrow> safe Q (g r)"
  shows "safe Q (Option.bind (get_table f tag) g)"
proof -
  have "runs (pred_option wf_table) (get_table f tag)" using get_table_safe [OF assms(1)] by (simp add: safe_def)
  then show ?thesis by (rule safe_bind) (auto intro!: assms(2) split: option.split)
qed

lemma parse_ttf_safe:
  assumes "unat sz \<le> length data"
  shows "safe wf_font (parse_ttf data sz)"
proof -
  have f: "unat (ttf_size (new_font data sz)) \<le> length (ttf_data (new_font data sz))"
    using assms by (simp add: new_font_def)
  have sel: "safe wf_font (select_cmap_subtable f)"
    if "head_fields_read g f" "\<not> fields_refused f" "wf_table (cmap g)" "wf_table (glyf g)" "wf_table (hmtx g)" "wf_table (loca g)" for f g
  proof -
    have c: "wf_table (cmap f)" using that by (simp add: head_fields_read_def)
    show ?thesis
    proof (rule safe_mono [OF select_cmap_subtable_safe [OF c]])
      fix f' :: ttf_font
      assume a: "(\<exists>sub. cmap_subtable f' = Some sub \<and> unat (cmap_subtable_size f') \<le> length sub) \<and>
        f' = f\<lparr>cmap_subtable := cmap_subtable f', cmap_subtable_size := cmap_subtable_size f'\<rparr>"
      then obtain su n where f': "f' = f\<lparr>cmap_subtable := su, cmap_subtable_size := n\<rparr>" by blast
      show "wf_font f'" using a that unfolding f' by (auto simp: wf_font_def head_fields_read_def fields_refused_def)
    qed
  qed
  show ?thesis
    unfolding parse_ttf_def Let_def
    apply (intro safe_if safe_reads)
      apply simp_all
     apply (use assms in \<open>simp add: range_is_valid_iff\<close>)
    apply (intro impI get_table_chain [OF f] get_table_optional [OF f] safe_if safe_bind [OF read_head_fields_runs] sel)
    apply (auto simp: word_less_nat_alt new_font_def)
    done
qed

text \<open>
  The arrays of a format 4 map. Each element lies in the map when the last array does.
\<close>

definition cmap4_layout :: "u8 list \<Rightarrow> u64 \<Rightarrow> u64 \<Rightarrow> u64 \<Rightarrow> nat \<Rightarrow> bool" where
  "cmap4_layout sub starts deltas ranges n \<longleftrightarrow> n < 2 ^ 15 \<and> unat starts = 16 + 2 * n \<and>
     unat deltas = 16 + 4 * n \<and> unat ranges = 16 + 6 * n \<and> 16 + 8 * n \<le> length sub"

lemma cmap4_search_runs:
  assumes "cmap4_layout sub starts deltas ranges n" "unat sz \<le> length sub"
  shows "\<forall>i \<in> set is. unat i < n \<Longrightarrow> runs (\<lambda>g. True) (cmap4_search sub sz starts deltas ranges c is)"
proof (induction "is")
  case (Cons i "is")
  have i: "unat i < n" "unat i < 2 ^ 15" and n: "16 + 8 * n \<le> length sub" "n < 2 ^ 15"
    using Cons.prems assms(1) by (auto simp: cmap4_layout_def)
  have e: "unat (b + i * 2) = unat b + unat i * 2" if "unat b < 2 ^ 40" for b
    using unat_elem [of i 2 b] i that by simp
  have l: "unat (14 + i * 2) = 14 + unat i * 2" "unat (starts + i * 2) = 16 + 2 * n + unat i * 2"
      "unat (deltas + i * 2) = 16 + 4 * n + unat i * 2" "unat (ranges + i * 2) = 16 + 6 * n + unat i * 2"
    using assms(1) n by (subst e; simp add: cmap4_layout_def)+
  have rest: "runs (\<lambda>g. True) (cmap4_search sub sz starts deltas ranges c is)" using Cons by simp
  have "2 \<le> length (at sub off)" if "range_is_valid sz off 2" for off
    using that assms(2) by (simp add: range_is_valid_iff)
  then show ?case
    unfolding cmap4_search.simps Let_def
    by (intro safe_reads runs_if rest) (use l i n in auto)
qed simp

lemma cmap_format4_runs:
  assumes "unat sz \<le> length sub"
  shows "runs (\<lambda>g. True) (cmap_format4_glyph sub sz c)"
proof -
  have main: "runs (\<lambda>g. True) (cmap4_search sub sz (14 + ucast m * 2 + 2) (14 + ucast m * 2 + 2 + ucast m * 2)
      (14 + ucast m * 2 + 2 + ucast m * 2 + ucast m * 2) c (indices 0 (unat (ucast m :: u64))))"
    if r: "range_is_valid sz (14 + ucast m * 2 + 2 + ucast m * 2 + ucast m * 2) (ucast m * 2)" and m: "unat m < 2 ^ 15" for m :: u16
  proof -
    have e: "unat (b + ucast m * 2) = unat b + unat m * 2" if "unat b < 2 ^ 40" for b :: u64
      using unat_elem [of "ucast m" 2 b] m that by simp
    have a: "unat (14 + ucast m * 2 + 2 :: u64) = 16 + 2 * unat m"
    proof -
      have "14 + ucast m * 2 + 2 = 16 + (ucast m * 2 :: u64)" by simp
      then show ?thesis using e [of 16] by simp
    qed
    have b: "unat (14 + ucast m * 2 + 2 + ucast m * 2 :: u64) = 16 + 4 * unat m" using a m by (subst e) simp_all
    have c: "unat (14 + ucast m * 2 + 2 + ucast m * 2 + ucast m * 2 :: u64) = 16 + 6 * unat m" using b m by (subst e) simp_all
    have "16 + 8 * unat m \<le> length sub"
      using r assms c e [of 0] by (simp add: range_is_valid_iff)
    then have "cmap4_layout sub (14 + ucast m * 2 + 2) (14 + ucast m * 2 + 2 + ucast m * 2)
        (14 + ucast m * 2 + 2 + ucast m * 2 + ucast m * 2) (unat m)"
      using a b c m by (simp add: cmap4_layout_def)
    then show ?thesis using assms indices_u16 by (intro cmap4_search_runs) auto
  qed
  have "unat (m div 2) < 2 ^ 15" for m :: u16
    using unat_u16 [of m] by (simp add: unat_div)
  then show ?thesis
    unfolding cmap_format4_glyph_def Let_def
    by (intro runs_if safe_reads main) (use assms in \<open>auto simp: word_less_nat_alt\<close>)
qed

lemma cmap12_search_runs:
  "\<forall>j < n. unat i + j < 2 ^ 32 \<and> 28 + (unat i + j) * 12 \<le> length sub \<Longrightarrow> runs (\<lambda>g. True) (cmap12_search sub c i n)"
proof (induction n arbitrary: i)
  case (Suc n)
  have i: "unat i < 2 ^ 32" "28 + unat i * 12 \<le> length sub" using Suc.prems by auto
  then have l: "unat (16 + i * 12) = 16 + unat i * 12" using unat_elem [of i 12 16] by simp
  have "unat (i + 1) = unat i + 1" using i(1) by (simp add: unat_word_ariths)
  then have rest: "runs (\<lambda>g. True) (cmap12_search sub c (i + 1) n)"
    using Suc.prems by (intro Suc.IH allI) (use Suc.prems in \<open>auto dest: spec [of _ "Suc _"]\<close>)
  show ?case
    unfolding cmap12_search.simps Let_def
    by (intro safe_reads runs_if rest) (use l i in auto)
qed simp

lemma cmap_format12_runs:
  assumes "unat sz \<le> length sub"
  shows "runs (\<lambda>g. True) (cmap_format12_glyph sub sz c)"
proof -
  have "runs (\<lambda>g. True) (cmap12_search sub c 0 (unat n))" if "range_is_valid sz 16 (ucast n * 12)" for n :: u32
  proof (rule cmap12_search_runs, intro allI impI)
    fix j assume j: "j < unat n"
    have "unat (ucast n * 12 :: u64) = unat n * 12" using unat_elem [of "ucast n" 12 0] unat_u32 [of n] by simp
    then have "16 + unat n * 12 \<le> length sub" using that assms by (simp add: range_is_valid_iff)
    then show "unat (0 :: u64) + j < 2 ^ 32 \<and> 28 + (unat (0 :: u64) + j) * 12 \<le> length sub"
      using j unat_u32 [of n] by auto
  qed
  then show ?thesis
    unfolding cmap_format12_glyph_def
    by (intro runs_if safe_reads) (use assms in \<open>auto simp: word_less_nat_alt\<close>)
qed

lemma glyph_for_codepoint_runs:
  assumes "wf_font f"
  shows "runs (\<lambda>g. True) (glyph_for_codepoint f c)"
proof -
  obtain sub where sub: "cmap_subtable f = Some sub" "unat (cmap_subtable_size f) \<le> length sub"
    using assms by (auto simp: wf_font_def)
  show ?thesis
    unfolding glyph_for_codepoint_def sub(1) option.case
    by (intro runs_if safe_reads cmap_format4_runs cmap_format12_runs) (use sub(2) in \<open>auto simp: word_less_nat_alt\<close>)
qed

lemma wf_font_metrics:
  assumes "wf_font f"
  shows "0 < unat (number_of_hmetrics f)" "unat (number_of_hmetrics f) * 4 \<le> length (tbl_data (hmtx f))"
    "(unat (num_glyphs f) + 1) * (if index_to_loc_format f = 0 then 2 else 4) \<le> length (tbl_data (loca f))"
proof -
  have s: "unat (ucast (number_of_hmetrics f) * 4 :: u64) = unat (number_of_hmetrics f) * 4" by (simp add: unat_count)
  have g: "unat (ucast (num_glyphs f) + 1 :: u64) = unat (num_glyphs f) + 1"
    using unat_u16 [of "num_glyphs f"] by (simp add: unat_word_ariths)
  then have l: "unat ((ucast (num_glyphs f) + 1) * k :: u64) = (unat (num_glyphs f) + 1) * unat k" if "unat k \<le> 4" for k
    using unat_elem [of "ucast (num_glyphs f) + 1" k 0] unat_u16 [of "num_glyphs f"] that by simp
  show "0 < unat (number_of_hmetrics f)" using assms by (simp add: wf_font_def fields_refused_def unat_gt_0)
  show "unat (number_of_hmetrics f) * 4 \<le> length (tbl_data (hmtx f))"
    using assms s by (simp add: wf_font_def fields_refused_def wf_table_def word_less_nat_alt)
  show "(unat (num_glyphs f) + 1) * (if index_to_loc_format f = 0 then 2 else 4) \<le> length (tbl_data (loca f))"
    using assms l [of 2] l [of 4] by (auto simp: wf_font_def fields_refused_def wf_table_def word_less_nat_alt split: if_splits)
qed

lemma glyph_bounds_safe:
  assumes "wf_font f"
  shows "safe (\<lambda>(off, n). unat off + unat n \<le> length (tbl_data (glyf f))) (glyph_bounds f g)"
proof -
  note loca = wf_font_metrics(3) [OF assms]
  have e: "unat (ucast g * 2 :: u64) = unat g * 2" "unat (ucast g * 4 :: u64) = unat g * 4"
      "unat (2 + ucast g * 2 :: u64) = 2 + unat g * 2" "unat (4 + ucast g * 4 :: u64) = 4 + unat g * 4"
    using unat_elem [of "ucast g" 2 0] unat_elem [of "ucast g" 4 0] unat_elem [of "ucast g" 2 2] unat_elem [of "ucast g" 4 4]
      unat_u16 [of g] by simp_all
  have fin: "safe (\<lambda>(off, n). unat off + unat n \<le> length (tbl_data (glyf f)))
      (if stop < start \<or> \<not> range_is_valid (tbl_size (glyf f)) start (stop - start) then Some None
       else Some (Some (start, stop - start)))" for start stop
    using assms by (auto simp: wf_font_def wf_table_def range_is_valid_iff)
  have a: "runs (\<lambda>x. True) (if index_to_loc_format f = 0 then do {
            let loca_offset = ucast g * 2;
            a \<leftarrow> read_u16 (at (tbl_data (loca f)) loca_offset);
            b \<leftarrow> read_u16 (at (tbl_data (loca f)) (loca_offset + 2));
            Some (ucast a * 2, ucast b * 2 :: u64) }
          else do {
            let loca_offset = ucast g * 4;
            a \<leftarrow> read_u32 (at (tbl_data (loca f)) loca_offset);
            b \<leftarrow> read_u32 (at (tbl_data (loca f)) (loca_offset + 4));
            Some (ucast a, ucast b) })" if "g < num_glyphs f"
    unfolding Let_def add.commute [of _ 2] add.commute [of _ 4]
    by (intro runs_if safe_reads) (use that loca e in \<open>auto simp: word_less_nat_alt\<close>)
  show ?thesis unfolding glyph_bounds_def
    by (rule safe_if, simp, rule safe_bind [OF a]) (use fin in \<open>auto simp: not_le\<close>)
qed

lemma glyph_advance_runs:
  assumes "wf_font f"
  shows "runs (\<lambda>v. - 32768 \<le> v \<and> v < 32768) (glyph_advance f g)"
proof -
  note m = wf_font_metrics(1,2) [OF assms]
  have e: "unat (ucast g * 4 :: u64) = unat g * 4" by (simp add: unat_count)
  have l: "unat (ucast (number_of_hmetrics f) - 1 :: u64) = unat (number_of_hmetrics f) - 1"
    using m(1) by (simp add: unat_minus_one unat_gt_0 unat_eq_0 flip: unat_gt_0)
  then have "unat ((ucast (number_of_hmetrics f) - 1) * 4 :: u64) = (unat (number_of_hmetrics f) - 1) * 4"
    using unat_elem [of "ucast (number_of_hmetrics f) - 1" 4 0] unat_u16 [of "number_of_hmetrics f"] by simp
  then show ?thesis unfolding glyph_advance_def
    by (intro runs_if read_s16_runs) (use m e in \<open>auto simp: word_less_nat_alt\<close>)
qed

section \<open>What a character map means\<close>

text \<open>
  Both formats are lists of segments, each with its first and last character. The loops stop at the first
  segment that ends behind the character; for segments in ascending order this is the lookup of the segment
  the character lies in.
\<close>

fun first_hit :: "('a \<Rightarrow> u32) \<Rightarrow> ('a \<Rightarrow> u32) \<Rightarrow> ('a \<Rightarrow> u16) \<Rightarrow> u32 \<Rightarrow> 'a list \<Rightarrow> u16" where
  "first_hit start stop glyph c [] = 0"
| "first_hit start stop glyph c (i # is) =
     (if c < start i then 0 else if stop i < c then first_hit start stop glyph c is else glyph i)"

definition ascending :: "('a \<Rightarrow> u32) \<Rightarrow> ('a \<Rightarrow> u32) \<Rightarrow> 'a list \<Rightarrow> bool" where
  "ascending start stop is \<longleftrightarrow> (\<forall>i \<in> set is. start i \<le> stop i) \<and> sorted_wrt (\<lambda>i j. stop i < start j) is"

definition segment_glyph :: "('a \<Rightarrow> u32) \<Rightarrow> ('a \<Rightarrow> u32) \<Rightarrow> ('a \<Rightarrow> u16) \<Rightarrow> u32 \<Rightarrow> 'a list \<Rightarrow> u16" where
  "segment_glyph start stop glyph c is =
     (case List.find (\<lambda>i. start i \<le> c \<and> c \<le> stop i) is of None \<Rightarrow> 0 | Some i \<Rightarrow> glyph i)"

lemma first_hit_segment:
  "ascending start stop is \<Longrightarrow> first_hit start stop glyph c is = segment_glyph start stop glyph c is"
proof (induction "is")
  case (Cons i "is")
  have "List.find (\<lambda>i. start i \<le> c \<and> c \<le> stop i) is = None" if "c < start i"
  proof -
    have "c < start j" if "j \<in> set is" for j
      using that \<open>c < start i\<close> Cons.prems by (fastforce simp: ascending_def)
    then show ?thesis by (fastforce simp: find_None_iff)
  qed
  then show ?case using Cons by (auto simp: ascending_def segment_glyph_def)
qed (simp add: segment_glyph_def)

text \<open>The fields of the maps, as numbers of the file.\<close>

definition u16_at :: "u8 list \<Rightarrow> nat \<Rightarrow> u16" where
  "u16_at p off = the (read_u16 (drop off p))"

definition u32_at :: "u8 list \<Rightarrow> nat \<Rightarrow> u32" where
  "u32_at p off = the (read_u32 (drop off p))"

lemma read_u16_at: "unat off + 2 \<le> length p \<Longrightarrow> read_u16 (at p off) = Some (u16_at p (unat off))"
  by (simp add: u16_at_def at_def read_u16_def getb_def)

lemma read_u32_at: "unat off + 4 \<le> length p \<Longrightarrow> read_u32 (at p off) = Some (u32_at p (unat off))"
  by (simp add: u32_at_def at_def read_u32_def getb_def)

definition group_start :: "u8 list \<Rightarrow> nat \<Rightarrow> u32" where
  "group_start sub i = u32_at sub (16 + 12 * i)"

definition group_stop :: "u8 list \<Rightarrow> nat \<Rightarrow> u32" where
  "group_stop sub i = u32_at sub (20 + 12 * i)"

definition group_glyph :: "u8 list \<Rightarrow> u32 \<Rightarrow> nat \<Rightarrow> u16" where
  "group_glyph sub c i = (let g = u32_at sub (24 + 12 * i) + c - group_start sub i in if g \<le> 0xffff then ucast g else 0)"

lemma cmap12_search_hit:
  "\<forall>j < n. i + j < 2 ^ 32 \<and> 28 + (i + j) * 12 \<le> length sub \<Longrightarrow>
   cmap12_search sub c (of_nat i) n = Some (first_hit (group_start sub) (group_stop sub) (group_glyph sub c) c [i..<i + n])"
proof (induction n arbitrary: i)
  case (Suc n)
  have i: "i < 2 ^ 32" "28 + i * 12 \<le> length sub" using Suc.prems by auto
  have u: "unat (of_nat i :: u64) = i" using i(1) by (simp add: unat_of_nat)
  then have l: "unat (16 + of_nat i * 12 :: u64) = 16 + i * 12" using unat_elem [of "of_nat i" 12 16] i(1) by simp
  have r: "read_u32 (at sub (16 + of_nat i * 12)) = Some (group_start sub i)"
      "read_u32 (at (at sub (16 + of_nat i * 12)) 4) = Some (group_stop sub i)"
      "read_u32 (at (at sub (16 + of_nat i * 12)) 8) = Some (u32_at sub (24 + 12 * i))"
    using i l by (simp_all add: read_u32_at group_start_def group_stop_def)
      (simp_all add: u32_at_def at_def read_u32_def getb_def algebra_simps)
  have "cmap12_search sub c (of_nat i + 1) n =
      Some (first_hit (group_start sub) (group_stop sub) (group_glyph sub c) c [Suc i..<Suc i + n])"
  proof -
    have "\<forall>j < n. Suc i + j < 2 ^ 32 \<and> 28 + (Suc i + j) * 12 \<le> length sub"
      using Suc.prems by (metis Suc_less_eq add_Suc_shift)
    from Suc.IH [OF this] show ?thesis by (simp add: add.commute)
  qed
  moreover have "[i..<i + Suc n] = i # [Suc i..<Suc i + n]" by (simp add: upt_conv_Cons)
  moreover have "group_glyph sub c i = (let g = u32_at sub (24 + 12 * i) + c - group_start sub i in if g \<le> 0xffff then ucast g else 0)"
    by (simp add: group_glyph_def)
  ultimately show ?case using r by (auto simp: Let_def simp del: upt_Suc)
qed simp

definition segment_start :: "u8 list \<Rightarrow> nat \<Rightarrow> nat \<Rightarrow> u32" where
  "segment_start sub n i = ucast (u16_at sub (16 + 2 * n + 2 * i))"

definition segment_stop :: "u8 list \<Rightarrow> nat \<Rightarrow> u32" where
  "segment_stop sub i = ucast (u16_at sub (14 + 2 * i))"

text \<open>
  The glyph of a character in a segment: its distance in the glyph array that the range offset points to, or the
  character itself, plus the delta of the segment.
\<close>

definition range_glyph :: "u8 list \<Rightarrow> u64 \<Rightarrow> nat \<Rightarrow> u32 \<Rightarrow> nat \<Rightarrow> u16" where
  "range_glyph sub sz n c i =
     (let delta = u16_at sub (16 + 4 * n + 2 * i); r = u16_at sub (16 + 6 * n + 2 * i);
          off = 16 + 6 * n + 2 * i + unat r + 2 * (unat c - unat (segment_start sub n i))
      in if r = 0 then ucast c + delta
         else if unat sz < off + 2 \<or> u16_at sub off = 0 then 0 else u16_at sub off + delta)"

lemma ucast_add_scast: "ucast (c + scast d) = ucast c + (d :: u16)" for c :: u32
proof -
  have "ucast (a + b) = (ucast a + ucast b :: u16)" for a b :: u32
  proof transfer
    fix a b :: int
    have "take_bit 16 (take_bit 32 a + take_bit 32 b) =
        take_bit 16 (take_bit 16 (take_bit 32 a) + take_bit 16 (take_bit 32 b))" by (rule take_bit_add [symmetric])
    then show "take_bit LENGTH(16) (take_bit LENGTH(32) (a + b)) =
        take_bit LENGTH(16) (take_bit LENGTH(32) a + take_bit LENGTH(32) b)" by (simp add: take_bit_add)
  qed
  moreover have "ucast (scast d :: u32) = d"
    by transfer (simp add: take_bit_signed_take_bit)
  ultimately show ?thesis by simp
qed

lemma cmap4_search_hit:
  assumes "cmap4_layout sub starts deltas ranges n" "unat sz \<le> length sub"
  shows "\<forall>i \<in> set is. i < n \<Longrightarrow> cmap4_search sub sz starts deltas ranges c (map of_nat is) =
    Some (first_hit (segment_start sub n) (segment_stop sub) (range_glyph sub sz n c) c is)"
proof (induction "is")
  case (Cons i "is")
  have i: "i < n" "i < 2 ^ 15" and n: "16 + 8 * n \<le> length sub" "n < 2 ^ 15"
    using Cons.prems assms(1) by (auto simp: cmap4_layout_def)
  have u: "unat (of_nat i :: u64) = i" using i(2) by (simp add: unat_of_nat)
  have e: "unat (b + of_nat i * 2) = unat b + i * 2" if "unat b < 2 ^ 40" for b :: u64
    using unat_elem [of "of_nat i" 2 b] i(2) u that by simp
  have l: "unat (14 + of_nat i * 2 :: u64) = 14 + 2 * i" "unat (starts + of_nat i * 2) = 16 + 2 * n + 2 * i"
      "unat (deltas + of_nat i * 2) = 16 + 4 * n + 2 * i" "unat (ranges + of_nat i * 2) = 16 + 6 * n + 2 * i"
    using assms(1) n by (subst e; simp add: cmap4_layout_def)+
  let ?s = "u16_at sub (16 + 2 * n + 2 * i)" and ?r = "u16_at sub (16 + 6 * n + 2 * i)"
  let ?off = "ranges + of_nat i * 2 + ucast ?r + (ucast c - ucast ?s) * 2"
  have off: "unat ?off = 16 + 6 * n + 2 * i + unat ?r + 2 * (unat c - unat (segment_start sub n i))" if "segment_start sub n i \<le> c"
  proof -
    have s: "unat (segment_start sub n i) = unat ?s"
      using unat_u16 [of ?s] by (simp add: segment_start_def unsigned_ucast_eq take_bit_nat_eq_self)
    then have "unat ?s \<le> unat c" using that by (simp add: word_le_nat_alt)
    then have d: "unat (ucast c - ucast ?s :: u64) = unat c - unat ?s" by (simp add: unat_sub word_le_nat_alt)
    have b: "unat (ranges + of_nat i * 2 + ucast ?r) = 16 + 6 * n + 2 * i + unat ?r"
      using l(4) n i unat_u16 [of ?r] by (subst unat_word_ariths(1)) simp
    have "unat (ranges + of_nat i * 2 + ucast ?r) < 2 ^ 40" using b n i unat_u16 [of ?r] by simp
    moreover have "unat (ucast c - ucast ?s :: u64) < 2 ^ 32" using d unat_u32 [of c] by simp
    ultimately show ?thesis using unat_elem [of "ucast c - ucast ?s" 2 "ranges + of_nat i * 2 + ucast ?r"] b d s by simp
  qed
  have v: "(if ?r = 0 then Some (ucast (c + scast (u16_at sub (16 + 4 * n + 2 * i))))
      else if \<not> range_is_valid sz ?off 2 then Some 0
      else do { glyph \<leftarrow> read_u16 (at sub ?off); if glyph = 0 then Some 0 else Some (glyph + u16_at sub (16 + 4 * n + 2 * i)) })
      = Some (range_glyph sub sz n c i)" if "segment_start sub n i \<le> c"
    using assms(2) by (auto simp: range_glyph_def Let_def range_is_valid_iff off [OF that] ucast_add_scast read_u16_at
        simp del: left_diff_distrib_numeral)
  have reads: "read_u16 (at sub (14 + of_nat i * 2)) = Some (u16_at sub (14 + 2 * i))"
      "read_u16 (at sub (starts + of_nat i * 2)) = Some ?s"
      "read_u16 (at sub (deltas + of_nat i * 2)) = Some (u16_at sub (16 + 4 * n + 2 * i))"
      "read_u16 (at sub (ranges + of_nat i * 2)) = Some ?r"
    using l i n by (subst read_u16_at; simp)+
  show ?case
  proof (cases "segment_start sub n i \<le> c \<and> c \<le> segment_stop sub i")
    case True
    then have "\<not> c < ucast ?s" "\<not> ucast (u16_at sub (14 + 2 * i)) < c"
      by (simp_all add: segment_start_def segment_stop_def not_less)
    then have "cmap4_search sub sz starts deltas ranges c (map of_nat (i # is)) = Some (range_glyph sub sz n c i)"
      using v True by (simp only: list.map cmap4_search.simps Let_def reads Option.bind.simps if_False)
    then show ?thesis using True by (simp add: not_less [symmetric])
  next
    case False
    then show ?thesis using reads Cons by (auto simp: segment_start_def segment_stop_def)
  qed
qed simp

lemma glyph_for_codepoint_12:
  assumes "wf_font f" "cmap_subtable f = Some sub" "u16_at sub 0 = 12" "n = unat (u32_at sub 12)"
    and "16 + 12 * n \<le> unat (cmap_subtable_size f)"
  shows "glyph_for_codepoint f c = Some (first_hit (group_start sub) (group_stop sub) (group_glyph sub c) c [0..<n])"
proof -
  have sz: "unat (cmap_subtable_size f) \<le> length sub" using assms(1,2) by (simp add: wf_font_def)
  have r: "read_u16 sub = Some 12" "read_u32 (at sub 12) = Some (u32_at sub 12)"
    using read_u16_at [of 0 sub] read_u32_at [of 12 sub] assms(3,5) sz by (simp_all add: at_def)
  have "unat (ucast (u32_at sub 12) * 12 :: u64) = n * 12"
    using unat_elem [of "ucast (u32_at sub 12)" 12 0] unat_u32 [of "u32_at sub 12"] assms(4) by simp
  then have v: "range_is_valid (cmap_subtable_size f) 16 (ucast (u32_at sub 12) * 12)"
    using assms(5) by (simp add: range_is_valid_iff)
  have "\<forall>j < n. 0 + j < 2 ^ 32 \<and> 28 + (0 + j) * 12 \<le> length sub"
    using assms(4,5) sz unat_u32 [of "u32_at sub 12"] by auto
  from cmap12_search_hit [OF this] show ?thesis
    using assms(2,4,5) r v
    by (simp add: glyph_for_codepoint_def cmap_format12_glyph_def word_less_nat_alt)
qed

lemma glyph_for_codepoint_4:
  assumes "wf_font f" "cmap_subtable f = Some sub" "u16_at sub 0 = 4" "n = unat (u16_at sub 6) div 2"
    and "16 + 8 * n \<le> unat (cmap_subtable_size f)" "c \<le> 0xffff"
  shows "glyph_for_codepoint f c =
    Some (first_hit (segment_start sub n) (segment_stop sub) (range_glyph sub (cmap_subtable_size f) n c) c [0..<n])"
proof -
  have sz: "unat (cmap_subtable_size f) \<le> length sub" using assms(1,2) by (simp add: wf_font_def)
  have r: "read_u16 sub = Some 4" "read_u16 (at sub 6) = Some (u16_at sub 6)"
    using read_u16_at [of 0 sub] read_u16_at [of 6 sub] assms(3,5) sz by (simp_all add: at_def)
  define m where "m = (ucast (u16_at sub 6 div 2) :: u64)"
  have m: "unat m = n" "n < 2 ^ 15" using assms(4) unat_u16 [of "u16_at sub 6"] by (simp_all add: m_def unat_div)
  have e: "unat (b + m * 2) = unat b + n * 2" if "unat b < 2 ^ 40" for b :: u64
    using unat_elem [of m 2 b] m that by simp
  have a: "unat (14 + m * 2 + 2) = 16 + 2 * n"
  proof -
    have "14 + m * 2 + 2 = 16 + m * 2" by simp
    then show ?thesis using e [of 16] by simp
  qed
  have b: "unat (14 + m * 2 + 2 + m * 2) = 16 + 4 * n" using a m by (subst e) simp_all
  have d: "unat (14 + m * 2 + 2 + m * 2 + m * 2) = 16 + 6 * n" using b m by (subst e) simp_all
  have lay: "cmap4_layout sub (14 + m * 2 + 2) (14 + m * 2 + 2 + m * 2) (14 + m * 2 + 2 + m * 2 + m * 2) n"
    using a b d m assms(5) sz by (simp add: cmap4_layout_def)
  have v: "range_is_valid (cmap_subtable_size f) (14 + m * 2 + 2 + m * 2 + m * 2) (m * 2)"
    using assms(5) d e [of 0] by (simp add: range_is_valid_iff)
  have "cmap4_search sub (cmap_subtable_size f) (14 + m * 2 + 2) (14 + m * 2 + 2 + m * 2) (14 + m * 2 + 2 + m * 2 + m * 2) c
      (indices 0 (unat m)) =
    Some (first_hit (segment_start sub n) (segment_stop sub) (range_glyph sub (cmap_subtable_size f) n c) c [0..<n])"
    unfolding indices_def m(1) by (rule cmap4_search_hit [OF lay sz]) simp
  then show ?thesis
    using assms(2,5,6) r v
    unfolding glyph_for_codepoint_def cmap_format4_glyph_def Let_def
    by (simp only: option.case r Option.bind.simps flip: m_def) (simp add: word_less_nat_alt word_le_nat_alt not_less)
qed

end
