(* ===== verification/Font_Outline.thy ===== *)
theory Font_Outline
  imports Font_Tables
begin

text \<open>
  The outlines of glyphs, the second part of \<^verbatim>\<open>drivers/font_ttf.c\<close>: simple glyphs, whose contours are
  packed into flags and coordinate differences, and composite glyphs, which place other glyphs.

  Coordinates are mathematical integers; every sum of the code that is computed in 32 bits is checked to fit,
  so that \<^term>\<open>None\<close> stands for a signed overflow too. The arrays of \<^verbatim>\<open>struct glyph_outline\<close> and of the
  loaders have their sizes, and every access to them is checked. Indices into these arrays are natural numbers.
\<close>

section \<open>Definitions\<close>

abbreviation ARG_1_AND_2_ARE_WORDS :: u16 where "ARG_1_AND_2_ARE_WORDS \<equiv> 0x001"
abbreviation ARGS_ARE_XY_VALUES :: u16 where "ARGS_ARE_XY_VALUES \<equiv> 0x002"
abbreviation WE_HAVE_A_SCALE :: u16 where "WE_HAVE_A_SCALE \<equiv> 0x008"
abbreviation MORE_COMPONENTS :: u16 where "MORE_COMPONENTS \<equiv> 0x020"
abbreviation WE_HAVE_AN_X_AND_Y_SCALE :: u16 where "WE_HAVE_AN_X_AND_Y_SCALE \<equiv> 0x040"
abbreviation WE_HAVE_A_TWO_BY_TWO :: u16 where "WE_HAVE_A_TWO_BY_TWO \<equiv> 0x080"
abbreviation WE_HAVE_INSTRUCTIONS :: u16 where "WE_HAVE_INSTRUCTIONS \<equiv> 0x100"

abbreviation GLYPH_ON_CURVE :: u8 where "GLYPH_ON_CURVE \<equiv> 0x01"
abbreviation GLYPH_X_SHORT_VECTOR :: u8 where "GLYPH_X_SHORT_VECTOR \<equiv> 0x02"
abbreviation GLYPH_Y_SHORT_VECTOR :: u8 where "GLYPH_Y_SHORT_VECTOR \<equiv> 0x04"
abbreviation GLYPH_REPEAT_FLAG :: u8 where "GLYPH_REPEAT_FLAG \<equiv> 0x08"
abbreviation GLYPH_X_IS_SAME_OR_POSITIVE :: u8 where "GLYPH_X_IS_SAME_OR_POSITIVE \<equiv> 0x10"
abbreviation GLYPH_Y_IS_SAME_OR_POSITIVE :: u8 where "GLYPH_Y_IS_SAME_OR_POSITIVE \<equiv> 0x20"

abbreviation MAX_GLYPH_POINTS :: nat where "MAX_GLYPH_POINTS \<equiv> 384"
abbreviation MAX_GLYPH_CONTOURS :: nat where "MAX_GLYPH_CONTOURS \<equiv> 64"
abbreviation MAX_COMPONENT_DEPTH :: nat where "MAX_COMPONENT_DEPTH \<equiv> 8"

text \<open>The value of an \<^verbatim>\<open>int32_t\<close> expression, and the conversion to \<^verbatim>\<open>int16_t\<close>.\<close>

definition i32 :: "int \<Rightarrow> int option" where
  "i32 v = (if - (2 ^ 31) \<le> v \<and> v < 2 ^ 31 then Some v else None)"

definition to_s16 :: "int \<Rightarrow> int" where
  "to_s16 v = signed_take_bit 15 v"

record glyph_point =
  pt_x :: int
  pt_y :: int
  on_curve :: bool

record glyph_outline =
  points :: "glyph_point list"
  contours :: "u16 list"
  point_count :: nat
  contour_count :: nat
  x_min :: int
  y_min :: int
  x_max :: int
  y_max :: int
  advance_width :: int
  has_bounds :: bool

definition zero_point :: glyph_point where
  "zero_point = \<lparr>pt_x = 0, pt_y = 0, on_curve = False\<rparr>"

definition zero_outline :: glyph_outline where
  "zero_outline = \<lparr>points = replicate MAX_GLYPH_POINTS zero_point, contours = replicate MAX_GLYPH_CONTOURS 0,
     point_count = 0, contour_count = 0, x_min = 0, y_min = 0, x_max = 0, y_max = 0, advance_width = 0,
     has_bounds = False\<rparr>"

definition append_point :: "glyph_outline \<Rightarrow> int \<Rightarrow> int \<Rightarrow> bool \<Rightarrow> glyph_outline option option" where
  "append_point outline x y curve =
     (if point_count outline \<ge> MAX_GLYPH_POINTS then Some None
      else do {
        pts \<leftarrow> setb (points outline) (point_count outline) \<lparr>pt_x = x, pt_y = y, on_curve = curve\<rparr>;
        Some (Some (outline\<lparr>points := pts, point_count := point_count outline + 1\<rparr>)) })"

fun append_points :: "glyph_outline \<Rightarrow> glyph_outline \<Rightarrow> int \<Rightarrow> int \<Rightarrow> nat list \<Rightarrow> glyph_outline option option" where
  "append_points dest src dx dy [] = Some (Some dest)"
| "append_points dest src dx dy (i # is) = do {
     p \<leftarrow> getb (points src) i;
     x \<leftarrow> i32 (pt_x p + dx);
     y \<leftarrow> i32 (pt_y p + dy);
     chain (append_point dest x y (on_curve p)) (\<lambda>dest'. append_points dest' src dx dy is) }"

fun append_contours :: "nat \<Rightarrow> glyph_outline \<Rightarrow> glyph_outline \<Rightarrow> nat list \<Rightarrow> glyph_outline option" where
  "append_contours point_base dest src [] = Some dest"
| "append_contours point_base dest src (i # is) = do {
     c \<leftarrow> getb (contours src) i;
     cs \<leftarrow> setb (contours dest) (contour_count dest) (of_nat (point_base + unat c));
     append_contours point_base (dest\<lparr>contours := cs, contour_count := contour_count dest + 1\<rparr>) src is }"

definition append_bounds :: "glyph_outline \<Rightarrow> glyph_outline \<Rightarrow> int \<Rightarrow> int \<Rightarrow> glyph_outline option" where
  "append_bounds dest src dx dy =
     (if \<not> has_bounds src then Some dest
      else do {
        x0 \<leftarrow> i32 (x_min src + dx);
        x1 \<leftarrow> i32 (x_max src + dx);
        y0 \<leftarrow> i32 (y_min src + dy);
        y1 \<leftarrow> i32 (y_max src + dy);
        if \<not> has_bounds dest then
          Some (dest\<lparr>x_min := to_s16 x0, x_max := to_s16 x1, y_min := to_s16 y0, y_max := to_s16 y1, has_bounds := True\<rparr>)
        else
          Some (dest\<lparr>x_min := (if x0 < x_min dest then to_s16 x0 else x_min dest),
            x_max := (if x1 > x_max dest then to_s16 x1 else x_max dest),
            y_min := (if y0 < y_min dest then to_s16 y0 else y_min dest),
            y_max := (if y1 > y_max dest then to_s16 y1 else y_max dest)\<rparr>) })"

definition append_outline :: "glyph_outline \<Rightarrow> glyph_outline \<Rightarrow> int \<Rightarrow> int \<Rightarrow> glyph_outline option option" where
  "append_outline dest src dx dy =
     (if point_count dest + point_count src > MAX_GLYPH_POINTS \<or>
         contour_count dest + contour_count src > MAX_GLYPH_CONTOURS then Some None
      else chain (append_points dest src dx dy [0..<point_count src]) (\<lambda>dest1. do {
        dest2 \<leftarrow> append_contours (point_count dest) dest1 src [0..<contour_count src];
        dest3 \<leftarrow> append_bounds dest2 src dx dy;
        Some (Some dest3) }))"

subsection \<open>Simple glyphs\<close>

definition read_bounds :: "ttf_font \<Rightarrow> u16 \<Rightarrow> u8 list \<Rightarrow> glyph_outline \<Rightarrow> glyph_outline option" where
  "read_bounds font glyph glyph_data outline = do {
     x0 \<leftarrow> read_s16 (at glyph_data 2);
     y0 \<leftarrow> read_s16 (at glyph_data 4);
     x1 \<leftarrow> read_s16 (at glyph_data 6);
     y1 \<leftarrow> read_s16 (at glyph_data 8);
     advance \<leftarrow> glyph_advance font glyph;
     Some (outline\<lparr>x_min := x0, y_min := y0, x_max := x1, y_max := y1, advance_width := advance, has_bounds := True\<rparr>) }"

text \<open>The array \<^verbatim>\<open>end_points\<close> and \<^verbatim>\<open>last_point\<close>.\<close>

fun end_points_loop :: "u8 list \<Rightarrow> u64 \<Rightarrow> nat list \<Rightarrow> u16 list \<Rightarrow> u16 \<Rightarrow> (u16 list \<times> u16) option option" where
  "end_points_loop glyph_data cursor [] end_points last_point = Some (Some (end_points, last_point))"
| "end_points_loop glyph_data cursor (i # is) end_points last_point = do {
     e \<leftarrow> read_u16 (at glyph_data (cursor + of_nat i * 2));
     end_points' \<leftarrow> setb end_points i e;
     disordered \<leftarrow> (if i \<noteq> 0 then do { previous \<leftarrow> getb end_points' (i - 1); Some (e \<le> previous) } else Some False);
     if disordered then Some None
     else end_points_loop glyph_data cursor is end_points' e }"

text \<open>The loop over \<^verbatim>\<open>repeat\<close>: the flags, the index and what is left of the count.\<close>

fun repeat_flag :: "u8 \<Rightarrow> nat \<Rightarrow> nat \<Rightarrow> u8 list \<Rightarrow> nat \<Rightarrow> (u8 list \<times> nat \<times> nat) option" where
  "repeat_flag flag count 0 flags flag_index = Some (flags, flag_index, 0)"
| "repeat_flag flag count (Suc r) flags flag_index =
     (if flag_index < count then do {
        flags' \<leftarrow> setb flags flag_index flag;
        repeat_flag flag count r flags' (flag_index + 1) }
      else Some (flags, flag_index, Suc r))"

text \<open>One iteration of the loop that unpacks the flags.\<close>

definition read_flag :: "u8 list \<Rightarrow> u64 \<Rightarrow> nat \<Rightarrow> u8 list \<Rightarrow> nat \<Rightarrow> u64 \<Rightarrow> (u8 list \<times> nat \<times> u64) option option" where
  "read_flag glyph_data glyph_size count flags flag_index cursor =
     (if \<not> range_is_valid glyph_size cursor 1 then Some None
      else do {
        flag \<leftarrow> getb (at glyph_data cursor) 0;
        flags1 \<leftarrow> setb flags flag_index flag;
        if flag AND GLYPH_REPEAT_FLAG \<noteq> 0 then
          if \<not> range_is_valid glyph_size (cursor + 1) 1 then Some None
          else do {
            reps \<leftarrow> getb (at glyph_data (cursor + 1)) 0;
            (flags2, flag_index2, left) \<leftarrow> repeat_flag flag count (unat reps) flags1 (flag_index + 1);
            if left \<noteq> 0 then Some None else Some (Some (flags2, flag_index2, cursor + 2)) }
        else Some (Some (flags1, flag_index + 1, cursor + 1)) })"

lemma repeat_flag_index:
  "repeat_flag flag n r flags i = Some (flags', i', r') \<Longrightarrow> i \<le> i'"
  by (induction flag n r flags i rule: repeat_flag.induct) (auto split: if_splits bind_splits)

lemma read_flag_index:
  "read_flag g sz n flags i cursor = Some (Some (flags', i', cursor')) \<Longrightarrow> i < i'"
  by (auto simp: read_flag_def split: if_splits bind_splits dest!: repeat_flag_index)

function read_flags :: "u8 list \<Rightarrow> u64 \<Rightarrow> nat \<Rightarrow> u8 list \<Rightarrow> nat \<Rightarrow> u64 \<Rightarrow> (u8 list \<times> u64) option option" where
  "read_flags glyph_data glyph_size count flags flag_index cursor =
     (if flag_index < count then
        chain (read_flag glyph_data glyph_size count flags flag_index cursor) (\<lambda>(flags', flag_index', cursor').
          read_flags glyph_data glyph_size count flags' flag_index' cursor')
      else Some (Some (flags, cursor)))"
  by pat_completeness auto
termination
  by (relation "measure (\<lambda>(g, sz, n, flags, i, cursor). n - i)") (auto dest: read_flag_index)

declare read_flags.simps [simp del]

text \<open>
  A coordinate: one byte with its sign in the flag, two bytes, or the one before; the two loops differ in
  the flags they test.
\<close>

definition read_delta :: "u8 list \<Rightarrow> u64 \<Rightarrow> bool \<Rightarrow> bool \<Rightarrow> int \<Rightarrow> u64 \<Rightarrow> (int \<times> u64) option option" where
  "read_delta glyph_data glyph_size short_vector same_or_positive v cursor =
     (if short_vector then
        if \<not> range_is_valid glyph_size cursor 1 then Some None
        else do {
          delta \<leftarrow> getb (at glyph_data cursor) 0;
          v' \<leftarrow> i32 (v + (if same_or_positive then uint delta else - uint delta));
          Some (Some (v', cursor + 1)) }
      else if \<not> same_or_positive then
        if \<not> range_is_valid glyph_size cursor 2 then Some None
        else do {
          delta \<leftarrow> read_s16 (at glyph_data cursor);
          v' \<leftarrow> i32 (v + delta);
          Some (Some (v', cursor + 2)) }
      else Some (Some (v, cursor)))"

fun read_x_loop :: "u8 list \<Rightarrow> u64 \<Rightarrow> u8 list \<Rightarrow> nat list \<Rightarrow> int \<Rightarrow> u64 \<Rightarrow> glyph_point list \<Rightarrow> (u64 \<times> glyph_point list) option option" where
  "read_x_loop glyph_data glyph_size flags [] x cursor pts = Some (Some (cursor, pts))"
| "read_x_loop glyph_data glyph_size flags (i # is) x cursor pts = do {
     flag \<leftarrow> getb flags i;
     chain (read_delta glyph_data glyph_size (flag AND GLYPH_X_SHORT_VECTOR \<noteq> 0) (flag AND GLYPH_X_IS_SAME_OR_POSITIVE \<noteq> 0) x cursor)
       (\<lambda>(x', cursor'). do {
         p \<leftarrow> getb pts i;
         pts' \<leftarrow> setb pts i (p\<lparr>pt_x := x'\<rparr>);
         read_x_loop glyph_data glyph_size flags is x' cursor' pts' }) }"

fun read_y_loop :: "u8 list \<Rightarrow> u64 \<Rightarrow> u8 list \<Rightarrow> nat list \<Rightarrow> int \<Rightarrow> u64 \<Rightarrow> glyph_point list \<Rightarrow> (u64 \<times> glyph_point list) option option" where
  "read_y_loop glyph_data glyph_size flags [] y cursor pts = Some (Some (cursor, pts))"
| "read_y_loop glyph_data glyph_size flags (i # is) y cursor pts = do {
     flag \<leftarrow> getb flags i;
     chain (read_delta glyph_data glyph_size (flag AND GLYPH_Y_SHORT_VECTOR \<noteq> 0) (flag AND GLYPH_Y_IS_SAME_OR_POSITIVE \<noteq> 0) y cursor)
       (\<lambda>(y', cursor'). do {
         p \<leftarrow> getb pts i;
         pts' \<leftarrow> setb pts i (p\<lparr>pt_y := y', on_curve := flag AND GLYPH_ON_CURVE \<noteq> 0\<rparr>);
         read_y_loop glyph_data glyph_size flags is y' cursor' pts' }) }"

fun copy_contours :: "u16 list \<Rightarrow> nat list \<Rightarrow> u16 list \<Rightarrow> u16 list option" where
  "copy_contours end_points [] cs = Some cs"
| "copy_contours end_points (i # is) cs = do {
     e \<leftarrow> getb end_points i;
     cs' \<leftarrow> setb cs i e;
     copy_contours end_points is cs' }"

text \<open>
  What follows the bounding box of a glyph with contours. The local arrays \<^verbatim>\<open>end_points\<close> and \<^verbatim>\<open>flags\<close> are
  zero-filled in the model; the code reads no element it has not written.
\<close>

definition load_contours :: "u8 list \<Rightarrow> u64 \<Rightarrow> nat \<Rightarrow> glyph_outline \<Rightarrow> glyph_outline option option" where
  "load_contours glyph_data glyph_size n outline =
     (if \<not> range_is_valid glyph_size 10 (of_nat n * 2) then Some None
      else chain (end_points_loop glyph_data 10 [0..<n] (replicate MAX_GLYPH_CONTOURS 0) 0) (\<lambda>(end_points, last_point).
        let cursor = 10 + of_nat n * 2; count = unat last_point + 1 in
        if count > MAX_GLYPH_POINTS then Some None
        else if \<not> range_is_valid glyph_size cursor 2 then Some None
        else do {
          instruction_length \<leftarrow> read_u16 (at glyph_data cursor);
          if \<not> range_is_valid glyph_size (cursor + 2) (ucast instruction_length) then Some None
          else
            chain (read_flags glyph_data glyph_size count (replicate MAX_GLYPH_POINTS 0) 0 (cursor + 2 + ucast instruction_length))
              (\<lambda>(flags, cursor1).
            chain (read_x_loop glyph_data glyph_size flags [0..<count] 0 cursor1 (points outline)) (\<lambda>(cursor2, pts1).
            chain (read_y_loop glyph_data glyph_size flags [0..<count] 0 cursor2 pts1) (\<lambda>(cursor3, pts2). do {
              cs \<leftarrow> copy_contours end_points [0..<n] (contours outline);
              Some (Some (outline\<lparr>points := pts2, contours := cs, point_count := count, contour_count := n\<rparr>)) }))) }))"

definition load_simple_outline :: "ttf_font \<Rightarrow> u16 \<Rightarrow> u8 list \<Rightarrow> u64 \<Rightarrow> glyph_outline \<Rightarrow> glyph_outline option option" where
  "load_simple_outline font glyph glyph_data glyph_size outline =
     (if glyph_size < 10 then Some None
      else do {
        n \<leftarrow> read_s16 glyph_data;
        if n < 0 \<or> n > int MAX_GLYPH_CONTOURS then Some None
        else do {
          outline' \<leftarrow> read_bounds font glyph glyph_data outline;
          if n = 0 then Some (Some outline') else load_contours glyph_data glyph_size (nat n) outline' } })"

subsection \<open>Composite glyphs\<close>

text \<open>The arguments of a component and the cursor behind them; the size of its scale, which the code skips.\<close>

definition read_args :: "u8 list \<Rightarrow> u64 \<Rightarrow> u16 \<Rightarrow> u64 \<Rightarrow> (int \<times> int \<times> u64) option option" where
  "read_args glyph_data glyph_size flags cursor =
     (if flags AND ARG_1_AND_2_ARE_WORDS \<noteq> 0 then
        if \<not> range_is_valid glyph_size cursor 4 then Some None
        else do {
          a \<leftarrow> read_s16 (at glyph_data cursor);
          b \<leftarrow> read_s16 (at glyph_data (cursor + 2));
          Some (Some (a, b, cursor + 4)) }
      else if \<not> range_is_valid glyph_size cursor 2 then Some None
      else do {
        a \<leftarrow> getb (at glyph_data cursor) 0;
        b \<leftarrow> getb (at glyph_data (cursor + 1)) 0;
        Some (Some (sint a, sint b, cursor + 2)) })"

definition scale_size :: "u16 \<Rightarrow> u64" where
  "scale_size flags =
     (if flags AND WE_HAVE_A_SCALE \<noteq> 0 then 2
      else if flags AND WE_HAVE_AN_X_AND_Y_SCALE \<noteq> 0 then 4
      else if flags AND WE_HAVE_A_TWO_BY_TWO \<noteq> 0 then 8 else 0)"

text \<open>The fields of one component: its flags and glyph, its displacement, and the cursor behind it.\<close>

definition read_component :: "u8 list \<Rightarrow> u64 \<Rightarrow> u64 \<Rightarrow> (u16 \<times> u16 \<times> int \<times> int \<times> u64) option option" where
  "read_component glyph_data glyph_size cursor =
     (if \<not> range_is_valid glyph_size cursor 4 then Some None
      else do {
        flags \<leftarrow> read_u16 (at glyph_data cursor);
        component_glyph \<leftarrow> read_u16 (at glyph_data (cursor + 2));
        chain (read_args glyph_data glyph_size flags (cursor + 4)) (\<lambda>(arg1, arg2, cursor1).
          if scale_size flags \<noteq> 0 \<and> \<not> range_is_valid glyph_size cursor1 (scale_size flags) then Some None
          else Some (Some (flags, component_glyph, if flags AND ARGS_ARE_XY_VALUES \<noteq> 0 then arg1 else 0,
            if flags AND ARGS_ARE_XY_VALUES \<noteq> 0 then arg2 else 0, cursor1 + scale_size flags))) })"

text \<open>The tail of the loop advances, so that it ends.\<close>

lemma unat_step: "range_is_valid sz cursor k \<Longrightarrow> unat j \<le> unat k \<Longrightarrow> unat (cursor + j) = unat cursor + unat j"
proof -
  assume "range_is_valid sz cursor k" "unat j \<le> unat k"
  then have "unat cursor + unat j \<le> unat sz" by (simp add: range_is_valid_iff)
  also have "\<dots> < 2 ^ 64" using unsigned_less [of sz, where 'a = nat] by simp
  finally show ?thesis by (subst unat_word_ariths(1)) simp
qed

lemma unat_bump: "range_is_valid sz cursor k \<Longrightarrow> unat (cursor + k) = unat cursor + unat k"
  using unat_step [of sz cursor k k] by simp

lemma chain_eq_Some: "chain m f = Some (Some v) \<longleftrightarrow> (\<exists>x. m = Some (Some x) \<and> f x = Some (Some v))"
  by (cases m) (auto simp: chain_def split: option.splits)

lemma read_args_cursor:
  assumes "read_args g sz flags cursor = Some (Some (a, b, cursor'))"
  shows "unat cursor < unat cursor'" "unat cursor' \<le> unat sz"
  using assms unat_bump [of sz cursor 4] unat_bump [of sz cursor 2]
  by (auto simp: read_args_def range_is_valid_iff split: if_splits bind_splits)

lemma read_component_cursor:
  assumes "read_component g sz cursor = Some (Some (flags, cg, dx, dy, cursor'))"
  shows "unat cursor < unat cursor'" "unat cursor' \<le> unat sz"
proof -
  have r: "range_is_valid sz cursor 4" using assms by (auto simp: read_component_def split: if_splits)
  obtain a b cursor1 where c: "read_args g sz flags (cursor + 4) = Some (Some (a, b, cursor1))"
      "cursor' = cursor1 + scale_size flags" "scale_size flags = 0 \<or> range_is_valid sz cursor1 (scale_size flags)"
    using assms r by (auto simp: read_component_def chain_eq_Some split: if_splits bind_splits)
  have "unat cursor < unat cursor1" "unat cursor1 \<le> unat sz"
    using read_args_cursor [OF c(1)] unat_bump [OF r] by simp_all
  moreover have "unat cursor' = unat cursor1 + unat (scale_size flags)" "unat cursor1 + unat (scale_size flags) \<le> unat sz"
    using c(2,3) calculation(2) unat_bump [of sz cursor1 "scale_size flags"] by (auto simp: range_is_valid_iff)
  ultimately show "unat cursor < unat cursor'" "unat cursor' \<le> unat sz" by simp_all
qed

text \<open>\<open>load\<close> is the recursive call of \<^verbatim>\<open>load_glyph_outline\<close> one level deeper.\<close>

function composite_loop ::
  "(u16 \<Rightarrow> glyph_outline option option) \<Rightarrow> u8 list \<Rightarrow> u64 \<Rightarrow> u64 \<Rightarrow> glyph_outline \<Rightarrow> (u16 \<times> u64 \<times> glyph_outline) option option" where
  "composite_loop load glyph_data glyph_size cursor outline =
     chain (read_component glyph_data glyph_size cursor) (\<lambda>(flags, component_glyph, dx, dy, cursor').
       chain (load component_glyph) (\<lambda>component.
       chain (append_outline outline component dx dy) (\<lambda>outline'.
         if flags AND MORE_COMPONENTS \<noteq> 0 then composite_loop load glyph_data glyph_size cursor' outline'
         else Some (Some (flags, cursor', outline')))))"
  by pat_completeness auto
termination
  by (relation "measure (\<lambda>(load, g, sz, cursor, outline). unat sz - unat cursor)")
    (auto dest: read_component_cursor intro: diff_less_mono2 less_le_trans)

declare composite_loop.simps [simp del]

definition load_composite_outline ::
  "(u16 \<Rightarrow> glyph_outline option option) \<Rightarrow> ttf_font \<Rightarrow> u16 \<Rightarrow> u8 list \<Rightarrow> u64 \<Rightarrow> glyph_outline \<Rightarrow> glyph_outline option option" where
  "load_composite_outline load font glyph glyph_data glyph_size outline =
     (if glyph_size < 10 then Some None
      else do {
        outline0 \<leftarrow> read_bounds font glyph glyph_data outline;
        chain (composite_loop load glyph_data glyph_size 10 outline0) (\<lambda>(flags, cursor, outline').
          if flags AND WE_HAVE_INSTRUCTIONS \<noteq> 0 then
            if \<not> range_is_valid glyph_size cursor 2 then Some None
            else do {
              instruction_length \<leftarrow> read_u16 (at glyph_data cursor);
              if \<not> range_is_valid glyph_size (cursor + 2) (ucast instruction_length) then Some None
              else Some (Some outline') }
          else Some (Some outline')) })"

text \<open>The loader with \<open>n\<close> levels of composition left; the source counts the depth upwards.\<close>

primrec load_levels :: "ttf_font \<Rightarrow> nat \<Rightarrow> u16 \<Rightarrow> glyph_outline option option" where
  "load_levels font 0 = (\<lambda>glyph. Some None)"
| "load_levels font (Suc n) = (\<lambda>glyph. do {
     advance \<leftarrow> glyph_advance font glyph;
     let outline = zero_outline\<lparr>advance_width := advance\<rparr>;
     chain (glyph_bounds font glyph) (\<lambda>(offset, sz).
       if sz = 0 then Some (Some outline)
       else
         let glyph_data = at (tbl_data (glyf font)) offset in
         if sz < 10 then Some None
         else do {
           n_contours \<leftarrow> read_s16 glyph_data;
           if n_contours \<ge> 0 then load_simple_outline font glyph glyph_data sz outline
           else load_composite_outline (load_levels font n) font glyph glyph_data sz outline }) })"

definition load_glyph_outline :: "ttf_font \<Rightarrow> u16 \<Rightarrow> nat \<Rightarrow> glyph_outline option option" where
  "load_glyph_outline font glyph depth = load_levels font (Suc MAX_COMPONENT_DEPTH - depth) glyph"

section \<open>Safety\<close>

subsection \<open>Simple glyphs\<close>

lemma i32_runs: "- (2 ^ 31) \<le> v \<Longrightarrow> v < 2 ^ 31 \<Longrightarrow> runs (\<lambda>r. r = v) (i32 v)"
  by (simp add: i32_def)

lemma getb_runs: "i < length xs \<Longrightarrow> runs (\<lambda>v. v = xs ! i) (getb xs i)"
  by simp

lemma setb_runs: "i < length xs \<Longrightarrow> runs (\<lambda>ys. ys = xs[i := v]) (setb xs i v)"
  by simp

lemmas safe_steps = safe_reads getb_runs [THEN safe_bind] getb_runs [THEN runs_bind]
  setb_runs [THEN safe_bind] setb_runs [THEN runs_bind] i32_runs [THEN safe_bind] i32_runs [THEN runs_bind]

lemma safe_case_prod: "(\<And>a b. x = (a, b) \<Longrightarrow> safe P (f a b)) \<Longrightarrow> safe P (case x of (a, b) \<Rightarrow> f a b)"
  by (cases x) simp

lemma runs_case_prod: "(\<And>a b. x = (a, b) \<Longrightarrow> runs P (f a b)) \<Longrightarrow> runs P (case x of (a, b) \<Rightarrow> f a b)"
  by (cases x) simp

definition pt_ok :: "int \<Rightarrow> glyph_point \<Rightarrow> bool" where
  "pt_ok m p \<longleftrightarrow> \<bar>pt_x p\<bar> \<le> m \<and> \<bar>pt_y p\<bar> \<le> m"

definition s16_ok :: "int \<Rightarrow> bool" where
  "s16_ok v \<longleftrightarrow> - 32768 \<le> v \<and> v < 32768"

definition outline_ok :: "int \<Rightarrow> glyph_outline \<Rightarrow> bool" where
  "outline_ok m ol \<longleftrightarrow> length (points ol) = MAX_GLYPH_POINTS \<and> length (contours ol) = MAX_GLYPH_CONTOURS \<and>
     point_count ol \<le> MAX_GLYPH_POINTS \<and> contour_count ol \<le> MAX_GLYPH_CONTOURS \<and>
     (\<forall>p \<in> set (points ol). pt_ok m p) \<and>
     (\<forall>v \<in> {x_min ol, y_min ol, x_max ol, y_max ol, advance_width ol}. s16_ok v)"

lemma set_update_all: "\<forall>p \<in> set xs. P p \<Longrightarrow> P v \<Longrightarrow> \<forall>p \<in> set (xs[i := v]). P p"
  using set_update_subset_insert by fast

lemma end_points_loop_safe:
  assumes "n \<le> MAX_GLYPH_CONTOURS" "10 + 2 * n \<le> length g"
  shows "k \<le> n \<Longrightarrow> length ends = MAX_GLYPH_CONTOURS \<Longrightarrow>
    safe (\<lambda>(ends', l). length ends' = MAX_GLYPH_CONTOURS) (end_points_loop g 10 [k..<n] ends l)"
proof (induction "n - k" arbitrary: k ends l)
  case (Suc d)
  then have k: "k < n" "[k..<n] = k # [Suc k..<n]" by (simp_all add: upt_conv_Cons)
  have "unat (of_nat k :: u64) = k" using k(1) assms(1) by (simp add: unat_of_nat)
  then have "unat (10 + of_nat k * 2 :: u64) = 10 + k * 2" using unat_elem [of "of_nat k" 2 10] k(1) assms(1) by simp
  moreover have rest: "safe (\<lambda>(ends', l). length ends' = MAX_GLYPH_CONTOURS) (end_points_loop g 10 [Suc k..<n] (ends[k := e]) e)" for e
    using Suc k(1) by (intro Suc.hyps) auto
  moreover have "runs (\<lambda>d. True) (if k \<noteq> 0 then do { previous \<leftarrow> getb (ends[k := e]) (k - 1); Some (e \<le> previous) } else Some False)" for e
    using Suc.prems(2) k(1) assms(1) by (intro runs_if safe_steps) auto
  note disordered = this [THEN safe_bind]
  ultimately show ?case
    unfolding k(2) end_points_loop.simps
    using Suc.prems(2) k(1) assms by (intro safe_steps safe_if disordered) auto
qed simp

lemma repeat_flag_runs:
  "length flags = MAX_GLYPH_POINTS \<Longrightarrow> count \<le> MAX_GLYPH_POINTS \<Longrightarrow>
   runs (\<lambda>(flags', i', r'). length flags' = MAX_GLYPH_POINTS) (repeat_flag flag count r flags i)"
  by (induction flag count r flags i rule: repeat_flag.induct) auto

lemma read_flag_safe:
  assumes "unat sz \<le> length g" "length flags = MAX_GLYPH_POINTS" "count \<le> MAX_GLYPH_POINTS" "i < count"
  shows "safe (\<lambda>(flags', i', cursor'). length flags' = MAX_GLYPH_POINTS) (read_flag g sz count flags i cursor)"
proof -
  note reps = repeat_flag_runs [THEN safe_bind]
  have "0 < length (at g c)" if "range_is_valid sz c 1" for c using that assms(1) by (simp add: range_is_valid_iff)
  then show ?thesis
    unfolding read_flag_def by (intro safe_if safe_steps reps safe_case_prod) (use assms in auto)
qed

lemma read_flags_safe:
  assumes "unat sz \<le> length g" "count \<le> MAX_GLYPH_POINTS"
  shows "length flags = MAX_GLYPH_POINTS \<Longrightarrow>
    safe (\<lambda>(flags', cursor'). length flags' = MAX_GLYPH_POINTS) (read_flags g sz count flags i cursor)"
  using assms
proof (induction g sz count flags i cursor rule: read_flags.induct)
  case (1 g sz count flags i cursor)
  show ?case
  proof (cases "i < count")
    case True
    show ?thesis
      unfolding read_flags.simps [of g sz count flags i cursor]
      by (intro safe_if safe_chain [OF read_flag_safe] safe_case_prod 1) (use 1 True in auto)
  qed (simp add: read_flags.simps 1)
qed

lemma read_delta_safe:
  assumes "unat sz \<le> length g" "\<bar>v\<bar> \<le> m" "m + 32768 < 2 ^ 31"
  shows "safe (\<lambda>(v', cursor'). \<bar>v'\<bar> \<le> m + 32768) (read_delta g sz short same v cursor)"
proof -
  have "0 < length (at g c)" if "range_is_valid sz c 1" for c using that assms(1) by (simp add: range_is_valid_iff)
  moreover have "2 \<le> length (at g c)" if "range_is_valid sz c 2" for c using that assms(1) by (simp add: range_is_valid_iff)
  moreover define d where "d = uint (at g cursor ! 0)"
  moreover have "0 \<le> d" "d < 256" using uint_lt2p [of "at g cursor ! 0"] by (simp_all add: d_def)
  ultimately show ?thesis
    using assms(2,3) unfolding read_delta_def
    by (intro safe_if safe_steps) (auto simp: abs_le_iff simp flip: d_def dest: read_s16_range)
qed

lemma read_x_loop_safe:
  assumes "unat sz \<le> length g" "m < 2 ^ 31" "length flags = length pts"
  shows "\<forall>i \<in> set is. i < length pts \<Longrightarrow> \<bar>x\<bar> + int (length is) * 32768 \<le> m \<Longrightarrow> \<forall>p \<in> set pts. pt_ok m p \<Longrightarrow>
    safe (\<lambda>(cursor', pts'). length pts' = length pts \<and> (\<forall>p \<in> set pts'. pt_ok m p)) (read_x_loop g sz flags is x cursor pts)"
  using assms
proof (induction "is" arbitrary: x cursor pts)
  case (Cons i "is")
  have i: "i < length pts" "i < length flags" using Cons.prems by auto
  note d = read_delta_safe [OF Cons.prems(4) order_refl]
  have m: "\<bar>x\<bar> + 32768 < 2 ^ 31" "\<bar>x\<bar> + 32768 \<le> m" using Cons.prems(2,5) by auto
  have "pt_ok m (p\<lparr>pt_x := x'\<rparr>)" if "\<bar>x'\<bar> \<le> \<bar>x\<bar> + 32768" "p \<in> set pts" for x' p
    using that m(2) Cons.prems(3) by (auto simp: pt_ok_def)
  then have p': "\<forall>p \<in> set (pts[i := (pts ! i)\<lparr>pt_x := x'\<rparr>]). pt_ok m p" if "\<bar>x'\<bar> \<le> \<bar>x\<bar> + 32768" for x'
    using that i(1) Cons.prems(3) by (intro set_update_all) auto
  have rest: "safe (\<lambda>(cursor', pts'). length pts' = length pts \<and> (\<forall>p \<in> set pts'. pt_ok m p))
      (read_x_loop g sz flags is x' cursor' (pts[i := (pts ! i)\<lparr>pt_x := x'\<rparr>]))" if "\<bar>x'\<bar> \<le> \<bar>x\<bar> + 32768" for x' cursor'
    using Cons.IH [of "pts[i := (pts ! i)\<lparr>pt_x := x'\<rparr>]" x' cursor'] Cons.prems that p' by simp
  show ?case
    unfolding read_x_loop.simps
    by (intro safe_steps safe_chain [OF d] safe_case_prod) (use i m rest in auto)
qed simp

lemma read_y_loop_safe:
  assumes "unat sz \<le> length g" "m < 2 ^ 31" "length flags = length pts"
  shows "\<forall>i \<in> set is. i < length pts \<Longrightarrow> \<bar>y\<bar> + int (length is) * 32768 \<le> m \<Longrightarrow> \<forall>p \<in> set pts. pt_ok m p \<Longrightarrow>
    safe (\<lambda>(cursor', pts'). length pts' = length pts \<and> (\<forall>p \<in> set pts'. pt_ok m p)) (read_y_loop g sz flags is y cursor pts)"
  using assms
proof (induction "is" arbitrary: y cursor pts)
  case (Cons i "is")
  have i: "i < length pts" "i < length flags" using Cons.prems by auto
  note d = read_delta_safe [OF Cons.prems(4) order_refl]
  have m: "\<bar>y\<bar> + 32768 < 2 ^ 31" "\<bar>y\<bar> + 32768 \<le> m" using Cons.prems(2,5) by auto
  have "pt_ok m (p\<lparr>pt_y := y', on_curve := c\<rparr>)" if "\<bar>y'\<bar> \<le> \<bar>y\<bar> + 32768" "p \<in> set pts" for y' p c
    using that m(2) Cons.prems(3) by (auto simp: pt_ok_def)
  then have p': "\<forall>p \<in> set (pts[i := (pts ! i)\<lparr>pt_y := y', on_curve := c\<rparr>]). pt_ok m p" if "\<bar>y'\<bar> \<le> \<bar>y\<bar> + 32768" for y' c
    using that i(1) Cons.prems(3) by (intro set_update_all) auto
  have rest: "safe (\<lambda>(cursor', pts'). length pts' = length pts \<and> (\<forall>p \<in> set pts'. pt_ok m p))
      (read_y_loop g sz flags is y' cursor' (pts[i := (pts ! i)\<lparr>pt_y := y', on_curve := c\<rparr>]))" if "\<bar>y'\<bar> \<le> \<bar>y\<bar> + 32768" for y' cursor' c
    using Cons.IH [of "pts[i := (pts ! i)\<lparr>pt_y := y', on_curve := c\<rparr>]" y' cursor'] Cons.prems that p' by simp
  show ?case
    unfolding read_y_loop.simps
    by (intro safe_steps safe_chain [OF d] safe_case_prod) (use i m rest in auto)
qed simp

lemma copy_contours_runs:
  "\<forall>i \<in> set is. i < length ends \<and> i < length cs \<Longrightarrow> runs (\<lambda>cs'. length cs' = length cs) (copy_contours ends is cs)"
proof (induction "is" arbitrary: cs)
  case (Cons i "is")
  then show ?case using Cons.IH [of "cs[i := ends ! i]"] by simp
qed simp

text \<open>
  The largest coordinate of a simple glyph: each of its points moves by at most 32768. Every level of
  composition adds one more displacement.
\<close>

definition coord_bound :: "nat \<Rightarrow> int" where
  "coord_bound n = (int MAX_GLYPH_POINTS + int n) * 32768"

lemma coord_bound_small: "n \<le> 10 \<Longrightarrow> coord_bound n + 32768 < 2 ^ 24"
  by (simp add: coord_bound_def)

lemma pt_ok_mono: "pt_ok m p \<Longrightarrow> m \<le> m' \<Longrightarrow> pt_ok m' p"
  by (auto simp: pt_ok_def)

lemma outline_ok_mono: "outline_ok m ol \<Longrightarrow> m \<le> m' \<Longrightarrow> outline_ok m' ol"
  unfolding outline_ok_def by (blast intro: pt_ok_mono)

lemma zero_outline_ok: "s16_ok a \<Longrightarrow> outline_ok (coord_bound n) (zero_outline\<lparr>advance_width := a\<rparr>)"
  by (simp add: outline_ok_def zero_outline_def pt_ok_def zero_point_def coord_bound_def s16_ok_def)

lemma load_contours_safe:
  assumes "unat sz \<le> length g" "n \<le> MAX_GLYPH_CONTOURS" "outline_ok (coord_bound 0) ol"
  shows "safe (outline_ok (coord_bound 0)) (load_contours g sz n ol)"
proof -
  have n: "unat (of_nat n * 2 :: u64) = 2 * n"
    using unat_elem [of "of_nat n" 2 0] assms(2) by (simp add: unat_of_nat)
  have g: "10 + 2 * n \<le> length g" if "range_is_valid sz 10 (of_nat n * 2)"
    using that assms(1) n by (simp add: range_is_valid_iff)
  have ol: "length (points ol) = MAX_GLYPH_POINTS" "length (contours ol) = MAX_GLYPH_CONTOURS" "\<forall>p \<in> set (points ol). pt_ok (coord_bound 0) p"
    using assms(3) by (auto simp: outline_ok_def)
  have two: "2 \<le> length (at g c)" if "range_is_valid sz c 2" for c using that assms(1) by (simp add: range_is_valid_iff)
  have m: "coord_bound 0 < 2 ^ 31" using coord_bound_small [of 0] by simp
  have x: "safe (\<lambda>(cursor', pts'). length pts' = MAX_GLYPH_POINTS \<and> (\<forall>p \<in> set pts'. pt_ok (coord_bound 0) p))
      (read_x_loop g sz flags [0..<count] 0 cursor (points ol))"
    if "length flags = MAX_GLYPH_POINTS" "count \<le> MAX_GLYPH_POINTS" for flags count cursor
    using read_x_loop_safe [OF assms(1) m, of flags "points ol" "[0..<count]" 0 cursor] ol that by (simp add: coord_bound_def)
  have y: "safe (\<lambda>(cursor', pts'). length pts' = MAX_GLYPH_POINTS \<and> (\<forall>p \<in> set pts'. pt_ok (coord_bound 0) p))
      (read_y_loop g sz flags [0..<count] 0 cursor pts)"
    if "length flags = MAX_GLYPH_POINTS" "count \<le> MAX_GLYPH_POINTS" "length pts = MAX_GLYPH_POINTS" "\<forall>p \<in> set pts. pt_ok (coord_bound 0) p"
    for flags count cursor pts
    using read_y_loop_safe [OF assms(1) m, of flags pts "[0..<count]" 0 cursor] that by (simp add: coord_bound_def)
  have c: "runs (\<lambda>cs'. length cs' = length (contours ol)) (copy_contours ends [0..<n] (contours ol))"
    if "length ends = MAX_GLYPH_CONTOURS" for ends
    using that ol(2) assms(2) by (intro copy_contours_runs) auto
  show ?thesis
    unfolding load_contours_def Let_def
    by (intro safe_if safe_chain [OF end_points_loop_safe [OF assms(2)]] safe_case_prod safe_reads
        safe_chain [OF read_flags_safe [OF assms(1)]] safe_chain [OF x] safe_chain [OF y] safe_bind [OF c])
      (use assms g two ol in \<open>auto simp: outline_ok_def\<close>)
qed

lemma read_bounds_runs:
  assumes "wf_font f" "10 \<le> length g" "outline_ok m ol"
  shows "runs (outline_ok m) (read_bounds f glyph g ol)"
  unfolding read_bounds_def
  by (intro safe_reads runs_bind [OF glyph_advance_runs]) (use assms in \<open>auto simp: outline_ok_def s16_ok_def\<close>)

lemma load_simple_outline_safe:
  assumes "wf_font f" "unat sz \<le> length g" "outline_ok (coord_bound 0) ol"
  shows "safe (outline_ok (coord_bound 0)) (load_simple_outline f glyph g sz ol)"
  unfolding load_simple_outline_def
  by (intro safe_if safe_reads safe_bind [OF read_bounds_runs] load_contours_safe)
    (use assms in \<open>auto simp: word_less_nat_alt\<close>)

subsection \<open>Composite glyphs\<close>

lemma to_s16_ok: "s16_ok (to_s16 v)"
  using signed_take_bit_int_greater_eq_minus_exp [of 15 v] signed_take_bit_int_less_exp [of 15 v]
  by (simp add: s16_ok_def to_s16_def)

lemma append_points_safe:
  assumes "outline_ok m src" "\<bar>dx\<bar> \<le> 32768" "\<bar>dy\<bar> \<le> 32768" "m + 32768 < 2 ^ 31"
  shows "\<forall>i \<in> set is. i < MAX_GLYPH_POINTS \<Longrightarrow> outline_ok (m + 32768) dest \<Longrightarrow> point_count dest + length is \<le> MAX_GLYPH_POINTS \<Longrightarrow>
    safe (\<lambda>dest'. outline_ok (m + 32768) dest' \<and> contour_count dest' = contour_count dest) (append_points dest src dx dy is)"
proof (induction "is" arbitrary: dest)
  case (Cons i "is")
  have src: "length (points src) = MAX_GLYPH_POINTS" "\<forall>p \<in> set (points src). pt_ok m p" using assms(1) by (auto simp: outline_ok_def)
  have i: "i < length (points src)" using Cons.prems(1) src(1) by simp
  then have p: "pt_ok m (points src ! i)" using src(2) by simp
  let ?x = "pt_x (points src ! i) + dx" and ?y = "pt_y (points src ! i) + dy"
  have xy: "\<bar>?x\<bar> \<le> m + 32768" "\<bar>?y\<bar> \<le> m + 32768" using p assms(2,3) by (auto simp: pt_ok_def)
  have d: "point_count dest < MAX_GLYPH_POINTS" "length (points dest) = MAX_GLYPH_POINTS" "\<forall>p \<in> set (points dest). pt_ok (m + 32768) p"
    using Cons.prems by (auto simp: outline_ok_def)
  let ?dest = "dest\<lparr>points := (points dest)[point_count dest := \<lparr>pt_x = ?x, pt_y = ?y, on_curve = on_curve (points src ! i)\<rparr>],
      point_count := point_count dest + 1\<rparr>"
  have "append_point dest ?x ?y (on_curve (points src ! i)) = Some (Some ?dest)"
    using d by (simp add: append_point_def)
  moreover have "\<forall>p \<in> set (points ?dest). pt_ok (m + 32768) p"
    using set_update_all [OF d(3), of "\<lparr>pt_x = ?x, pt_y = ?y, on_curve = on_curve (points src ! i)\<rparr>"] xy by (simp add: pt_ok_def)
  then have "outline_ok (m + 32768) ?dest" using Cons.prems(2) d(1) by (simp add: outline_ok_def)
  then have "safe (\<lambda>dest'. outline_ok (m + 32768) dest' \<and> contour_count dest' = contour_count dest) (append_points ?dest src dx dy is)"
    using Cons.IH [of ?dest] Cons.prems by simp
  ultimately show ?case
    using i xy assms(4) by (simp add: i32_def chain_def abs_le_iff)
qed simp

lemma append_contours_runs:
  assumes "length (contours src) = MAX_GLYPH_CONTOURS"
  shows "\<forall>i \<in> set is. i < MAX_GLYPH_CONTOURS \<Longrightarrow> outline_ok m dest \<Longrightarrow> contour_count dest + length is \<le> MAX_GLYPH_CONTOURS \<Longrightarrow>
    runs (outline_ok m) (append_contours base dest src is)"
proof (induction "is" arbitrary: dest)
  case (Cons i "is")
  let ?dest = "dest\<lparr>contours := (contours dest)[contour_count dest := of_nat (base + unat (contours src ! i))],
      contour_count := contour_count dest + 1\<rparr>"
  have "outline_ok m ?dest" using Cons.prems by (simp add: outline_ok_def)
  then have "runs (outline_ok m) (append_contours base ?dest src is)" using Cons.IH [of ?dest] Cons.prems by simp
  moreover have "contour_count dest < length (contours dest)" "i < length (contours src)"
    using Cons.prems assms by (auto simp: outline_ok_def)
  ultimately show ?case by simp
qed simp

lemma append_bounds_runs:
  assumes "outline_ok m' src" "outline_ok m dest" "\<bar>dx\<bar> \<le> 32768" "\<bar>dy\<bar> \<le> 32768"
  shows "runs (outline_ok m) (append_bounds dest src dx dy)"
proof -
  have "\<bar>v + d\<bar> \<le> 65536" if "v \<in> {x_min src, y_min src, x_max src, y_max src}" "\<bar>d\<bar> \<le> 32768" for v d
    using assms(1) that by (auto simp: outline_ok_def s16_ok_def)
  then have "\<bar>x_min src + dx\<bar> \<le> 65536" "\<bar>x_max src + dx\<bar> \<le> 65536" "\<bar>y_min src + dy\<bar> \<le> 65536" "\<bar>y_max src + dy\<bar> \<le> 65536"
    using assms(3,4) by auto
  then show ?thesis
    unfolding append_bounds_def
    by (intro runs_if safe_steps) (use assms(2) in \<open>auto simp: outline_ok_def to_s16_ok\<close>)
qed

lemma append_outline_safe:
  assumes "outline_ok m src" "outline_ok (m + 32768) dest" "\<bar>dx\<bar> \<le> 32768" "\<bar>dy\<bar> \<le> 32768" "m + 32768 < 2 ^ 31"
  shows "safe (outline_ok (m + 32768)) (append_outline dest src dx dy)"
proof -
  have "safe (outline_ok (m + 32768)) (do {
        dest2 \<leftarrow> append_contours base dest1 src [0..<contour_count src];
        dest3 \<leftarrow> append_bounds dest2 src dx dy;
        Some (Some dest3) })"
    if "outline_ok (m + 32768) dest1" "contour_count dest1 + contour_count src \<le> MAX_GLYPH_CONTOURS" for base dest1
  proof (rule safe_bind)
    show "runs (outline_ok (m + 32768)) (append_contours base dest1 src [0..<contour_count src])"
      using assms(1) that by (intro append_contours_runs) (auto simp: outline_ok_def)
    show "safe (outline_ok (m + 32768)) (do { dest3 \<leftarrow> append_bounds dest2 src dx dy; Some (Some dest3) })"
      if "outline_ok (m + 32768) dest2" for dest2
      by (rule safe_bind [OF append_bounds_runs [OF assms(1) that assms(3,4)]]) simp
  qed
  then show ?thesis
    unfolding append_outline_def
    by (intro safe_if safe_chain [OF append_points_safe [OF assms(1,3,4,5)]]) (use assms in \<open>auto simp: outline_ok_def\<close>)
qed

lemma read_args_safe:
  assumes "unat sz \<le> length g"
  shows "safe (\<lambda>(a, b, cursor'). \<bar>a\<bar> \<le> 32768 \<and> \<bar>b\<bar> \<le> 32768) (read_args g sz flags cursor)"
proof -
  have b: "\<bar>sint (b :: u8)\<bar> \<le> 32768" for b using sint_greater_eq [of b] sint_less [of b] by auto
  have u: "unat (cursor + 2) = unat cursor + 2" if "range_is_valid sz cursor 4"
    using unat_step [OF that, of 2] by simp
  have v: "unat (cursor + 1) = unat cursor + 1" if "range_is_valid sz cursor 2"
    using unat_step [OF that, of 1] by simp
  have "unat cursor + 4 \<le> length g" if "range_is_valid sz cursor 4" using that assms by (simp add: range_is_valid_iff)
  moreover have "unat cursor + 2 \<le> length g" if "range_is_valid sz cursor 2" using that assms by (simp add: range_is_valid_iff)
  ultimately show ?thesis
    unfolding read_args_def
    by (intro safe_if safe_steps) (use b u v in \<open>auto simp: abs_le_iff\<close>)
qed

lemma read_component_safe:
  assumes "unat sz \<le> length g"
  shows "safe (\<lambda>(flags, cg, dx, dy, cursor'). \<bar>dx\<bar> \<le> 32768 \<and> \<bar>dy\<bar> \<le> 32768) (read_component g sz cursor)"
proof -
  have u: "unat (cursor + 2) = unat cursor + 2" if "range_is_valid sz cursor 4"
    using unat_step [OF that, of 2] by simp
  have "unat cursor + 4 \<le> length g" if "range_is_valid sz cursor 4" using that assms by (simp add: range_is_valid_iff)
  then show ?thesis
    unfolding read_component_def
    by (intro safe_if safe_steps safe_chain [OF read_args_safe [OF assms]] safe_case_prod) (use u in auto)
qed

lemma composite_loop_safe:
  assumes "unat sz \<le> length g" "\<forall>c. safe (outline_ok m) (load c)" "m + 32768 < 2 ^ 31"
  shows "outline_ok (m + 32768) ol \<Longrightarrow> safe (\<lambda>(flags, cursor', ol'). outline_ok (m + 32768) ol') (composite_loop load g sz cursor ol)"
  using assms
proof (induction load g sz cursor ol rule: composite_loop.induct)
  case (1 load g sz cursor ol)
  have l: "safe (outline_ok m) (load c)" for c using 1(4) by simp
  show ?case
    unfolding composite_loop.simps [of load g sz cursor ol]
  proof (rule safe_chain [OF read_component_safe [OF 1(3)]], clarify)
    fix flags cg dx dy cursor'
    assume r: "read_component g sz cursor = Some (Some (flags, cg, dx, dy, cursor'))" "\<bar>dx\<bar> \<le> 32768" "\<bar>dy\<bar> \<le> 32768"
    show "safe (\<lambda>(flags, cursor', ol'). outline_ok (m + 32768) ol') (chain (load cg) (\<lambda>component.
        chain (append_outline ol component dx dy) (\<lambda>ol'.
          if flags AND MORE_COMPONENTS \<noteq> 0 then composite_loop load g sz cursor' ol' else Some (Some (flags, cursor', ol')))))"
      by (intro safe_chain [OF l] safe_chain [OF append_outline_safe] safe_if) (use 1 r in auto)
  qed
qed

lemma load_composite_outline_safe:
  assumes "wf_font f" "unat sz \<le> length g" "\<forall>c. safe (outline_ok m) (load c)" "m + 32768 < 2 ^ 31" "outline_ok (m + 32768) ol"
  shows "safe (outline_ok (m + 32768)) (load_composite_outline load f glyph g sz ol)"
proof -
  have "2 \<le> length (at g c)" if "range_is_valid sz c 2" for c using that assms(2) by (simp add: range_is_valid_iff)
  then show ?thesis
    unfolding load_composite_outline_def
    by (intro safe_if safe_bind [OF read_bounds_runs] safe_chain [OF composite_loop_safe] safe_case_prod safe_reads)
      (use assms in \<open>auto simp: word_less_nat_alt\<close>)
qed

text \<open>Every glyph of a parsed font loads without a fault, and its coordinates are bounded.\<close>

lemma load_levels_safe:
  assumes "wf_font f"
  shows "n \<le> 9 \<Longrightarrow> safe (outline_ok (coord_bound n)) (load_levels f n glyph)"
proof (induction n arbitrary: glyph)
  case (Suc n)
  have b: "coord_bound n + 32768 = coord_bound (Suc n)" by (simp add: coord_bound_def algebra_simps)
  have m: "coord_bound n + 32768 < 2 ^ 31" using coord_bound_small [of n] Suc.prems by simp
  have le: "coord_bound 0 \<le> coord_bound (Suc n)" by (simp add: coord_bound_def)
  have ih: "\<forall>c. safe (outline_ok (coord_bound n)) (load_levels f n c)" using Suc by simp
  have simple: "safe (outline_ok (coord_bound (Suc n))) (load_simple_outline f glyph g sz ol)"
    if "unat sz \<le> length g" "outline_ok (coord_bound 0) ol" for g sz ol
    using le by (intro safe_mono [OF load_simple_outline_safe [OF assms that]]) (auto intro: outline_ok_mono)
  have composite: "safe (outline_ok (coord_bound (Suc n))) (load_composite_outline (load_levels f n) f glyph g sz ol)"
    if "unat sz \<le> length g" "outline_ok (coord_bound (Suc n)) ol" for g sz ol
    using load_composite_outline_safe [OF assms that(1) ih m] that(2) b by simp
  show ?case
    unfolding load_levels.simps Let_def
    by (intro safe_bind [OF glyph_advance_runs [OF assms]] safe_chain [OF glyph_bounds_safe [OF assms]] safe_case_prod safe_if safe_reads
        simple composite)
      (auto simp: zero_outline_ok s16_ok_def word_less_nat_alt)
qed simp

lemma load_glyph_outline_safe:
  assumes "wf_font f"
  shows "safe (outline_ok (coord_bound 9)) (load_glyph_outline f glyph depth)"
proof -
  have "coord_bound (9 - depth) \<le> coord_bound 9" by (simp add: coord_bound_def)
  moreover have "safe (outline_ok (coord_bound (9 - depth))) (load_levels f (9 - depth) glyph)"
    by (rule load_levels_safe [OF assms]) simp
  ultimately show ?thesis
    unfolding load_glyph_outline_def by (auto intro: safe_mono outline_ok_mono)
qed

end
