(* ===== verification/Font_Raster.thy ===== *)
theory Font_Raster
  imports Font_Outline Format_Types
begin

text \<open>
  From outlines to the bitmaps of the terminal, the last part of \<^verbatim>\<open>drivers/font_ttf.c\<close>: the line box of
  the font, the scaling of an outline to a cell, the edges of its contours, the sampling of a pixel, and
  the loader that fills the bitmap of all 256 characters.

  As in \<^verbatim>\<open>Font_Outline\<close>, \<^term>\<open>None\<close> is a fault: an access outside of an array or of the font, a division by
  zero, or an overflow of a signed sum or product.
\<close>

section \<open>Metrics\<close>

abbreviation XBKS_TTY_FONT_GLYPHS :: nat where "XBKS_TTY_FONT_GLYPHS \<equiv> 256"
abbreviation XBKS_TTY_FONT_WIDTH :: nat where "XBKS_TTY_FONT_WIDTH \<equiv> 13"
abbreviation XBKS_TTY_FONT_HEIGHT :: nat where "XBKS_TTY_FONT_HEIGHT \<equiv> 28"
abbreviation MAX_RASTER_EDGES :: nat where "MAX_RASTER_EDGES \<equiv> 768"

record font_metrics =
  scale :: int
  design_top :: int
  design_span :: int
  origin_y :: int

text \<open>C division, which cuts off towards zero.\<close>

definition divide32 :: "int \<Rightarrow> int \<Rightarrow> int option" where
  "divide32 a b = (if b = 0 then None else i32 (a sdiv b))"

text \<open>\<^verbatim>\<open>(value * scale + units_per_em / 2) / units_per_em\<close>\<close>

definition scaled_quotient :: "int \<Rightarrow> int \<Rightarrow> int \<Rightarrow> int option" where
  "scaled_quotient v factor units = do {
     a \<leftarrow> i32 (v * factor);
     h \<leftarrow> divide32 units 2;
     b \<leftarrow> i32 (a + h);
     divide32 b units }"

definition scale_design :: "int \<Rightarrow> int \<Rightarrow> int \<Rightarrow> int option" where
  "scale_design v factor units =
     (if v \<ge> 0 then scaled_quotient v factor units
      else do {
        n \<leftarrow> i32 (- v);
        q \<leftarrow> scaled_quotient n factor units;
        i32 (- q) })"

definition positive_or_default :: "int \<Rightarrow> int \<Rightarrow> int" where
  "positive_or_default v fallback = (if v > 0 then v else fallback)"

definition include_outline_bounds :: "glyph_outline \<Rightarrow> int \<times> int \<Rightarrow> int \<times> int" where
  "include_outline_bounds outline = (\<lambda>(min_y, max_y).
     if \<not> has_bounds outline \<or> point_count outline = 0 then (min_y, max_y)
     else (if y_min outline < min_y then y_min outline else min_y,
           if y_max outline > max_y then y_max outline else max_y))"

fun metrics_loop :: "ttf_font \<Rightarrow> u32 list \<Rightarrow> int \<times> int \<Rightarrow> (int \<times> int) option" where
  "metrics_loop font [] box = Some box"
| "metrics_loop font (codepoint # cs) box = do {
     glyph \<leftarrow> glyph_for_codepoint font codepoint;
     if glyph = 0 then metrics_loop font cs box
     else do {
       loaded \<leftarrow> load_glyph_outline font glyph 0;
       metrics_loop font cs (case loaded of None \<Rightarrow> box | Some outline \<Rightarrow> include_outline_bounds outline box) } }"

text \<open>The line box of the header: top, bottom and gap.\<close>

definition line_box :: "ttf_font \<Rightarrow> int \<times> int \<times> int" where
  "line_box font =
     (let box1 = (if typo_ascent font \<noteq> 0 then typo_ascent font else ascent font,
                  if typo_descent font \<noteq> 0 then typo_descent font else descent font,
                  if typo_line_gap font \<noteq> 0 then typo_line_gap font else line_gap font);
          box2 = (if fst box1 \<le> fst (snd box1) then (ascent font, descent font, line_gap font) else box1)
      in if fst box2 \<le> fst (snd box2) then (uint (units_per_em font), 0, 0) else box2)"

definition build_font_metrics :: "ttf_font \<Rightarrow> font_metrics option option" where
  "build_font_metrics font =
     (let (top, bottom, gap) = line_box font in do {
        (min_y, max_y) \<leftarrow> metrics_loop font (map of_nat [0x20..<0x7f]) (bottom, top);
        if max_y \<le> min_y then Some None
        else do {
          let target_height = int XBKS_TTY_FONT_HEIGHT - 4;
          h \<leftarrow> i32 (max_y - min_y);
          span1 \<leftarrow> i32 (h + positive_or_default gap 0);
          let span = (if span1 \<le> 0 then h else span1);
          if target_height \<le> 0 \<or> span \<le> 0 then Some None
          else do {
            half_gap \<leftarrow> divide32 (positive_or_default gap 0) 2;
            t \<leftarrow> i32 (max_y + half_gap);
            og \<leftarrow> divide32 (int XBKS_TTY_FONT_HEIGHT - target_height) 2;
            Some (Some \<lparr>scale = target_height, design_top = t, design_span = span, origin_y = og\<rparr>) } } })"

section \<open>Edges\<close>

record raster_edge =
  edge_x0 :: int
  edge_y0 :: int
  edge_x1 :: int
  edge_y1 :: int

text \<open>The array of edges and the number of edges in it.\<close>

type_synonym edge_buffer = "raster_edge list \<times> nat"

definition point_midpoint :: "glyph_point \<Rightarrow> glyph_point \<Rightarrow> glyph_point option" where
  "point_midpoint lhs rhs = do {
     sx \<leftarrow> i32 (pt_x lhs + pt_x rhs);
     x \<leftarrow> divide32 sx 2;
     sy \<leftarrow> i32 (pt_y lhs + pt_y rhs);
     y \<leftarrow> divide32 sy 2;
     Some \<lparr>pt_x = x, pt_y = y, on_curve = True\<rparr> }"

definition add_edge :: "edge_buffer \<Rightarrow> int \<Rightarrow> int \<Rightarrow> int \<Rightarrow> int \<Rightarrow> edge_buffer option option" where
  "add_edge buf x0 y0 x1 y1 =
     (case buf of (edges, edge_count) \<Rightarrow>
        if y0 = y1 then Some (Some (edges, edge_count))
        else if edge_count \<ge> MAX_RASTER_EDGES then Some None
        else do {
          edges' \<leftarrow> setb edges edge_count \<lparr>edge_x0 = x0, edge_y0 = y0, edge_x1 = x1, edge_y1 = y1\<rparr>;
          Some (Some (edges', edge_count + 1)) })"

text \<open>One coordinate of the curve at step \<open>t\<close> of 8.\<close>

definition quadratic_at :: "int \<Rightarrow> int \<Rightarrow> int \<Rightarrow> int \<Rightarrow> int option" where
  "quadratic_at t a b c = do {
     let mt = 8 - t;
     u \<leftarrow> i32 (mt * mt * a);
     v \<leftarrow> i32 (2 * mt * t * b);
     w \<leftarrow> i32 (t * t * c);
     s \<leftarrow> i32 (u + v);
     r \<leftarrow> i32 (s + w);
     divide32 r (8 * 8) }"

fun quadratic_loop :: "glyph_point \<Rightarrow> glyph_point \<Rightarrow> glyph_point \<Rightarrow> int list \<Rightarrow> int \<Rightarrow> int \<Rightarrow> edge_buffer \<Rightarrow> edge_buffer option option" where
  "quadratic_loop p0 p1 p2 [] previous_x previous_y buf = Some (Some buf)"
| "quadratic_loop p0 p1 p2 (t # ts) previous_x previous_y buf = do {
     x \<leftarrow> quadratic_at t (pt_x p0) (pt_x p1) (pt_x p2);
     y \<leftarrow> quadratic_at t (pt_y p0) (pt_y p1) (pt_y p2);
     chain (add_edge buf previous_x previous_y x y) (quadratic_loop p0 p1 p2 ts x y) }"

definition add_quadratic :: "edge_buffer \<Rightarrow> glyph_point \<Rightarrow> glyph_point \<Rightarrow> glyph_point \<Rightarrow> edge_buffer option option" where
  "add_quadratic buf p0 p1 p2 = quadratic_loop p0 p1 p2 [1, 2, 3, 4, 5, 6, 7, 8] (pt_x p0) (pt_y p0) buf"

text \<open>One iteration of the loop over the points of a contour.\<close>

definition contour_step ::
  "glyph_outline \<Rightarrow> nat \<Rightarrow> nat \<Rightarrow> glyph_point \<Rightarrow> nat \<Rightarrow> edge_buffer \<Rightarrow> (glyph_point \<times> nat \<times> edge_buffer) option option" where
  "contour_step outline start count current index buf = do {
     control \<leftarrow> getb (points outline) index;
     next0 \<leftarrow> getb (points outline) (start + (index - start + 1) mod count);
     if on_curve control then
       chain (add_edge buf (pt_x current) (pt_y current) (pt_x control) (pt_y control)) (\<lambda>buf'.
         Some (Some (control, index + 1, buf')))
     else do {
       (next1, index1) \<leftarrow> (if \<not> on_curve next0 then do { m \<leftarrow> point_midpoint control next0; Some (m, index) }
                          else Some (next0, index + 1));
       chain (add_quadratic buf current control next1) (\<lambda>buf'. Some (Some (next1, index1 + 1, buf'))) } }"

lemma contour_step_index:
  "contour_step outline start count current i buf = Some (Some (c, i', buf')) \<Longrightarrow> i < i'"
  by (auto simp: contour_step_def chain_eq_Some split: if_splits bind_splits)

function contour_loop ::
  "glyph_outline \<Rightarrow> nat \<Rightarrow> nat \<Rightarrow> glyph_point \<Rightarrow> nat \<Rightarrow> edge_buffer \<Rightarrow> (glyph_point \<times> edge_buffer) option option" where
  "contour_loop outline start stop current index buf =
     (if index \<le> stop then
        chain (contour_step outline start (stop - start + 1) current index buf) (\<lambda>(current', index', buf').
          contour_loop outline start stop current' index' buf')
      else Some (Some (current, buf)))"
  by pat_completeness auto
termination
  by (relation "measure (\<lambda>(ol, start, stop, c, i, buf). Suc stop - i)") (auto dest: contour_step_index)

declare contour_loop.simps [simp del]

definition contour_to_edges :: "glyph_outline \<Rightarrow> nat \<Rightarrow> nat \<Rightarrow> edge_buffer \<Rightarrow> edge_buffer option option" where
  "contour_to_edges outline start stop buf =
     (if start > stop \<or> stop \<ge> point_count outline then Some None
      else do {
        first0 \<leftarrow> getb (points outline) start;
        last \<leftarrow> getb (points outline) stop;
        first \<leftarrow> (if \<not> on_curve first0 then if on_curve last then Some last else point_midpoint last first0
                 else Some first0);
        chain (contour_loop outline start stop first start buf) (\<lambda>(current, buf').
          add_edge buf' (pt_x current) (pt_y current) (pt_x first) (pt_y first)) })"

fun outline_edges_loop :: "glyph_outline \<Rightarrow> nat list \<Rightarrow> nat \<Rightarrow> edge_buffer \<Rightarrow> edge_buffer option option" where
  "outline_edges_loop outline [] start buf = Some (Some buf)"
| "outline_edges_loop outline (i # is) start buf = do {
     stop \<leftarrow> getb (contours outline) i;
     chain (contour_to_edges outline start (unat stop) buf) (outline_edges_loop outline is (unat stop + 1)) }"

definition outline_edges :: "glyph_outline \<Rightarrow> raster_edge list \<Rightarrow> edge_buffer option option" where
  "outline_edges outline edges = outline_edges_loop outline [0..<contour_count outline] 0 (edges, 0)"

section \<open>Sampling\<close>

definition to_s32 :: "int \<Rightarrow> int" where
  "to_s32 v = signed_take_bit 31 v"

text \<open>The edge with its lower end first.\<close>

definition upright :: "raster_edge \<Rightarrow> raster_edge" where
  "upright e = (if edge_y0 e > edge_y1 e
     then \<lparr>edge_x0 = edge_x1 e, edge_y0 = edge_y1 e, edge_x1 = edge_x0 e, edge_y1 = edge_y0 e\<rparr> else e)"

text \<open>Whether the sample is right of the edge on its own line; the product is computed in 64 bits.\<close>

definition crosses :: "raster_edge \<Rightarrow> int \<Rightarrow> int \<Rightarrow> bool option" where
  "crosses edge sample_x sample_y =
     (let e = upright edge in
      if sample_y < edge_y0 e \<or> sample_y \<ge> edge_y1 e then Some False
      else do {
        dy \<leftarrow> i32 (sample_y - edge_y0 e);
        dx \<leftarrow> i32 (edge_x1 e - edge_x0 e);
        height \<leftarrow> i32 (edge_y1 e - edge_y0 e);
        q \<leftarrow> (if height = 0 then None else Some (to_s32 ((dy * dx) sdiv height)));
        intersection \<leftarrow> i32 (edge_x0 e + q);
        Some (sample_x \<ge> intersection) })"

fun inside_loop :: "raster_edge list \<Rightarrow> int \<Rightarrow> int \<Rightarrow> nat list \<Rightarrow> bool \<Rightarrow> bool option" where
  "inside_loop edges sample_x sample_y [] inside = Some inside"
| "inside_loop edges sample_x sample_y (i # is) inside = do {
     edge \<leftarrow> getb edges i;
     c \<leftarrow> crosses edge sample_x sample_y;
     inside_loop edges sample_x sample_y is (if c then \<not> inside else inside) }"

definition point_inside_outline :: "edge_buffer \<Rightarrow> int \<Rightarrow> int \<Rightarrow> bool option" where
  "point_inside_outline buf sample_x sample_y =
     (case buf of (edges, edge_count) \<Rightarrow> inside_loop edges sample_x sample_y [0..<edge_count] False)"

definition samples :: "(int \<times> int) list" where
  "samples = [(2, 2), (6, 2), (10, 2), (14, 2), (2, 6), (6, 6), (10, 6), (14, 6),
     (2, 10), (6, 10), (10, 10), (14, 10), (2, 14), (6, 14), (10, 14), (14, 14)]"

fun coverage_loop :: "edge_buffer \<Rightarrow> int \<Rightarrow> int \<Rightarrow> (int \<times> int) list \<Rightarrow> nat \<Rightarrow> nat option" where
  "coverage_loop buf x y [] covered = Some covered"
| "coverage_loop buf x y ((sx, sy) # ss) covered = do {
     inside \<leftarrow> point_inside_outline buf (x * 16 + sx) (y * 16 + sy);
     coverage_loop buf x y ss (if inside then covered + 1 else covered) }"

definition rasterize_coverage :: "edge_buffer \<Rightarrow> int \<Rightarrow> int \<Rightarrow> u8 option" where
  "rasterize_coverage buf x y = do {
     covered \<leftarrow> coverage_loop buf x y samples 0;
     Some (of_nat ((covered * 255 + 8) div 16)) }"

section \<open>The bitmap\<close>

fun scale_points_loop :: "glyph_outline \<Rightarrow> font_metrics \<Rightarrow> int \<Rightarrow> nat list \<Rightarrow> glyph_point list \<Rightarrow> glyph_point list option" where
  "scale_points_loop source metrics offset_x [] pts = Some pts"
| "scale_points_loop source metrics offset_x (i # is) pts = do {
     p \<leftarrow> getb (points source) i;
     sx \<leftarrow> scale_design (pt_x p) (scale metrics) (design_span metrics);
     ox \<leftarrow> i32 (offset_x + sx);
     x \<leftarrow> i32 (ox * 16);
     below \<leftarrow> i32 (design_top metrics - pt_y p);
     sy \<leftarrow> scale_design below (scale metrics) (design_span metrics);
     oy \<leftarrow> i32 (origin_y metrics + sy);
     y \<leftarrow> i32 (oy * 16);
     pts' \<leftarrow> setb pts i \<lparr>pt_x = x, pt_y = y, on_curve = on_curve p\<rparr>;
     scale_points_loop source metrics offset_x is pts' }"

definition cell_width :: "ttf_font \<Rightarrow> glyph_outline \<Rightarrow> font_metrics \<Rightarrow> int option" where
  "cell_width font source metrics = do {
     advance \<leftarrow> (if advance_width source \<le> 0 then divide32 (uint (units_per_em font)) 2
                else Some (advance_width source));
     w0 \<leftarrow> scale_design advance (scale metrics) (design_span metrics);
     let w1 = (if w0 \<le> 0 then 1 else w0);
     Some (if w1 > int XBKS_TTY_FONT_WIDTH - 1 then int XBKS_TTY_FONT_WIDTH - 1 else w1) }"

definition scale_outline_to_cell :: "ttf_font \<Rightarrow> glyph_outline \<Rightarrow> font_metrics \<Rightarrow> glyph_outline option option" where
  "scale_outline_to_cell font source metrics =
     (if design_span metrics \<le> 0 \<or> scale metrics \<le> 0 \<or> point_count source > MAX_GLYPH_POINTS \<or>
         contour_count source > MAX_GLYPH_CONTOURS then Some None
      else do {
        glyph_width \<leftarrow> cell_width font source metrics;
        offset_x \<leftarrow> divide32 (int XBKS_TTY_FONT_WIDTH - glyph_width) 2;
        pts \<leftarrow> scale_points_loop source metrics offset_x [0..<point_count source] (points zero_outline);
        cs \<leftarrow> copy_contours (contours source) [0..<contour_count source] (contours zero_outline);
        Some (Some \<lparr>points = pts, contours = cs, point_count = point_count source, contour_count = contour_count source,
          x_min = x_min source, y_min = y_min source, x_max = x_max source, y_max = y_max source,
          advance_width = to_s16 glyph_width, has_bounds = has_bounds source\<rparr>) })"

text \<open>Stores to the rows of a character, which start \<open>base\<close> bytes into \<^verbatim>\<open>system_font_alpha\<close>.\<close>

fun store_rows :: "nat \<Rightarrow> (nat \<times> u8) list \<Rightarrow> u8 list \<Rightarrow> u8 list option" where
  "store_rows base [] alpha = Some alpha"
| "store_rows base ((i, v) # ivs) alpha = do {
     alpha' \<leftarrow> setb alpha (base + i) v;
     store_rows base ivs alpha' }"

definition clear_rows :: "nat \<Rightarrow> u8 list \<Rightarrow> u8 list option" where
  "clear_rows base alpha = store_rows base (map (\<lambda>i. (i, 0)) [0..<XBKS_TTY_FONT_WIDTH * XBKS_TTY_FONT_HEIGHT]) alpha"

fun raster_loop :: "edge_buffer \<Rightarrow> nat \<Rightarrow> (nat \<times> nat) list \<Rightarrow> u8 list \<Rightarrow> u8 list option" where
  "raster_loop buf base [] alpha = Some alpha"
| "raster_loop buf base ((y, x) # cells) alpha = do {
     v \<leftarrow> rasterize_coverage buf (int x) (int y);
     alpha' \<leftarrow> setb alpha (base + y * XBKS_TTY_FONT_WIDTH + x) v;
     raster_loop buf base cells alpha' }"

definition zero_edges :: "raster_edge list" where
  "zero_edges = replicate MAX_RASTER_EDGES \<lparr>edge_x0 = 0, edge_y0 = 0, edge_x1 = 0, edge_y1 = 0\<rparr>"

text \<open>The edges of the scaled outline of a glyph; \<open>Some None\<close> where \<^verbatim>\<open>rasterize_glyph\<close> gives up.\<close>

definition glyph_edges :: "ttf_font \<Rightarrow> font_metrics \<Rightarrow> u16 \<Rightarrow> edge_buffer option option" where
  "glyph_edges font metrics glyph =
     chain (load_glyph_outline font glyph 0) (\<lambda>outline.
       if point_count outline = 0 then Some None
       else chain (scale_outline_to_cell font outline metrics) (\<lambda>scaled. outline_edges scaled zero_edges))"

definition rasterize_glyph :: "ttf_font \<Rightarrow> font_metrics \<Rightarrow> u32 \<Rightarrow> nat \<Rightarrow> u8 list \<Rightarrow> (bool \<times> u8 list) option" where
  "rasterize_glyph font metrics codepoint base alpha0 = do {
     alpha \<leftarrow> clear_rows base alpha0;
     if codepoint = 32 then Some (True, alpha)
     else do {
       glyph \<leftarrow> glyph_for_codepoint font codepoint;
       if glyph = 0 then Some (False, alpha)
       else do {
         edges \<leftarrow> glyph_edges font metrics glyph;
         case edges of
           None \<Rightarrow> Some (False, alpha)
         | Some buf \<Rightarrow> do {
             alpha' \<leftarrow> raster_loop buf base (List.product [0..<XBKS_TTY_FONT_HEIGHT] [0..<XBKS_TTY_FONT_WIDTH]) alpha;
             Some (True, alpha') } } } }"

definition missing_box :: "(nat \<times> u8) list" where
  "missing_box =
     concat (map (\<lambda>x. [(3 * XBKS_TTY_FONT_WIDTH + x, 220), ((XBKS_TTY_FONT_HEIGHT - 4) * XBKS_TTY_FONT_WIDTH + x, 220)])
       [2..<XBKS_TTY_FONT_WIDTH - 2]) @
     concat (map (\<lambda>y. [(y * XBKS_TTY_FONT_WIDTH + 2, 220), (y * XBKS_TTY_FONT_WIDTH + XBKS_TTY_FONT_WIDTH - 3, 220)])
       [3..<XBKS_TTY_FONT_HEIGHT - 2])"

definition draw_missing_glyph :: "nat \<Rightarrow> u8 list \<Rightarrow> u8 list option" where
  "draw_missing_glyph base alpha0 = do {
     alpha \<leftarrow> clear_rows base alpha0;
     store_rows base missing_box alpha }"

text \<open>The loop over the characters: \<^verbatim>\<open>rendered\<close>, \<^verbatim>\<open>failed_ascii\<close> with its count, and the bitmap.\<close>

fun glyphs_loop :: "ttf_font \<Rightarrow> font_metrics \<Rightarrow> nat list \<Rightarrow> nat \<Rightarrow> u8 list \<Rightarrow> nat \<Rightarrow> u8 list \<Rightarrow> (nat \<times> u8 list \<times> nat \<times> u8 list) option" where
  "glyphs_loop font metrics [] rendered failed failed_count alpha = Some (rendered, failed, failed_count, alpha)"
| "glyphs_loop font metrics (c # cs) rendered failed failed_count alpha = do {
     let base = c * XBKS_TTY_FONT_WIDTH * XBKS_TTY_FONT_HEIGHT;
     (ok, alpha1) \<leftarrow> rasterize_glyph font metrics (of_nat c) base alpha;
     if ok then glyphs_loop font metrics cs (rendered + 1) failed failed_count alpha1
     else do {
       (failed', failed_count') \<leftarrow> (if c \<ge> 0x21 \<and> c \<le> 0x7e \<and> failed_count + 1 < 96
          then do { f \<leftarrow> setb failed failed_count (of_nat c); Some (f, failed_count + 1) }
          else Some (failed, failed_count));
       alpha2 \<leftarrow> draw_missing_glyph base alpha1;
       glyphs_loop font metrics cs rendered failed' failed_count' alpha2 } }"

record xbks_bitmap_font =
  font_alpha :: "u8 list" \<comment> \<open>the contents of \<^verbatim>\<open>system_font_alpha\<close>\<close>
  font_glyphs :: u64
  font_width :: u64
  font_height :: u64
  font_source :: "u8 list"

text \<open>
  The font, or \<^term>\<open>None\<close> in the first component where the C function returns false; then \<^verbatim>\<open>system_font_alpha\<close>
  and the devices, which get the log lines.
\<close>

definition xbks_font_load_system_tty ::
  "module_response \<Rightarrow> u8 list \<Rightarrow> io_state \<Rightarrow> (xbks_bitmap_font option \<times> u8 list \<times> io_state) option" where
  "xbks_font_load_system_tty modules alpha io0 = do {
     let refuse = (\<lambda>message. map_option (\<lambda>io1. (None, alpha, io1)) (xbks_log_write XBKS_LOG_WARN message io0));
     found \<leftarrow> find_font_module modules;
     case found of
       None \<Rightarrow> refuse (lit ''system TTF module not found; using built-in terminal font'')
     | Some module \<Rightarrow> do {
         data \<leftarrow> lf_address module;
         parsed \<leftarrow> parse_ttf data (lf_size module);
         case parsed of
           None \<Rightarrow> refuse (lit ''system TTF parse failed; using built-in terminal font'')
         | Some font \<Rightarrow> do {
             measured \<leftarrow> build_font_metrics font;
             case measured of
               None \<Rightarrow> refuse (lit ''system TTF metrics failed; using built-in terminal font'')
             | Some metrics \<Rightarrow> do {
                 (rendered, failed, failed_count, alpha') \<leftarrow>
                   glyphs_loop font metrics [0..<XBKS_TTY_FONT_GLYPHS] 0 (replicate 96 0) 0 alpha;
                 failed' \<leftarrow> setb failed failed_count 0;
                 io1 \<leftarrow> xbks_log_printf XBKS_LOG_INFO (lit ''system TTF terminal font loaded: %zu glyphs, cell=%zux%zu'')
                   [ArgLong (of_nat rendered), ArgLong 13, ArgLong 28] io0;
                 io2 \<leftarrow> (if failed_count \<noteq> 0
                   then xbks_log_printf XBKS_LOG_WARN (lit ''system TTF missing ASCII glyphs: %s'') [ArgStr (Some failed')] io1
                   else Some io1);
                 Some (Some \<lparr>font_alpha = alpha', font_glyphs = 256, font_width = 13, font_height = 28,
                   font_source = (case lf_path module of None \<Rightarrow> lit ''system-font'' | Some path \<Rightarrow> path)\<rparr>, alpha', io2) } } } }"

section \<open>Safety\<close>

subsection \<open>Arithmetic\<close>

lemma sdiv_nonneg: "0 \<le> a \<Longrightarrow> 0 < b \<Longrightarrow> a sdiv b = a div b" for a b :: int
  by (simp add: signed_divide_int_def sgn_if)

lemma abs_sdiv: "\<bar>a sdiv b\<bar> = \<bar>a\<bar> div \<bar>b\<bar>" for a b :: int
  by (auto simp: signed_divide_int_def abs_mult sgn_if pos_imp_zdiv_nonneg_iff abs_of_nonneg div_int_pos_iff)

lemma abs_sdiv_le:
  fixes a b m :: int
  assumes "\<bar>a\<bar> \<le> m * b" "0 < b" "0 \<le> m"
  shows "\<bar>a sdiv b\<bar> \<le> m"
  using assms zdiv_mono1 [OF assms(1,2)] by (simp add: abs_sdiv)

lemma divide32_runs:
  assumes "\<bar>a\<bar> \<le> m * b" "0 < b" "0 \<le> m" "m < 2 ^ 31"
  shows "runs (\<lambda>r. r = a sdiv b \<and> \<bar>r\<bar> \<le> m) (divide32 a b)"
  using abs_sdiv_le [OF assms(1-3)] assms(2,4) by (auto simp: divide32_def i32_def)

text \<open>Every value that is scaled is below \<open>design_max\<close>; every scaled coordinate is below \<open>cell_max\<close>.\<close>

definition design_max :: int where "design_max = 13010000"
definition cell_max :: int where "cell_max = 20000000"

lemma scaled_quotient_ok:
  assumes "0 \<le> v" "v \<le> design_max" "0 < units" "units \<le> 2 ^ 18"
  shows "\<exists>q. scaled_quotient v 24 units = Some q \<and> 0 \<le> q \<and> q < 2 ^ 31 \<and> (256 \<le> units \<longrightarrow> q \<le> 1240000)"
proof -
  let ?b = "v * 24 + units div 2"
  have b: "0 \<le> ?b" "?b < 317000000" using assms by (auto simp: design_max_def)
  have q: "0 \<le> ?b div units" "?b div units \<le> ?b" using b(1) assms(3) zdiv_mono2 [of ?b 1 units] by (simp_all add: pos_imp_zdiv_nonneg_iff)
  have "256 \<le> units \<longrightarrow> ?b div units \<le> ?b div 256" using b(1) by (auto intro: zdiv_mono2)
  moreover have "?b div 256 \<le> 1240000" using b(2) by simp
  ultimately have "256 \<le> units \<longrightarrow> ?b div units \<le> 1240000" by linarith
  then show ?thesis
    using assms b q by (simp add: scaled_quotient_def divide32_def i32_def sdiv_nonneg design_max_def)
qed

lemma scale_design_runs:
  assumes "\<bar>v\<bar> \<le> design_max" "0 < units" "units \<le> 2 ^ 18"
  shows "runs (\<lambda>r. 256 \<le> units \<longrightarrow> \<bar>r\<bar> \<le> 1240000) (scale_design v 24 units)"
proof (cases "0 \<le> v")
  case True
  then show ?thesis using scaled_quotient_ok [of v units] assms by (auto simp: scale_design_def)
next
  case False
  then obtain q where "scaled_quotient (- v) 24 units = Some q" "0 \<le> q" "q < 2 ^ 31" "256 \<le> units \<longrightarrow> q \<le> 1240000"
    using scaled_quotient_ok [of "- v" units] assms by auto
  moreover have "i32 (- v) = Some (- v)" using assms(1) by (auto simp: i32_def design_max_def)
  ultimately show ?thesis using False by (auto simp: scale_design_def i32_def)
qed

subsection \<open>Metrics\<close>

definition metrics_ok :: "font_metrics \<Rightarrow> bool" where
  "metrics_ok m \<longleftrightarrow> scale m = 24 \<and> origin_y m = 2 \<and> \<bar>design_top m\<bar> \<le> 2 ^ 17 \<and> 0 < design_span m \<and> design_span m \<le> 2 ^ 18"

lemma line_box_bounds:
  assumes "wf_font f" "line_box f = (t, b, g)"
  shows "\<bar>t\<bar> < 65536" "\<bar>b\<bar> < 65536" "\<bar>g\<bar> < 65536" "b < t"
proof -
  have s: "\<bar>v\<bar> < 65536" if "v \<in> {ascent f, descent f, line_gap f, typo_ascent f, typo_descent f, typo_line_gap f}" for v
    using assms(1) that by (auto simp: wf_font_def)
  have "units_per_em f \<noteq> 0" using assms(1) by (simp add: wf_font_def fields_refused_def)
  then have u: "0 < uint (units_per_em f)" "uint (units_per_em f) < 65536"
    using uint_lt2p [of "units_per_em f"] uint_ge_0 [of "units_per_em f"] by (auto simp: le_less)
  show "\<bar>t\<bar> < 65536" "\<bar>b\<bar> < 65536" "\<bar>g\<bar> < 65536" "b < t"
    using assms(2) s u by (auto simp: line_box_def Let_def split: if_splits)
qed

lemma metrics_loop_runs:
  assumes "wf_font f"
  shows "\<bar>fst box\<bar> < 65536 \<Longrightarrow> \<bar>snd box\<bar> < 65536 \<Longrightarrow>
    runs (\<lambda>box'. \<bar>fst box'\<bar> < 65536 \<and> \<bar>snd box'\<bar> < 65536 \<and> fst box' \<le> fst box \<and> snd box \<le> snd box') (metrics_loop f cs box)"
proof (induction cs arbitrary: box)
  case (Cons c cs)
  obtain g where g: "glyph_for_codepoint f c = Some g" using glyph_for_codepoint_runs [OF assms] by (auto simp: runs_def)
  obtain r where r: "load_glyph_outline f g 0 = Some r" "pred_option (outline_ok (coord_bound 9)) r"
    using load_glyph_outline_safe [OF assms] by (auto simp: safe_def runs_def)
  let ?box = "case r of None \<Rightarrow> box | Some outline \<Rightarrow> include_outline_bounds outline box"
  have b: "\<bar>fst ?box\<bar> < 65536" "\<bar>snd ?box\<bar> < 65536" "fst ?box \<le> fst box" "snd box \<le> snd ?box"
    using Cons.prems r(2)
    by (cases r; cases box; auto simp: include_outline_bounds_def outline_ok_def s16_ok_def)+
  have "runs (\<lambda>box'. \<bar>fst box'\<bar> < 65536 \<and> \<bar>snd box'\<bar> < 65536 \<and> fst box' \<le> fst box \<and> snd box \<le> snd box') (metrics_loop f cs ?box)"
    using b(3,4) by (intro runs_mono [OF Cons.IH [OF b(1,2)]]) auto
  then show ?case using Cons g r(1) by simp
qed simp

lemma build_font_metrics_safe:
  assumes "wf_font f" and box: "line_box f = (t, b, g)"
  shows "safe (\<lambda>m. metrics_ok m \<and> t - b \<le> design_span m) (build_font_metrics f)"
proof -
  note l = line_box_bounds [OF assms]
  obtain lo hi where m: "metrics_loop f (map of_nat [0x20..<0x7f]) (b, t) = Some (lo, hi)" "\<bar>lo\<bar> < 65536" "\<bar>hi\<bar> < 65536"
      "lo \<le> b" "t \<le> hi"
    using metrics_loop_runs [OF assms(1), of "(b, t)" "map of_nat [0x20..<0x7f]"] l by (auto simp: runs_def simp del: upt_rec_numeral)
  have g: "0 \<le> positive_or_default g 0" "positive_or_default g 0 < 65536" using l(3) by (auto simp: positive_or_default_def)
  have og: "divide32 (int XBKS_TTY_FONT_HEIGHT - (int XBKS_TTY_FONT_HEIGHT - 4)) 2 = Some 2"
    by (simp add: divide32_def i32_def signed_divide_int_def)
  have h: "divide32 (positive_or_default g 0) 2 = Some (positive_or_default g 0 div 2)"
    using g by (auto simp: divide32_def i32_def sdiv_nonneg)
  show ?thesis
  proof (cases "hi \<le> lo")
    case True
    then show ?thesis using m by (simp add: build_font_metrics_def box del: upt_rec_numeral)
  next
    case False
    have "i32 (hi - lo) = Some (hi - lo)" "i32 (hi - lo + positive_or_default g 0) = Some (hi - lo + positive_or_default g 0)"
        "i32 (hi + positive_or_default g 0 div 2) = Some (hi + positive_or_default g 0 div 2)"
      using m g by (auto simp: i32_def)
    then show ?thesis
      using False m(1) h og g unfolding build_font_metrics_def box prod.case Let_def m(1)
      by (simp del: upt_rec_numeral) (use m(2-) in \<open>auto simp: metrics_ok_def abs_le_iff\<close>)
  qed
qed

subsection \<open>Scaling\<close>

lemma cell_width_runs:
  assumes "metrics_ok m" "s16_ok (advance_width ol)"
  shows "runs (\<lambda>w. 1 \<le> w \<and> w \<le> 12) (cell_width f ol m)"
proof -
  have u: "0 \<le> uint (units_per_em f)" "uint (units_per_em f) < 65536" using uint_lt2p [of "units_per_em f"] by simp_all
  have a: "runs (\<lambda>a. \<bar>a\<bar> \<le> design_max) (if advance_width ol \<le> 0 then divide32 (uint (units_per_em f)) 2 else Some (advance_width ol))"
  proof (rule runs_if)
    show "runs (\<lambda>a. \<bar>a\<bar> \<le> design_max) (divide32 (uint (units_per_em f)) 2)"
      using divide32_runs [of "uint (units_per_em f)" 65536 2] u by (auto simp: runs_def design_max_def)
    show "\<not> advance_width ol \<le> 0 \<Longrightarrow> runs (\<lambda>a. \<bar>a\<bar> \<le> design_max) (Some (advance_width ol))"
      using assms(2) by (auto simp: s16_ok_def design_max_def)
  qed
  have m: "scale m = 24" "0 < design_span m" "design_span m \<le> 2 ^ 18" using assms(1) by (auto simp: metrics_ok_def)
  show ?thesis unfolding cell_width_def m(1) Let_def
    by (intro runs_bind [OF a] runs_bind [OF scale_design_runs]) (use m in auto)
qed

lemma scale_points_loop_runs:
  assumes "metrics_ok m" "256 \<le> design_span m" "outline_ok (coord_bound 9) ol" "\<bar>ox\<bar> \<le> 6"
  shows "\<forall>i \<in> set is. i < MAX_GLYPH_POINTS \<Longrightarrow> length pts = MAX_GLYPH_POINTS \<Longrightarrow> \<forall>p \<in> set pts. pt_ok cell_max p \<Longrightarrow>
    runs (\<lambda>pts'. length pts' = MAX_GLYPH_POINTS \<and> (\<forall>p \<in> set pts'. pt_ok cell_max p)) (scale_points_loop ol m ox is pts)"
proof (induction "is" arbitrary: pts)
  case (Cons i "is")
  have m: "scale m = 24" "0 < design_span m" "design_span m \<le> 2 ^ 18" "\<bar>design_top m\<bar> \<le> 2 ^ 17" "origin_y m = 2"
    using assms(1) by (auto simp: metrics_ok_def)
  have i: "i < length (points ol)" "i < length pts" using Cons.prems assms(3) by (auto simp: outline_ok_def)
  have p: "pt_ok (coord_bound 9) (points ol ! i)" using i(1) assms(3) by (auto simp: outline_ok_def)
  then have d: "\<bar>pt_x (points ol ! i)\<bar> \<le> design_max" "\<bar>design_top m - pt_y (points ol ! i)\<bar> \<le> design_max"
    using m(4) by (auto simp: pt_ok_def coord_bound_def design_max_def)
  have rest: "runs (\<lambda>pts'. length pts' = MAX_GLYPH_POINTS \<and> (\<forall>p \<in> set pts'. pt_ok cell_max p))
      (scale_points_loop ol m ox is (pts[i := \<lparr>pt_x = x, pt_y = y, on_curve = c\<rparr>]))"
    if "\<bar>x\<bar> \<le> cell_max" "\<bar>y\<bar> \<le> cell_max" for x y c
    using that Cons.prems set_update_all [OF Cons.prems(3), of "\<lparr>pt_x = x, pt_y = y, on_curve = c\<rparr>" i]
    by (intro Cons.IH) (auto simp: pt_ok_def)
  show ?case
    unfolding scale_points_loop.simps m(1,5)
    by (intro safe_steps runs_bind [OF scale_design_runs])
      (use i d m(2,3) assms(2,4) rest in \<open>auto simp: cell_max_def design_max_def abs_le_iff\<close>)
qed simp

lemma scale_outline_to_cell_safe:
  assumes "metrics_ok m" "256 \<le> design_span m" "outline_ok (coord_bound 9) ol"
  shows "safe (outline_ok cell_max) (scale_outline_to_cell f ol m)"
proof -
  have a: "s16_ok (advance_width ol)" "length (contours ol) = MAX_GLYPH_CONTOURS" using assms(3) by (auto simp: outline_ok_def)
  have ox: "runs (\<lambda>d. \<bar>d\<bar> \<le> 6) (divide32 (int XBKS_TTY_FONT_WIDTH - w) 2)" if "1 \<le> w \<and> w \<le> 12" for w
    using divide32_runs [of "13 - w" 6 2] that by (auto simp: runs_def)
  have pts: "runs (\<lambda>pts'. length pts' = MAX_GLYPH_POINTS \<and> (\<forall>p \<in> set pts'. pt_ok cell_max p))
      (scale_points_loop ol m o' [0..<point_count ol] (points zero_outline))" if "\<bar>o'\<bar> \<le> 6" for o'
    using assms(3) by (intro scale_points_loop_runs [OF assms that])
      (auto simp: zero_outline_def zero_point_def pt_ok_def cell_max_def outline_ok_def)
  have cs: "runs (\<lambda>cs'. length cs' = length (contours zero_outline)) (copy_contours (contours ol) [0..<contour_count ol] (contours zero_outline))"
    using assms(3) by (intro copy_contours_runs) (auto simp: zero_outline_def outline_ok_def)
  show ?thesis
    unfolding scale_outline_to_cell_def
    by (intro safe_if safe_bind [OF cell_width_runs [OF assms(1) a(1)]] safe_bind [OF ox] safe_bind [OF pts] safe_bind [OF cs])
      (use assms(3) in \<open>auto simp: outline_ok_def zero_outline_def to_s16_ok\<close>)
qed

subsection \<open>Edges and samples\<close>

definition edge_ok :: "int \<Rightarrow> raster_edge \<Rightarrow> bool" where
  "edge_ok m e \<longleftrightarrow> \<bar>edge_x0 e\<bar> \<le> m \<and> \<bar>edge_y0 e\<bar> \<le> m \<and> \<bar>edge_x1 e\<bar> \<le> m \<and> \<bar>edge_y1 e\<bar> \<le> m"

definition edges_ok :: "edge_buffer \<Rightarrow> bool" where
  "edges_ok = (\<lambda>(edges, n). length edges = MAX_RASTER_EDGES \<and> n \<le> MAX_RASTER_EDGES \<and> (\<forall>e \<in> set edges. edge_ok cell_max e))"

lemma add_edge_safe:
  assumes "edges_ok buf" "\<bar>x0\<bar> \<le> cell_max" "\<bar>y0\<bar> \<le> cell_max" "\<bar>x1\<bar> \<le> cell_max" "\<bar>y1\<bar> \<le> cell_max"
  shows "safe edges_ok (add_edge buf x0 y0 x1 y1)"
proof -
  obtain edges n where buf: "buf = (edges, n)" by (cases buf)
  have e: "length edges = MAX_RASTER_EDGES" "n \<le> MAX_RASTER_EDGES" "\<forall>e \<in> set edges. edge_ok cell_max e"
    using assms(1) by (auto simp: edges_ok_def buf)
  have "\<forall>e \<in> set (edges[n := \<lparr>edge_x0 = x0, edge_y0 = y0, edge_x1 = x1, edge_y1 = y1\<rparr>]). edge_ok cell_max e"
    using assms(2-5) by (intro set_update_all e(3)) (simp add: edge_ok_def)
  then show ?thesis
    using e unfolding add_edge_def buf prod.case by (intro safe_if safe_steps) (auto simp: edges_ok_def)
qed

lemma point_midpoint_runs:
  assumes "pt_ok cell_max p" "pt_ok cell_max q"
  shows "runs (pt_ok cell_max) (point_midpoint p q)"
proof -
  have d: "runs (\<lambda>r. r = v sdiv 2 \<and> \<bar>r\<bar> \<le> cell_max) (divide32 v 2)" if "\<bar>v\<bar> \<le> cell_max * 2" for v
    using that by (intro divide32_runs) (auto simp: cell_max_def)
  show ?thesis
    unfolding point_midpoint_def
    by (intro safe_steps runs_bind [OF d]) (use assms in \<open>auto simp: pt_ok_def cell_max_def\<close>)
qed

lemma quadratic_at_runs:
  assumes "\<bar>a\<bar> \<le> cell_max" "\<bar>b\<bar> \<le> cell_max" "\<bar>c\<bar> \<le> cell_max" "0 \<le> t" "t \<le> 8"
  shows "runs (\<lambda>r. \<bar>r\<bar> \<le> cell_max) (quadratic_at t a b c)"
proof -
  have k: "0 \<le> (8 - t) * (8 - t)" "0 \<le> 2 * (8 - t) * t" "0 \<le> t * t" using assms(4,5) by simp_all
  have s: "(8 - t) * (8 - t) + 2 * (8 - t) * t + t * t = 64" by (simp add: algebra_simps)
  have part: "\<bar>k * v\<bar> \<le> k * cell_max" if "0 \<le> k" "\<bar>v\<bar> \<le> cell_max" for k v :: int
    using that by (simp add: abs_mult mult_left_mono)
  define u v w where d: "u = (8 - t) * (8 - t) * a" "v = 2 * (8 - t) * t * b" "w = t * t * c"
  have p: "\<bar>u\<bar> \<le> (8 - t) * (8 - t) * cell_max" "\<bar>v\<bar> \<le> 2 * (8 - t) * t * cell_max" "\<bar>w\<bar> \<le> t * t * cell_max"
    using k assms(1-3) unfolding d by (intro part; simp)+
  have "(8 - t) * (8 - t) * cell_max + 2 * (8 - t) * t * cell_max + t * t * cell_max = 64 * cell_max"
    using s by (metis distrib_right)
  moreover have "0 \<le> (8 - t) * (8 - t) * cell_max" "0 \<le> 2 * (8 - t) * t * cell_max" "0 \<le> t * t * cell_max"
    using k by (simp_all add: cell_max_def)
  ultimately have b: "\<bar>u\<bar> \<le> 64 * cell_max" "\<bar>v\<bar> \<le> 64 * cell_max" "\<bar>w\<bar> \<le> 64 * cell_max" "\<bar>u + v\<bar> \<le> 64 * cell_max"
      "\<bar>u + v + w\<bar> \<le> 64 * cell_max"
    using p by linarith+
  have i: "i32 x = Some x" if "\<bar>x\<bar> \<le> 64 * cell_max" for x using that by (auto simp: i32_def cell_max_def)
  have "quadratic_at t a b c = divide32 (u + v + w) (8 * 8)"
    unfolding quadratic_at_def Let_def d [symmetric] using b i by simp
  then show ?thesis
    using divide32_runs [of "u + v + w" cell_max 64] b(5) by (auto simp: runs_def cell_max_def)
qed

lemma quadratic_loop_safe:
  assumes "pt_ok cell_max p0" "pt_ok cell_max p1" "pt_ok cell_max p2"
  shows "\<forall>t \<in> set ts. 0 \<le> t \<and> t \<le> 8 \<Longrightarrow> edges_ok buf \<Longrightarrow> \<bar>px\<bar> \<le> cell_max \<Longrightarrow> \<bar>py\<bar> \<le> cell_max \<Longrightarrow>
    safe edges_ok (quadratic_loop p0 p1 p2 ts px py buf)"
proof (induction ts arbitrary: px py buf)
  case (Cons t ts)
  have "runs (\<lambda>r. \<bar>r\<bar> \<le> cell_max) (quadratic_at t (pt_x p0) (pt_x p1) (pt_x p2))"
      "runs (\<lambda>r. \<bar>r\<bar> \<le> cell_max) (quadratic_at t (pt_y p0) (pt_y p1) (pt_y p2))"
    using assms Cons.prems(1) by (auto simp: pt_ok_def intro!: quadratic_at_runs)
  note q = this [THEN safe_bind]
  show ?case
    unfolding quadratic_loop.simps
    by (intro q safe_chain [OF add_edge_safe] Cons.IH) (use Cons.prems in auto)
qed simp

lemma add_quadratic_safe:
  "edges_ok buf \<Longrightarrow> pt_ok cell_max p0 \<Longrightarrow> pt_ok cell_max p1 \<Longrightarrow> pt_ok cell_max p2 \<Longrightarrow> safe edges_ok (add_quadratic buf p0 p1 p2)"
  unfolding add_quadratic_def by (intro quadratic_loop_safe) (auto simp: pt_ok_def)

lemma contour_step_safe:
  assumes "outline_ok cell_max ol" "start \<le> index" "index < start + count" "start + count \<le> MAX_GLYPH_POINTS"
    and "edges_ok buf" "pt_ok cell_max current"
  shows "safe (\<lambda>(c, i, buf'). pt_ok cell_max c \<and> edges_ok buf') (contour_step ol start count current index buf)"
proof -
  have ol: "length (points ol) = MAX_GLYPH_POINTS" "\<forall>p \<in> set (points ol). pt_ok cell_max p" using assms(1) by (auto simp: outline_ok_def)
  have i: "index < length (points ol)" "start + (index - start + 1) mod count < length (points ol)"
    using assms(2-4) ol(1) mod_less_divisor [of count "index - start + 1"] by linarith+
  have p: "pt_ok cell_max (points ol ! index)" "pt_ok cell_max (points ol ! (start + (index - start + 1) mod count))"
    using i ol(2) by auto
  have next_point: "runs (\<lambda>(n, j). pt_ok cell_max n) (if \<not> on_curve q then do { m \<leftarrow> point_midpoint c q; Some (m, index) } else Some (q, index + 1))"
    if "pt_ok cell_max c" "pt_ok cell_max q" for c q
    using that by (intro runs_if runs_bind [OF point_midpoint_runs]) auto
  have bounds: "\<bar>pt_x q\<bar> \<le> cell_max \<and> \<bar>pt_y q\<bar> \<le> cell_max" if "pt_ok cell_max q" for q using that by (simp add: pt_ok_def)
  show ?thesis
    unfolding contour_step_def
    by (intro safe_steps safe_if safe_chain [OF add_edge_safe] safe_bind [OF next_point] safe_case_prod safe_chain [OF add_quadratic_safe])
      (use i p bounds assms(5,6) in auto)
qed

lemma contour_loop_safe:
  assumes "outline_ok cell_max ol" "start \<le> stop" "stop < MAX_GLYPH_POINTS"
  shows "start \<le> index \<Longrightarrow> edges_ok buf \<Longrightarrow> pt_ok cell_max current \<Longrightarrow>
    safe (\<lambda>(c, buf'). pt_ok cell_max c \<and> edges_ok buf') (contour_loop ol start stop current index buf)"
  using assms
proof (induction ol start stop current index buf rule: contour_loop.induct)
  case (1 ol start stop current index buf)
  show ?case
  proof (cases "index \<le> stop")
    case True
    have s: "safe (\<lambda>(c, i, buf'). pt_ok cell_max c \<and> edges_ok buf') (contour_step ol start (stop - start + 1) current index buf)"
      using 1 True by (intro contour_step_safe) auto
    show ?thesis
      unfolding contour_loop.simps [of ol start stop current index buf] if_P [OF True]
    proof (rule safe_chain [OF s], clarify)
      fix c i edges n
      assume r: "contour_step ol start (stop - start + 1) current index buf = Some (Some (c, i, edges, n))"
        and "pt_ok cell_max c" "edges_ok (edges, n)"
      moreover have "start \<le> i" using contour_step_index [OF r] 1(2) by simp
      ultimately show "safe (\<lambda>(c, buf'). pt_ok cell_max c \<and> edges_ok buf') (contour_loop ol start stop c i (edges, n))"
        using 1(1) [OF True r refl refl] 1 by simp
    qed
  qed (use 1 in \<open>simp add: contour_loop.simps\<close>)
qed

lemma contour_to_edges_safe:
  assumes "outline_ok cell_max ol" "edges_ok buf"
  shows "safe edges_ok (contour_to_edges ol start stop buf)"
proof -
  have ol: "length (points ol) = MAX_GLYPH_POINTS" "point_count ol \<le> MAX_GLYPH_POINTS" "\<forall>p \<in> set (points ol). pt_ok cell_max p"
    using assms(1) by (auto simp: outline_ok_def)
  have first: "runs (pt_ok cell_max) (if \<not> on_curve p then if on_curve q then Some q else point_midpoint q p else Some p)"
    if "pt_ok cell_max p" "pt_ok cell_max q" for p q
    using that by (intro runs_if point_midpoint_runs) auto
  have bounds: "\<bar>pt_x q\<bar> \<le> cell_max \<and> \<bar>pt_y q\<bar> \<le> cell_max" if "pt_ok cell_max q" for q using that by (simp add: pt_ok_def)
  show ?thesis
    unfolding contour_to_edges_def
    by (intro safe_if safe_steps safe_bind [OF first] safe_chain [OF contour_loop_safe [OF assms(1)]] safe_case_prod add_edge_safe)
      (use ol bounds assms(2) in auto)
qed

lemma outline_edges_loop_safe:
  assumes "outline_ok cell_max ol"
  shows "\<forall>i \<in> set is. i < MAX_GLYPH_CONTOURS \<Longrightarrow> edges_ok buf \<Longrightarrow> safe edges_ok (outline_edges_loop ol is start buf)"
proof (induction "is" arbitrary: start buf)
  case (Cons i "is")
  have "i < length (contours ol)" using Cons.prems(1) assms by (simp add: outline_ok_def)
  then show ?case
    unfolding outline_edges_loop.simps
    by (intro safe_steps safe_chain [OF contour_to_edges_safe [OF assms]] Cons.IH) (use Cons.prems in auto)
qed simp

lemma outline_edges_safe:
  assumes "outline_ok cell_max ol"
  shows "safe edges_ok (outline_edges ol zero_edges)"
  unfolding outline_edges_def
  using assms by (intro outline_edges_loop_safe)
    (auto simp: outline_ok_def edges_ok_def zero_edges_def edge_ok_def cell_max_def)

subsection \<open>What a pixel means\<close>

text \<open>
  A sample is inside when the ray to its left crosses an odd number of edges; the value of a pixel is the share of its
  sixteen samples that are inside, in 255ths.
\<close>

definition hit :: "int \<Rightarrow> int \<Rightarrow> raster_edge \<Rightarrow> bool" where
  "hit sx sy e \<longleftrightarrow> (let e' = upright e in edge_y0 e' \<le> sy \<and> sy < edge_y1 e' \<and>
     edge_x0 e' + ((sy - edge_y0 e') * (edge_x1 e' - edge_x0 e')) sdiv (edge_y1 e' - edge_y0 e') \<le> sx)"

definition inside :: "raster_edge list \<Rightarrow> int \<Rightarrow> int \<Rightarrow> bool" where
  "inside es sx sy \<longleftrightarrow> odd (length (filter (hit sx sy) es))"

definition pixel :: "raster_edge list \<Rightarrow> int \<Rightarrow> int \<Rightarrow> u8" where
  "pixel es x y = of_nat ((length (filter (\<lambda>(a, b). inside es (x * 16 + a) (y * 16 + b)) samples) * 255 + 8) div 16)"

lemma to_s32_id: "- (2 ^ 31) \<le> v \<Longrightarrow> v < 2 ^ 31 \<Longrightarrow> to_s32 v = v"
  by (simp add: to_s32_def signed_take_bit_int_eq_self)

lemma crosses_hit:
  assumes "edge_ok cell_max e" "\<bar>sy\<bar> \<le> cell_max"
  shows "crosses e sx sy = Some (hit sx sy e)"
proof -
  define d where "d = upright e"
  have d: "edge_ok cell_max d" using assms(1) by (auto simp: d_def upright_def edge_ok_def)
  show ?thesis
  proof (cases "sy < edge_y0 d \<or> sy \<ge> edge_y1 d")
    case True
    then show ?thesis by (auto simp: crosses_def hit_def Let_def d_def)
  next
    case False
    let ?dy = "sy - edge_y0 d" and ?dx = "edge_x1 d - edge_x0 d" and ?h = "edge_y1 d - edge_y0 d"
    have h: "0 \<le> ?dy" "?dy \<le> ?h" "0 < ?h" using False by auto
    have dx: "\<bar>?dx\<bar> \<le> 2 * cell_max" using d by (auto simp: edge_ok_def)
    have "\<bar>?dy * ?dx\<bar> \<le> \<bar>?dx\<bar> * ?h"
      using h(1,2) mult_left_mono [OF h(2), of "\<bar>?dx\<bar>"] by (simp add: abs_mult mult.commute)
    then have q: "\<bar>(?dy * ?dx) sdiv ?h\<bar> \<le> 2 * cell_max" using abs_sdiv_le [of "?dy * ?dx" "\<bar>?dx\<bar>" ?h] h(3) dx by linarith
    have i: "i32 ?dy = Some ?dy" "i32 ?dx = Some ?dx" "i32 ?h = Some ?h"
      using d dx h assms(2) by (auto simp: i32_def edge_ok_def cell_max_def)
    have s: "to_s32 ((?dy * ?dx) sdiv ?h) = (?dy * ?dx) sdiv ?h" using q by (intro to_s32_id) (auto simp: cell_max_def)
    have "i32 (edge_x0 d + (?dy * ?dx) sdiv ?h) = Some (edge_x0 d + (?dy * ?dx) sdiv ?h)"
      using q d by (auto simp: i32_def edge_ok_def cell_max_def)
    then show ?thesis
      using False h(3) i s unfolding crosses_def hit_def Let_def d_def [symmetric] by simp
  qed
qed

lemma inside_loop_ok:
  assumes "\<forall>e \<in> set edges. edge_ok cell_max e" "\<bar>sy\<bar> \<le> cell_max"
  shows "\<forall>i \<in> set is. i < length edges \<Longrightarrow>
    inside_loop edges sx sy is b = Some (b \<noteq> odd (length (filter (hit sx sy) (map ((!) edges) is))))"
proof (induction "is" arbitrary: b)
  case (Cons i "is")
  then have "crosses (edges ! i) sx sy = Some (hit sx sy (edges ! i))" using assms by (intro crosses_hit) auto
  then show ?case using Cons by auto
qed simp

lemma point_inside_ok:
  assumes "edges_ok (edges, n)" "\<bar>sy\<bar> \<le> cell_max"
  shows "point_inside_outline (edges, n) sx sy = Some (inside (take n edges) sx sy)"
proof -
  have "map ((!) edges) [0..<n] = take n edges"
    using assms(1) by (intro nth_equalityI) (auto simp: edges_ok_def)
  then show ?thesis
    using inside_loop_ok [of edges sy "[0..<n]" sx False] assms
    by (auto simp: edges_ok_def point_inside_outline_def inside_def)
qed

lemma coverage_loop_ok:
  assumes "edges_ok (edges, n)" "\<bar>y\<bar> \<le> 1000"
  shows "\<forall>(a, b) \<in> set ss. \<bar>b\<bar> \<le> 16 \<Longrightarrow>
    coverage_loop (edges, n) x y ss k = Some (k + length (filter (\<lambda>(a, b). inside (take n edges) (x * 16 + a) (y * 16 + b)) ss))"
proof (induction ss arbitrary: k)
  case (Cons s ss)
  obtain a b where s: "s = (a, b)" by (cases s)
  have "\<bar>y * 16 + b\<bar> \<le> cell_max" using Cons.prems assms(2) by (auto simp: s cell_max_def)
  then show ?case using Cons point_inside_ok [OF assms(1)] by (simp add: s)
qed simp

lemma rasterize_coverage_ok:
  assumes "edges_ok (edges, n)" "\<bar>y\<bar> \<le> 1000"
  shows "rasterize_coverage (edges, n) x y = Some (pixel (take n edges) x y)"
proof -
  have "\<forall>(a, b) \<in> set samples. \<bar>b\<bar> \<le> 16" by (simp add: samples_def)
  from coverage_loop_ok [OF assms this, of x 0] show ?thesis by (simp add: rasterize_coverage_def pixel_def)
qed

text \<open>No pixel value wraps around.\<close>

lemma pixel_bound:
  "unat (pixel es x y) = (length (filter (\<lambda>(a, b). inside es (x * 16 + a) (y * 16 + b)) samples) * 255 + 8) div 16"
proof -
  let ?n = "length (filter (\<lambda>(a, b). inside es (x * 16 + a) (y * 16 + b)) samples)"
  have "?n \<le> length samples" by (rule length_filter_le)
  then have "?n \<le> 16" by (simp add: samples_def)
  then have "(?n * 255 + 8) div 16 < 256" by simp
  then show ?thesis by (simp add: pixel_def unat_of_nat)
qed

lemma glyph_edges_safe:
  assumes "wf_font f" "metrics_ok m" "256 \<le> design_span m"
  shows "safe edges_ok (glyph_edges f m g)"
  unfolding glyph_edges_def
  by (intro safe_chain [OF load_glyph_outline_safe [OF assms(1)]] safe_if
      safe_chain [OF scale_outline_to_cell_safe [OF assms(2,3)]] outline_edges_safe) auto

end
