(* ===== verification/Font_Bitmap.thy ===== *)
theory Font_Bitmap
  imports Font_Raster
begin

text \<open>
  What the loader of the system font leaves in \<^verbatim>\<open>system_font_alpha\<close>: the cells of the 256 characters one after
  the other, each the picture of its glyph or the box for a missing one.
\<close>

section \<open>Cells\<close>

definition missing_cell :: "u8 list" where
  "missing_cell = map (\<lambda>i. let y = i div 13; x = i mod 13 in
     if (y = 3 \<or> y = 24) \<and> 2 \<le> x \<and> x < 11 \<or> (x = 2 \<or> x = 10) \<and> 3 \<le> y \<and> y < 26 then 220 else 0) [0..<364]"

definition pixel_cell :: "raster_edge list \<Rightarrow> u8 list" where
  "pixel_cell es = map (\<lambda>i. pixel es (int (i mod 13)) (int (i div 13))) [0..<364]"

text \<open>The edges that stand for a character, if it has a picture.\<close>

definition char_edges :: "ttf_font \<Rightarrow> font_metrics \<Rightarrow> nat \<Rightarrow> raster_edge list option" where
  "char_edges f m c =
     (if c = 32 then Some []
      else case glyph_for_codepoint f (of_nat c) of
        None \<Rightarrow> None
      | Some g \<Rightarrow>
          if g = 0 then None
          else (case glyph_edges f m g of Some (Some (edges, n)) \<Rightarrow> Some (take n edges) | _ \<Rightarrow> None))"

definition char_cell :: "ttf_font \<Rightarrow> font_metrics \<Rightarrow> nat \<Rightarrow> u8 list" where
  "char_cell f m c = (case char_edges f m c of None \<Rightarrow> missing_cell | Some es \<Rightarrow> pixel_cell es)"

lemma length_cells [simp]: "length missing_cell = 364" "length (pixel_cell es) = 364" "length (char_cell f m c) = 364"
  by (simp_all add: missing_cell_def pixel_cell_def char_cell_def split: option.split)

definition put :: "(nat \<times> u8) list \<Rightarrow> u8 list \<Rightarrow> u8 list" where
  "put ivs c = fold (\<lambda>(i, v) c. c[i := v]) ivs c"

lemma length_put [simp]: "length (put ivs c) = length c"
  by (induction ivs arbitrary: c) (auto simp: put_def)

lemma store_rows_put:
  "\<forall>(i, v) \<in> set ivs. i < length c \<Longrightarrow> store_rows (length a) ivs (a @ c @ b) = Some (a @ put ivs c @ b)"
proof (induction ivs arbitrary: c)
  case (Cons iv ivs)
  obtain i v where iv: "iv = (i, v)" by (cases iv)
  have "(a @ c @ b)[length a + i := v] = a @ c[i := v] @ b" using Cons.prems by (simp add: iv list_update_append)
  then show ?case using Cons by (auto simp: iv put_def)
qed (simp add: put_def)

lemma put_upto: "n \<le> length c \<Longrightarrow> put (map (\<lambda>i. (i, g i)) [0..<n]) c = map g [0..<n] @ drop n c"
proof (induction n)
  case (Suc n)
  have "put (map (\<lambda>i. (i, g i)) [0..<Suc n]) c = (put (map (\<lambda>i. (i, g i)) [0..<n]) c)[n := g n]"
    by (simp add: put_def)
  also have "\<dots> = map g [0..<n] @ (drop n c)[0 := g n]" using Suc by (simp add: list_update_append)
  also have "drop n c = c ! n # drop (Suc n) c" using Suc.prems by (simp add: Cons_nth_drop_Suc)
  finally show ?case by simp
qed (simp add: put_def)

lemma clear_rows_ok:
  assumes "length c = 364"
  shows "clear_rows (length a) (a @ c @ b) = Some (a @ replicate 364 0 @ b)"
proof -
  have "put (map (\<lambda>i. (i, 0)) [0..<364]) c = replicate 364 0"
    using put_upto [of 364 c "\<lambda>i. 0"] assms by (simp add: map_replicate_const del: upt_rec_numeral)
  then show ?thesis
    using store_rows_put [of "map (\<lambda>i. (i, 0)) [0..<364]" c a b] assms
    by (simp add: clear_rows_def del: upt_rec_numeral)
qed

lemma missing_box_cell: "put missing_box (replicate 364 0) = missing_cell"
  by code_simp

lemma draw_missing_ok:
  assumes "length c = 364"
  shows "draw_missing_glyph (length a) (a @ c @ b) = Some (a @ missing_cell @ b)"
proof -
  have "list_all (\<lambda>(i, v). i < 364) missing_box" by code_simp
  then have "\<forall>(i, v) \<in> set missing_box. i < length (replicate 364 (0 :: u8))" by (simp add: list_all_iff)
  from store_rows_put [OF this, of a b] show ?thesis
    using clear_rows_ok [OF assms] missing_box_cell by (simp add: draw_missing_glyph_def)
qed

lemma raster_loop_put:
  assumes "edges_ok (edges, n)"
  shows "\<forall>(y, x) \<in> set cells. y < 28 \<and> x < 13 \<Longrightarrow> length c = 364 \<Longrightarrow>
    raster_loop (edges, n) (length a) cells (a @ c @ b) =
      Some (a @ put (map (\<lambda>(y, x). (y * 13 + x, pixel (take n edges) (int x) (int y))) cells) c @ b)"
proof (induction cells arbitrary: c)
  case (Cons yx cells)
  obtain y x where yx: "yx = (y, x)" by (cases yx)
  have b: "y < 28" "x < 13" using Cons.prems(1) by (auto simp: yx)
  then have i: "y * 13 + x < length c" using Cons.prems(2) by simp
  have "rasterize_coverage (edges, n) (int x) (int y) = Some (pixel (take n edges) (int x) (int y))"
    using b by (intro rasterize_coverage_ok [OF assms]) simp
  moreover have "setb (a @ c @ b) (length a + y * 13 + x) v = Some (a @ c[y * 13 + x := v] @ b)" for v
    using i by (simp add: list_update_append)
  ultimately show ?case using Cons by (simp add: yx put_def)
qed (simp add: put_def)

lemma raster_cells: "map (\<lambda>(y, x). (y * 13 + x, p (int x) (int y))) (List.product [0..<28] [0..<13]) =
    map (\<lambda>i. (i, p (int (i mod 13)) (int (i div 13)))) [0..<364]"
proof -
  have p: "List.product [0..<28] [0..<13] = map (\<lambda>i. (i div 13, i mod 13)) [0..<364 :: nat]" by code_simp
  show ?thesis unfolding p by (simp add: comp_def del: upt_rec_numeral)
qed

lemma raster_loop_ok:
  assumes "edges_ok (edges, n)" "length c = 364"
  shows "raster_loop (edges, n) (length a) (List.product [0..<28] [0..<13]) (a @ c @ b) = Some (a @ pixel_cell (take n edges) @ b)"
proof -
  have "\<forall>(y, x) \<in> set (List.product [0..<28] [0..<13]). y < 28 \<and> x < (13 :: nat)" by auto
  from raster_loop_put [OF assms(1) this assms(2)] show ?thesis
    using put_upto [of 364 c "\<lambda>i. pixel (take n edges) (int (i mod 13)) (int (i div 13))"] assms(2)
    by (simp add: raster_cells pixel_cell_def del: upt_rec_numeral)
qed

section \<open>The whole bitmap\<close>

lemma pixel_cell_empty: "pixel_cell [] = replicate 364 0"
  by (simp add: pixel_cell_def pixel_def inside_def map_replicate_const del: upt_rec_numeral)

lemma of_nat_char: "c < 256 \<Longrightarrow> (of_nat c :: u32) = 32 \<longleftrightarrow> c = 32"
  by (simp add: word_unat_eq_iff unat_of_nat)

lemma rasterize_glyph_ok:
  assumes "wf_font f" "metrics_ok m" "256 \<le> design_span m" "c < 256" "length cell = 364"
  shows "rasterize_glyph f m (of_nat c) (length a) (a @ cell @ b) = Some (char_edges f m c \<noteq> None,
    a @ (case char_edges f m c of None \<Rightarrow> replicate 364 0 | Some es \<Rightarrow> pixel_cell es) @ b)"
proof -
  note clear = clear_rows_ok [OF assms(5), of a b]
  obtain g where g: "glyph_for_codepoint f (of_nat c) = Some g" using glyph_for_codepoint_runs [OF assms(1)] by (auto simp: runs_def)
  obtain r where r: "glyph_edges f m g = Some r" "pred_option edges_ok r"
    using glyph_edges_safe [OF assms(1-3)] by (auto simp: safe_def runs_def)
  show ?thesis
  proof (cases "c = 32 \<or> g = 0 \<or> r = None")
    case True
    then show ?thesis using clear g r(1) of_nat_char [OF assms(4)]
      by (auto simp: rasterize_glyph_def char_edges_def pixel_cell_empty)
  next
    case False
    then obtain edges n where e: "r = Some (edges, n)" "edges_ok (edges, n)" using r(2) by (cases r) auto
    then show ?thesis using clear g r(1) of_nat_char [OF assms(4)] False raster_loop_ok [OF e(2), of "replicate 364 0" a b]
      by (auto simp: rasterize_glyph_def char_edges_def)
  qed
qed

lemma glyphs_loop_ok:
  assumes "wf_font f" "metrics_ok m" "256 \<le> design_span m"
  shows "k \<le> 256 \<Longrightarrow> length a = k * 364 \<Longrightarrow> length b = (256 - k) * 364 \<Longrightarrow> length failed = 96 \<Longrightarrow> fc \<le> 95 \<Longrightarrow>
    \<exists>failed' fc'. glyphs_loop f m [k..<256] rendered failed fc (a @ b) =
      Some (rendered + length (filter (\<lambda>c. char_edges f m c \<noteq> None) [k..<256]), failed', fc',
        a @ concat (map (char_cell f m) [k..<256])) \<and> length failed' = 96 \<and> fc' \<le> 95"
proof (induction "256 - k" arbitrary: k a b rendered failed fc)
  case 0
  then show ?case by simp
next
  case (Suc d)
  then have k: "k < 256" "[k..<256] = k # [Suc k..<256]" by (simp_all add: upt_conv_Cons)
  define cell b' where d: "cell = take 364 b" "b' = drop 364 b"
  have b: "b = cell @ b'" "length cell = 364" "length b' = (256 - Suc k) * 364"
    using Suc.prems(3) k(1) by (auto simp: d)
  have base: "k * XBKS_TTY_FONT_WIDTH * XBKS_TTY_FONT_HEIGHT = length a" using Suc.prems(2) by simp
  have l: "length (a @ char_cell f m k) = Suc k * 364" using Suc.prems(2) by simp
  have d': "d = 256 - Suc k" "Suc k \<le> 256" using Suc.hyps(2) k(1) by simp_all
  note ih = Suc.hyps(1) [OF d' l b(3)]
  note r = rasterize_glyph_ok [OF assms k(1) b(2), of a b']
  show ?case
  proof (cases "char_edges f m k")
    case None
    obtain fl fn where fl: "(if k \<ge> 0x21 \<and> k \<le> 0x7e \<and> fc + 1 < 96
          then do { f \<leftarrow> setb failed fc (of_nat k); Some (f, fc + 1) } else Some (failed, fc)) = Some (fl, fn)"
        "length fl = 96" "fn \<le> 95"
      using Suc.prems(4,5) by (cases "k \<ge> 0x21 \<and> k \<le> 0x7e \<and> fc + 1 < 96") auto
    have "draw_missing_glyph (length a) (a @ replicate 364 0 @ b') = Some (a @ char_cell f m k @ b')"
      using draw_missing_ok [of "replicate 364 0" a b'] None by (simp add: char_cell_def)
    moreover obtain fl' fc' where "glyphs_loop f m [Suc k..<256] rendered fl fn (a @ char_cell f m k @ b') =
      Some (rendered + length (filter (\<lambda>c. char_edges f m c \<noteq> None) [Suc k..<256]), fl', fc',
        a @ char_cell f m k @ concat (map (char_cell f m) [Suc k..<256]))" "length fl' = 96" "fc' \<le> 95"
      using ih [OF fl(2,3), of rendered] by auto
    ultimately show ?thesis
      unfolding k(2) glyphs_loop.simps Let_def base b(1) r using None fl(1) by simp
  next
    case (Some es)
    then have "char_cell f m k = pixel_cell es" by (simp add: char_cell_def)
    moreover obtain fl' fc' where "glyphs_loop f m [Suc k..<256] (rendered + 1) failed fc (a @ char_cell f m k @ b') =
      Some (rendered + 1 + length (filter (\<lambda>c. char_edges f m c \<noteq> None) [Suc k..<256]), fl', fc',
        a @ char_cell f m k @ concat (map (char_cell f m) [Suc k..<256]))" "length fl' = 96" "fc' \<le> 95"
      using ih [OF Suc.prems(4,5), of "rendered + 1"] by auto
    ultimately show ?thesis
      unfolding k(2) glyphs_loop.simps Let_def base b(1) r using Some by simp
  qed
qed

section \<open>The loader\<close>

text \<open>What the boot loader promises of a module: its size is that of its block, and its strings are terminated.\<close>

definition module_ok :: "limine_file \<Rightarrow> bool" where
  "module_ok m \<longleftrightarrow> (\<forall>d. lf_address m = Some d \<longrightarrow> unat (lf_size m) = length d) \<and>
     pred_option terminated (lf_string m) \<and> pred_option terminated (lf_path m)"

definition module_list_ok :: "module_response \<Rightarrow> bool" where
  "module_list_ok modules \<longleftrightarrow> (\<forall>ms m. modules = Some ms \<longrightarrow> Some m \<in> set ms \<longrightarrow> module_ok m)"

lemma string_ends_with_runs:
  assumes "terminated t" "terminated u"
  shows "runs (\<lambda>b. True) (string_ends_with t u)"
proof -
  obtain s r where t: "t = s @ 0 # r" "cstr t = s" using assms(1) by (rule terminatedE)
  have "terminated (drop n t)" if "n \<le> length (cstr t)" for n using that t by simp
  then have "terminated (drop (length (cstr t) - length (cstr u)) t)" by simp
  then have "\<exists>r. strcmp (drop (length (cstr t) - length (cstr u)) t) u = Some r" using strcmp_cstr [OF _ assms(2)] by blast
  then show ?thesis using assms by (auto simp: string_ends_with_def strlen_cstr)
qed

lemma module_is_font_runs:
  assumes "module_ok m"
  shows "runs (\<lambda>b. True) (module_is_font m)"
proof -
  let ?s = "case lf_string m of None \<Rightarrow> lit [] | Some t \<Rightarrow> t" and ?p = "case lf_path m of None \<Rightarrow> lit [] | Some t \<Rightarrow> t"
  have t: "terminated ?s" "terminated ?p"
    using assms by (auto simp: module_ok_def lit_terminated split: option.splits)
  obtain r where "strcmp ?s (lit ''system-font'') = Some r" using strcmp_cstr [OF t(1) lit_terminated] by blast
  then show ?thesis
    unfolding module_is_font_def Let_def
    by (simp, intro conjI impI runs_bind [OF string_ends_with_runs] runs_if string_ends_with_runs)
      (simp_all add: t lit_terminated)
qed

lemma font_module_search_ok:
  "\<forall>m. Some m \<in> set ms \<longrightarrow> module_ok m \<Longrightarrow>
   safe (\<lambda>m. Some m \<in> set ms \<and> lf_address m \<noteq> None) (font_module_search ms)"
proof (induction ms)
  case (Cons x ms)
  then have ih: "safe (\<lambda>m. Some m \<in> set (x # ms) \<and> lf_address m \<noteq> None) (font_module_search ms)"
    by (auto intro: safe_mono)
  show ?case
  proof (cases x)
    case (Some m)
    then obtain b where "module_is_font m = Some b" using module_is_font_runs [of m] Cons.prems by (auto simp: runs_def)
    then show ?thesis using ih Some by simp
  qed (use ih in simp)
qed simp

text \<open>
  A font that the loader can draw: the line box of its header is at least 256 units high, so that no scaled coordinate
  overflows. Fonts have 1000 or 2048 units per em.
\<close>

definition tall :: "ttf_font \<Rightarrow> bool" where
  "tall f \<longleftrightarrow> (case line_box f of (t, b, g) \<Rightarrow> 256 \<le> t - b)"

definition drawable :: "limine_file \<Rightarrow> bool" where
  "drawable module \<longleftrightarrow> (\<forall>d f. lf_address module = Some d \<longrightarrow> parse_ttf d (lf_size module) = Some (Some f) \<longrightarrow> tall f)"

lemma build_font_metrics_ok:
  assumes "wf_font f"
  shows "safe (\<lambda>m. metrics_ok m \<and> (tall f \<longrightarrow> 256 \<le> design_span m)) (build_font_metrics f)"
  using build_font_metrics_safe [OF assms] by (cases "line_box f") (auto simp: tall_def intro: safe_mono)

definition font_of :: "limine_file \<Rightarrow> xbks_bitmap_font \<Rightarrow> bool" where
  "font_of module bf \<longleftrightarrow> (\<exists>d f m. lf_address module = Some d \<and> parse_ttf d (lf_size module) = Some (Some f) \<and>
     build_font_metrics f = Some (Some m) \<and> font_alpha bf = concat (map (char_cell f m) [0..<256]) \<and>
     font_glyphs bf = 256 \<and> font_width bf = 13 \<and> font_height bf = 28 \<and> terminated (font_source bf))"

lemma fits_font_formats:
  "fits (cstr (lit ''system TTF terminal font loaded: %zu glyphs, cell=%zux%zu'')) [KLong, KLong, KLong]"
  "fits (cstr (lit ''system TTF missing ASCII glyphs: %s'')) [KStr]"
  by code_simp+

lemma font_logs_ok:
  assumes "serial_fair s" "terminated failed"
  shows "\<exists>s1 s2 t. xbks_log_printf XBKS_LOG_INFO (lit ''system TTF terminal font loaded: %zu glyphs, cell=%zux%zu'')
      [ArgLong n, ArgLong 13, ArgLong 28] s = Some s1 \<and>
    (if fc \<noteq> 0 then xbks_log_printf XBKS_LOG_WARN (lit ''system TTF missing ASCII glyphs: %s'') [ArgStr (Some failed)] s1 else Some s1) = Some s2 \<and>
    wrote s t s2"
proof -
  obtain s1 t1 where s1: "xbks_log_printf XBKS_LOG_INFO (lit ''system TTF terminal font loaded: %zu glyphs, cell=%zux%zu'')
      [ArgLong n, ArgLong 13, ArgLong 28] s = Some s1" "wrote s t1 s1"
    using log_printf_fits [OF assms(1) lit_terminated, of "[ArgLong n, ArgLong 13, ArgLong 28]"] fits_font_formats(1)
    by (fastforce simp: arg_ok_def)
  obtain s2 t2 where "xbks_log_printf XBKS_LOG_WARN (lit ''system TTF missing ASCII glyphs: %s'') [ArgStr (Some failed)] s1 = Some s2" "wrote s1 t2 s2"
    using log_printf_fits [OF wrote_fair [OF s1(2) assms(1)] lit_terminated, of "[ArgStr (Some failed)]"] fits_font_formats(2) assms(2)
    by (fastforce simp: arg_ok_def)
  then show ?thesis using s1 wrote_trans [OF s1(2)] by (cases "fc = 0") auto
qed

lemma font_load_ok:
  assumes mods: "module_list_ok modules" and d: "\<forall>ms m. modules = Some ms \<longrightarrow> Some m \<in> set ms \<longrightarrow> drawable m"
    and io: "serial_fair io0" and al: "length alpha = 93184"
  shows "\<exists>r alpha' io' t. xbks_font_load_system_tty modules alpha io0 = Some (r, alpha', io') \<and> wrote io0 t io' \<and>
    (case r of None \<Rightarrow> alpha' = alpha
     | Some bf \<Rightarrow> alpha' = font_alpha bf \<and> (\<exists>ms m. modules = Some ms \<and> Some m \<in> set ms \<and> font_of m bf))"
proof -
  have refuse: "\<exists>io' t. map_option (\<lambda>io1. (None :: xbks_bitmap_font option, alpha, io1)) (xbks_log_write XBKS_LOG_WARN (lit message) io0) = Some (None, alpha, io') \<and>
      wrote io0 t io'" for message
    using log_write_fair [OF io lit_terminated, of XBKS_LOG_WARN message] by auto
  have "safe (\<lambda>m. \<exists>ms. modules = Some ms \<and> Some m \<in> set ms \<and> lf_address m \<noteq> None) (find_font_module modules)"
  proof (cases modules)
    case (Some ms)
    then show ?thesis using font_module_search_ok [of ms] mods
      by (auto simp: find_font_module_def module_list_ok_def intro: safe_mono)
  qed (simp add: find_font_module_def)
  then obtain found where found: "find_font_module modules = Some found"
      "\<forall>m. found = Some m \<longrightarrow> (\<exists>ms. modules = Some ms \<and> Some m \<in> set ms \<and> lf_address m \<noteq> None)"
    by (auto simp: safe_def runs_def option.pred_set)
  show ?thesis
  proof (cases found)
    case None
    then show ?thesis using refuse found(1) by (fastforce simp: xbks_font_load_system_tty_def)
  next
    case (Some m)
    then obtain ms dat where m: "modules = Some ms" "Some m \<in> set ms" "lf_address m = Some dat" using found(2) by auto
    have mok: "module_ok m" using mods m(1,2) by (auto simp: module_list_ok_def)
    obtain parsed where parsed: "parse_ttf dat (lf_size m) = Some parsed" "pred_option wf_font parsed"
      using parse_ttf_safe [of "lf_size m" dat] mok m(3) by (auto simp: module_ok_def safe_def runs_def)
    show ?thesis
    proof (cases parsed)
      case None
      then show ?thesis using refuse found(1) Some m(3) parsed(1) by (fastforce simp: xbks_font_load_system_tty_def)
    next
      case (Some f)
      then have wf: "wf_font f" using parsed(2) by simp
      obtain me where me: "build_font_metrics f = Some me" "pred_option (\<lambda>m. metrics_ok m \<and> (tall f \<longrightarrow> 256 \<le> design_span m)) me"
        using build_font_metrics_ok [OF wf] by (auto simp: safe_def runs_def)
      show ?thesis
      proof (cases me)
        case None
        then show ?thesis using refuse found(1) \<open>found = Some m\<close> m(3) parsed(1) Some me(1)
          by (fastforce simp: xbks_font_load_system_tty_def)
      next
        case (Some mt)
        have mt: "metrics_ok mt" "256 \<le> design_span mt"
          using me Some d m parsed(1) \<open>parsed = Some f\<close> by (auto simp: drawable_def)
        let ?n = "length (filter (\<lambda>c. char_edges f mt c \<noteq> None) [0..<256])"
        obtain failed fc where g: "glyphs_loop f mt [0..<256] 0 (replicate 96 0) 0 alpha =
            Some (?n, failed, fc, concat (map (char_cell f mt) [0..<256]))" "length failed = 96" "fc \<le> 95"
          using glyphs_loop_ok [OF wf mt, of 0 "[]" alpha "replicate 96 0" 0 0] al by auto
        have "terminated (failed[fc := 0])" using g(2,3) by (simp add: terminated_def set_update_memI)
        from font_logs_ok [OF io this, of "of_nat ?n" fc] obtain s1 s2 t where
          logs: "xbks_log_printf XBKS_LOG_INFO (lit ''system TTF terminal font loaded: %zu glyphs, cell=%zux%zu'')
              [ArgLong (of_nat ?n), ArgLong 13, ArgLong 28] io0 = Some s1"
            "(if fc \<noteq> 0 then xbks_log_printf XBKS_LOG_WARN (lit ''system TTF missing ASCII glyphs: %s'') [ArgStr (Some (failed[fc := 0]))] s1 else Some s1) = Some s2"
            "wrote io0 t s2" by blast
        let ?bf = "\<lparr>font_alpha = concat (map (char_cell f mt) [0..<256]), font_glyphs = 256, font_width = 13, font_height = 28,
            font_source = (case lf_path m of None \<Rightarrow> lit ''system-font'' | Some path \<Rightarrow> path)\<rparr>"
        have "xbks_font_load_system_tty modules alpha io0 = Some (Some ?bf, font_alpha ?bf, s2)"
          using found(1) \<open>found = Some m\<close> m(3) parsed(1) \<open>parsed = Some f\<close> me(1) Some g logs
          unfolding xbks_font_load_system_tty_def Let_def by (simp del: upt_rec_numeral)
        moreover have "font_of m ?bf"
          using m(3) parsed(1) \<open>parsed = Some f\<close> me(1) Some mok
          by (auto simp: font_of_def module_ok_def lit_terminated split: option.split simp del: upt_rec_numeral)
        ultimately show ?thesis using logs(3) m(1,2) by (intro exI conjI) (auto simp del: upt_rec_numeral)
      qed
    qed
  qed
qed

end
