(* ===== verification/Boot.thy ===== *)
theory Boot
  imports Syscall_Entry Shell Font_Bitmap
begin

text \<open>
  From the boot loader to the first program: the entry and the requests (\<^verbatim>\<open>boot/limine_requests.c\<close>), the start of the terminal
  (\<^verbatim>\<open>drivers/tty.c\<close>), \<^verbatim>\<open>xbks_kernel_main\<close> (\<^verbatim>\<open>kernel/main.c\<close>) and \<^verbatim>\<open>xbks_panic\<close>
  (\<^verbatim>\<open>kernel/panic.c\<close>), with all parts of the kernel put together.

  The terminal emulator is a library: what its two constructors return for their arguments is a parameter, 0 for failure. The
  other parameters are chosen by the linker or left over from before: the addresses of the descriptor table and of the entry
  point, and the contents of the buffer of the shell.
\<close>

section \<open>Terminal\<close>

text \<open>
  The arguments of \<^verbatim>\<open>flanterm_fb_init\<close> and \<^verbatim>\<open>flanterm_fb_init_alpha\<close> that are not null: those from the frame buffer, the font,
  and the numbers. Both calls give null for the allocator, the canvas and the colours, and no rotation.
\<close>

record flanterm_args =
  fl_framebuffer :: limine_framebuffer
  fl_font :: "u8 list option"
  fl_font_width :: u64
  fl_font_height :: u64
  fl_font_spacing :: u64
  fl_font_scale_x :: u64
  fl_font_scale_y :: u64
  fl_margin :: u64

record platform =
  flanterm_fb_init_alpha :: "flanterm_args \<Rightarrow> u64"
  flanterm_fb_init :: "flanterm_args \<Rightarrow> u64"
  gdt_address :: u64
  syscall_entry_address :: u64
  shell_line :: "u8 list"

definition alpha_args :: "limine_framebuffer \<Rightarrow> xbks_bitmap_font \<Rightarrow> flanterm_args" where
  "alpha_args fb font = \<lparr>fl_framebuffer = fb, fl_font = Some (font_alpha font), fl_font_width = font_width font,
     fl_font_height = font_height font, fl_font_spacing = 1, fl_font_scale_x = 1, fl_font_scale_y = 1, fl_margin = 0\<rparr>"

definition builtin_args :: "limine_framebuffer \<Rightarrow> flanterm_args" where
  "builtin_args fb = \<lparr>fl_framebuffer = fb, fl_font = None, fl_font_width = 0, fl_font_height = 0, fl_font_spacing = 0,
     fl_font_scale_x = 0, fl_font_scale_y = 0, fl_margin = 0\<rparr>"

definition start_terminal :: "platform \<Rightarrow> limine_framebuffer \<Rightarrow> xbks_bitmap_font option \<Rightarrow> io_state \<Rightarrow> (bool \<times> io_state) option" where
  "start_terminal pf fb font d = do {
     let d1 = (case font of Some f \<Rightarrow> d\<lparr>tty_context := flanterm_fb_init_alpha pf (alpha_args fb f)\<rparr> | None \<Rightarrow> d);
     let d2 = (if tty_context d1 = 0 then d1\<lparr>tty_context := flanterm_fb_init pf (builtin_args fb)\<rparr> else d1);
     d3 \<leftarrow> (case font of
             Some f \<Rightarrow> if tty_context d2 \<noteq> 0
               then xbks_log_printf XBKS_LOG_INFO (lit ''TTY using TTF font module: %s'') [ArgStr (Some (font_source f))] d2
               else Some d2
           | None \<Rightarrow> Some d2);
     Some (tty_context d3 \<noteq> 0, d3) }"

definition xbks_tty_init ::
  "platform \<Rightarrow> limine_framebuffers option \<Rightarrow> module_response \<Rightarrow> u8 list \<Rightarrow> io_state \<Rightarrow> (bool \<times> u8 list \<times> io_state) option" where
  "xbks_tty_init pf response modules alpha d =
     (case response of
        None \<Rightarrow> Some (False, alpha, d)
      | Some r \<Rightarrow>
          if framebuffer_count r = 0 then Some (False, alpha, d)
          else case framebuffers r of
            None \<Rightarrow> Some (False, alpha, d)
          | Some fbs \<Rightarrow> do {
              fb \<leftarrow> getb fbs 0;
              case fb of
                None \<Rightarrow> Some (False, alpha, d)
              | Some fb \<Rightarrow>
                  if fb_address fb = 0 \<or> fb_bpp fb \<noteq> 32 then Some (False, alpha, d)
                  else do {
                    (font, alpha', d1) \<leftarrow> xbks_font_load_system_tty modules alpha d;
                    (ok, d2) \<leftarrow> start_terminal pf fb font d1;
                    Some (ok, alpha', d2) } })"

section \<open>The kernel\<close>

record machine =
  m_kernel :: kernel
  m_cpu :: cpu_state
  m_alpha :: "u8 list" \<comment> \<open>\<^verbatim>\<open>system_font_alpha\<close>\<close>

datatype boot_result =
  Halted machine \<comment> \<open>the \<^verbatim>\<open>hlt\<close> loop with interrupts off\<close>
| Entered user_regs machine \<comment> \<open>in user mode\<close>
| Rebooted machine \<comment> \<open>reset by the shell\<close>

definition set_io :: "io_state \<Rightarrow> machine \<Rightarrow> machine" where
  "set_io d m = m\<lparr>m_kernel := (m_kernel m)\<lparr>io := d\<rparr>\<rparr>"

definition xbks_panic :: "u8 list \<Rightarrow> machine \<Rightarrow> boot_result option" where
  "xbks_panic message m = do {
     d \<leftarrow> xbks_log_write XBKS_LOG_ERROR message (io (m_kernel m));
     Some (Halted (set_io d m)) }"

definition xbks_kernel_main :: "platform \<Rightarrow> xbks_boot_info option \<Rightarrow> machine \<Rightarrow> boot_result option" where
  "xbks_kernel_main pf boot_info m0 = do {
     let m = set_io (xbks_log_init (io (m_kernel m0))) m0;
     case boot_info of
       None \<Rightarrow> xbks_panic (lit ''boot information is null'') m
     | Some bi \<Rightarrow> do {
         d1 \<leftarrow> xbks_log_write XBKS_LOG_INFO (lit ''xbks kernel entered through Limine'') (io (m_kernel m));
         (c, d2) \<leftarrow> xbks_arch_early_init (gdt_address pf) (syscall_entry_address pf) (m_cpu m) d1;
         (mm1, d3) \<leftarrow> xbks_mm_init bi (mm (m_kernel m)) d2;
         (available, alpha, d4) \<leftarrow> xbks_tty_init pf (bi_framebuffer bi) (bi_modules bi) (m_alpha m) d3;
         d5 \<leftarrow> xbks_arch_late_init d4;
         started \<leftarrow> xbks_process_start_init (bi_modules bi) ((m_kernel m)\<lparr>mm := mm1, io := d5\<rparr>);
         case started of
           EnterUser entry_point stack k \<Rightarrow>
             Some (Entered (xbks_x86_64_enter_user entry_point stack) \<lparr>m_kernel = k, m_cpu = c, m_alpha = alpha\<rparr>)
         | NoInit k \<Rightarrow> do {
             d6 \<leftarrow> xbks_shell_run bi (shell_line pf) (io k);
             Some (Rebooted \<lparr>m_kernel = k\<lparr>io := d6\<rparr>, m_cpu = c, m_alpha = alpha\<rparr>) } } }"

text \<open>
  The responses that the boot loader has stored into the requests. Whether it supports the revision of the protocol
  is what the macro \<^verbatim>\<open>LIMINE_BASE_REVISION_SUPPORTED\<close> reads from its answer.
\<close>

record limine_responses =
  base_revision_supported :: bool
  bootloader_info_response :: "limine_bootloader_info option"
  executable_cmdline_response :: "u8 list option option"
  firmware_type_response :: u64
  hhdm_response :: "u64 option"
  memmap_response :: "limine_memmap_entry list option"
  executable_file_response :: u64
  framebuffer_response :: "limine_framebuffers option"
  module_responses :: module_response

definition xbks_limine_base_revision_supported :: "limine_responses \<Rightarrow> bool" where
  "xbks_limine_base_revision_supported r = base_revision_supported r"

definition xbks_limine_boot_info :: "limine_responses \<Rightarrow> xbks_boot_info" where
  "xbks_limine_boot_info r = \<lparr>bi_bootloader = bootloader_info_response r, bi_cmdline = executable_cmdline_response r,
     bi_firmware = firmware_type_response r, bi_hhdm = hhdm_response r, bi_memmap = memmap_response r,
     bi_executable_file = executable_file_response r, bi_framebuffer = framebuffer_response r, bi_modules = module_responses r\<rparr>"

definition xbks_limine_entry :: "platform \<Rightarrow> limine_responses \<Rightarrow> machine \<Rightarrow> boot_result option" where
  "xbks_limine_entry pf r m =
     (if \<not> xbks_limine_base_revision_supported r then Some (Halted m)
      else xbks_kernel_main pf (Some (xbks_limine_boot_info r)) m)"

section \<open>The way to the first program\<close>

text \<open>What the boot loader promises of the list of frame buffers: it is as long as it says.\<close>

definition framebuffers_ok :: "limine_framebuffers option \<Rightarrow> bool" where
  "framebuffers_ok response \<longleftrightarrow> (\<forall>r fbs. response = Some r \<longrightarrow> framebuffers r = Some fbs \<longrightarrow> unat (framebuffer_count r) = length fbs)"

lemma terminal_format: "Format_Types.fits (cstr (lit ''TTY using TTF font module: %s'')) [KStr]"
  by code_simp

lemma fair_context [simp]: "serial_fair (d\<lparr>tty_context := c\<rparr>) = serial_fair d"
  by (simp add: serial_fair_def)

lemma start_terminal_runs:
  assumes "serial_fair d" "\<forall>f. font = Some f \<longrightarrow> terminated (font_source f)"
  shows "runs (\<lambda>(ok, d'). serial_fair d' \<and> ok = (tty_context d' \<noteq> 0)) (start_terminal pf fb font d)"
proof (cases font)
  case None
  then show ?thesis using assms(1) by (simp add: start_terminal_def Let_def)
next
  case (Some f)
  have log: "\<exists>d''. xbks_log_printf XBKS_LOG_INFO (lit ''TTY using TTF font module: %s'') [ArgStr (Some (font_source f))] d' = Some d'' \<and>
      serial_fair d''" if "serial_fair d'" for d'
    using log_printf_fits [OF that lit_terminated, of "[ArgStr (Some (font_source f))]"] assms(2) Some terminal_format wrote_fair [OF _ that]
    by (fastforce simp: arg_ok_def)
  show ?thesis
    using Some assms(1) log [of "d\<lparr>tty_context := flanterm_fb_init_alpha pf (alpha_args fb f)\<rparr>"]
      log [of "d\<lparr>tty_context := flanterm_fb_init pf (builtin_args fb)\<rparr>"]
    by (auto simp: start_terminal_def Let_def)
qed

lemma tty_init_runs:
  assumes "serial_fair d" "module_list_ok modules" "\<forall>ms m. modules = Some ms \<longrightarrow> Some m \<in> set ms \<longrightarrow> drawable m"
    "length alpha = 93184" "framebuffers_ok response"
  shows "runs (\<lambda>(ok, alpha', d'). serial_fair d' \<and> (ok \<longrightarrow> tty_context d' \<noteq> 0)) (xbks_tty_init pf response modules alpha d)"
proof -
  obtain font alpha' d1 t where font: "xbks_font_load_system_tty modules alpha d = Some (font, alpha', d1)" "wrote d t d1"
      "case font of None \<Rightarrow> alpha' = alpha | Some bf \<Rightarrow> alpha' = font_alpha bf \<and> (\<exists>ms m. modules = Some ms \<and> Some m \<in> set ms \<and> font_of m bf)"
    using font_load_ok [OF assms(2,3,1,4)] by blast
  have src: "\<forall>f. font = Some f \<longrightarrow> terminated (font_source f)" using font(3) by (auto simp: font_of_def)
  note st = start_terminal_runs [OF wrote_fair [OF font(2) assms(1)] src, of pf]
  have first: "fbs \<noteq> []" if "response = Some r" "framebuffers r = Some fbs" "framebuffer_count r \<noteq> 0" for r fbs
    using assms(5) that by (auto simp: framebuffers_ok_def unat_eq_0)
  show ?thesis
  proof (cases response)
    case (Some r)
    show ?thesis
    proof (cases "framebuffer_count r = 0 \<or> framebuffers r = None")
      case False
      then obtain fbs where fbs: "framebuffers r = Some fbs" "fbs \<noteq> []" using first [OF Some] by auto
      have "runs (\<lambda>(ok, alpha', d'). serial_fair d' \<and> (ok \<longrightarrow> tty_context d' \<noteq> 0))
          (do { (ok, d2) \<leftarrow> start_terminal pf fb font d1; Some (ok, alpha', d2) })" for fb
        by (rule runs_bind [OF st]) auto
      then show ?thesis
        using Some False fbs assms(1) font(1) by (cases "fbs ! 0") (auto simp: xbks_tty_init_def)
    qed (use Some assms(1) in \<open>auto simp: xbks_tty_init_def split: option.splits\<close>)
  qed (simp add: xbks_tty_init_def assms(1))
qed

text \<open>A machine as the boot loader leaves it, with modules that can be used.\<close>

definition bootable :: "xbks_boot_info \<Rightarrow> machine \<Rightarrow> bool" where
  "bootable bi m \<longleftrightarrow> serial_fair (io (m_kernel m)) \<and> booted (m_kernel m) \<and> no_frames (mm (m_kernel m)) \<and> length (m_alpha m) = 93184 \<and>
     modules_ok (bi_modules bi) \<and> module_list_ok (bi_modules bi) \<and>
     (\<forall>ms x. bi_modules bi = Some ms \<longrightarrow> Some x \<in> set ms \<longrightarrow> drawable x) \<and> framebuffers_ok (bi_framebuffer bi)"

text \<open>The memory it reports: usable regions beside the tables of the kernel, in the 52 bits of physical addresses.\<close>

definition memory_reported :: "xbks_boot_info \<Rightarrow> machine \<Rightarrow> limine_memmap_entry list \<Rightarrow> bool" where
  "memory_reported bi m entries \<longleftrightarrow> bi_memmap bi = Some entries \<and> (\<exists>h. bi_hhdm bi = Some h \<and> memmap_ok h entries) \<and>
     align_down (cr3 (mm (m_kernel m))) XBKS_PAGE_SIZE \<notin> usable_pages entries \<and>
     list_all (\<lambda>e. unat (me_base e) + unat (me_length e) \<le> 2 ^ 52) (usable entries)"

lemma entry_address_id:
  assumes "aligned_page g" "unat g < 2 ^ 52"
  shows "g AND ENTRY_ADDRESS = g"
proof -
  have "(ENTRY_ADDRESS :: u64) = mask 52 AND NOT (mask 12)" by (simp add: mask_eq_exp_minus_1)
  moreover have "g AND mask 52 = g" using assms(2) unat_and_mask [of g 52] by (simp add: word_unat_eq_iff)
  moreover have "g AND NOT (mask 12) = g" using page_base_id [OF assms(1)] by (simp add: align_down_def mask_eq_exp_minus_1)
  ultimately show ?thesis by (metis and.assoc)
qed

lemma usable_page_address:
  assumes "list_all (\<lambda>e. unat (me_base e) + unat (me_length e) \<le> 2 ^ 52) (usable es)" "g \<in> usable_pages es"
  shows "g AND ENTRY_ADDRESS = g"
proof (rule entry_address_id)
  obtain e where e: "e \<in> set (usable es)" "g \<in> region e" using assms(2) by (auto simp: usable_pages_def)
  then show "aligned_page g" "unat g < 2 ^ 52" using assms(1) by (auto simp: list_all_iff region_def whole_pages_def)
qed

lemma log_init_fair [simp]: "serial_fair (xbks_log_init d) = serial_fair d"
  by (simp add: xbks_log_init_def xbks_serial_init_def xbks_outb_def serial_fair_def)

lemma mm_init_frames:
  assumes "serial_fair d" "no_frames mm0" "bi_hhdm bi = Some h" "bi_memmap bi = Some es" "memmap_ok h es"
    "align_down (cr3 mm0) XBKS_PAGE_SIZE \<notin> usable_pages es" "\<forall>g \<in> usable_pages es. g AND ENTRY_ADDRESS = g" "usable_pages es \<noteq> {}"
  shows "runs (\<lambda>(mm1, d'). serial_fair d' \<and> (\<exists>f fs. pmm_inv mm1 (f # fs) \<and> length (f # fs) = card (usable_pages es) \<and>
      (\<forall>g \<in> set fs. g AND ENTRY_ADDRESS = g) \<and> kernel_cr3_value mm1 \<notin> set (f # fs) \<and> aligned_page (kernel_cr3_value mm1)))
    (xbks_mm_init bi mm0 d)"
proof (rule runs_mono [OF mm_init_runs [OF heard_refl [OF assms(1)] assms(2-5)]])
  let ?good = "\<lambda>f fs mm1. pmm_inv mm1 (f # fs) \<and> length (f # fs) = card (usable_pages es) \<and>
      (\<forall>g \<in> set fs. g AND ENTRY_ADDRESS = g) \<and> kernel_cr3_value mm1 \<notin> set (f # fs) \<and> aligned_page (kernel_cr3_value mm1)"
  fix r assume "case r of (m', d') \<Rightarrow> heard d d' \<and> (\<exists>fs. pmm_inv m' fs \<and> set fs = usable_pages es) \<and>
    only_pages (usable_pages es) (mm0\<lparr>hhdm_offset_value := h, kernel_cr3_value := align_down (cr3 mm0) XBKS_PAGE_SIZE\<rparr>) m'"
  then obtain m' d' fs where r: "r = (m', d')" "serial_fair d'" "pmm_inv m' fs" "set fs = usable_pages es"
      "kernel_cr3_value m' = align_down (cr3 mm0) XBKS_PAGE_SIZE"
    by (auto simp: heard_def only_pages_def)
  obtain g gs where fs: "fs = g # gs" using r(4) assms(8) by (cases fs) auto
  have "length fs = card (usable_pages es)" using r(3,4) distinct_card [of fs] by (simp add: pmm_inv_def)
  then have "?good g gs m'" using r(3-5) assms(6,7) by (auto simp: fs aligned_page_base)
  then show "case r of (mm1, d') \<Rightarrow> serial_fair d' \<and> (\<exists>f fs. ?good f fs mm1)" using r(1,2) by auto
qed

lemma enter_user_regs:
  "g_rip (xbks_x86_64_enter_user e st) = e" "g_rsp (xbks_x86_64_enter_user e st) = st" "bit (g_rflags (xbks_x86_64_enter_user e st)) 9"
proof -
  have "bit ((0x202 AND RFLAGS_RESTORED) OR 2 :: u64) 9" unfolding RFLAGS_RESTORED_def by code_simp
  then show "g_rip (xbks_x86_64_enter_user e st) = e" "g_rsp (xbks_x86_64_enter_user e st) = st"
      "bit (g_rflags (xbks_x86_64_enter_user e st)) 9"
    by (simp_all add: xbks_x86_64_enter_user_def sysret_insn_def)
qed

lemma runsE: "runs P r \<Longrightarrow> (\<And>v. r = Some v \<Longrightarrow> P v \<Longrightarrow> thesis) \<Longrightarrow> thesis"
  by (auto simp: runs_def)

lemma kernel_main_enters:
  assumes boot: "bootable bi m" "memory_reported bi m es"
    and disk: "xbks_ramdisk_init (bi_modules bi) = Some (True, rd, fmt)"
      "xbks_ramdisk_find rd (Some (lit ''/bin/xsh'')) = Some (Some file)" "loadable (ramdisk_data rd) file base h segs"
    and frames: "seg_frames segs + 65 \<le> card (usable_pages es)"
  shows "\<exists>regs m'. xbks_kernel_main pf (Some bi) m = Some (Entered regs m') \<and>
    g_rip regs = e_entry h \<and> g_rsp regs = proc_stack (processes (m_kernel m') ! 0) \<and> bit (g_rflags regs) 9 \<and>
    syscalls_ready (gdt_address pf) (syscall_entry_address pf) (m_cpu m') \<and> kinv (m_kernel m') \<and>
    current_process (m_kernel m') = Some 0 \<and> cr3 (mm (m_kernel m')) = proc_cr3 (processes (m_kernel m') ! 0) \<and>
    program_ready (ramdisk_data rd) base segs [lit ''xsh''] [lit ''PATH=/bin:/sbin:/usr/bin''] (processes (m_kernel m') ! 0) (mm (m_kernel m'))"
proof -
  let ?k = "m_kernel m" and ?d0 = "xbks_log_init (io (m_kernel m))"
  have b: "serial_fair ?d0" "booted ?k" "no_frames (mm ?k)" "length (m_alpha m) = 93184" "modules_ok (bi_modules bi)" "module_list_ok (bi_modules bi)"
      "\<forall>ms x. bi_modules bi = Some ms \<longrightarrow> Some x \<in> set ms \<longrightarrow> drawable x" "framebuffers_ok (bi_framebuffer bi)"
    using boot(1) by (simp_all add: bootable_def)
  obtain hh where mem: "bi_memmap bi = Some es" "bi_hhdm bi = Some hh" "memmap_ok hh es"
      "align_down (cr3 (mm ?k)) XBKS_PAGE_SIZE \<notin> usable_pages es" "\<forall>g \<in> usable_pages es. g AND ENTRY_ADDRESS = g"
    using boot(2) usable_page_address [of es] by (auto simp: memory_reported_def)
  have ne: "usable_pages es \<noteq> {}" using frames by auto
  obtain d1 where d1: "xbks_log_write XBKS_LOG_INFO (lit ''xbks kernel entered through Limine'') ?d0 = Some d1" "serial_fair d1"
    using log_write_fair [OF b(1) lit_terminated] by blast
  obtain c d2 where d2: "xbks_arch_early_init (gdt_address pf) (syscall_entry_address pf) (m_cpu m) d1 = Some (c, d2)" "serial_fair d2"
      "syscalls_ready (gdt_address pf) (syscall_entry_address pf) c"
    using arch_early_init_runs [OF heard_refl [OF d1(2)], of "gdt_address pf" "syscall_entry_address pf" "m_cpu m"]
    by (auto elim!: runsE simp: heard_def)
  obtain mm1 d3 f fs where d3: "xbks_mm_init bi (mm ?k) d2 = Some (mm1, d3)" "serial_fair d3" "pmm_inv mm1 (f # fs)"
      "length (f # fs) = card (usable_pages es)" "\<forall>g \<in> set fs. g AND ENTRY_ADDRESS = g" "kernel_cr3_value mm1 \<notin> set (f # fs)"
      "aligned_page (kernel_cr3_value mm1)"
    using mm_init_frames [OF d2(2) b(3) mem(2,1,3-5) ne] by (auto elim!: runsE)
  obtain ok alpha d4 where d4: "xbks_tty_init pf (bi_framebuffer bi) (bi_modules bi) (m_alpha m) d3 = Some (ok, alpha, d4)" "serial_fair d4"
    using tty_init_runs [OF d3(2) b(6,7,4,8), of pf] by (auto elim!: runsE)
  obtain d5 where d5: "xbks_arch_late_init d4 = Some d5" "serial_fair d5"
    using log_write_fair [OF d4(2) lit_terminated] unfolding xbks_arch_late_init_def by blast
  let ?k5 = "(?k\<lparr>io := ?d0\<rparr>)\<lparr>mm := mm1, io := d5\<rparr>"
  have k5: "booted ?k5" "serial_fair (io ?k5)" "mm ?k5 = mm1" using b(2) d5(2) by (simp_all add: booted_def)
  have n: "seg_frames segs + 64 \<le> length fs" using frames d3(4) by simp
  obtain rsp k where k: "xbks_process_start_init (bi_modules bi) ?k5 = Some (EnterUser (e_entry h) rsp k)"
      "current_process k = Some 0" "cr3 (mm k) = f" "proc_cr3 (processes k ! 0) = f" "proc_stack (processes k ! 0) = rsp"
      "program_ready (ramdisk_data rd) base segs [lit ''xsh''] [lit ''PATH=/bin:/sbin:/usr/bin''] (processes k ! 0) (mm k)"
    using start_enters [of ?k5, unfolded k5(3), OF k5(1,2) d3(3,5,6,7) disk n] by blast
  have "kinv k" using start_kinv [OF b(5) k5(1) k(1)] .
  then show ?thesis
    using d1(1) d2(1,3) d3(1) d4(1) d5(1) k enter_user_regs [of "e_entry h" rsp]
    by (simp add: xbks_kernel_main_def set_io_def Let_def)
qed

end
