(* ===== verification/Syscall_Props.thy ===== *)
theory Syscall_Props
  imports Kernel_Run
begin

text \<open>
  The system calls as a program sees them: what they read and write in its memory, and what they return.
\<close>

section \<open>User memory\<close>

abbreviation mapped :: "mm_state \<Rightarrow> u64 \<Rightarrow> nat \<Rightarrow> bool" where
  "mapped s a n \<equiv> (\<forall>x. unat a \<le> unat x \<longrightarrow> unat x < unat a + n \<longrightarrow> umem s (cr3 s) x \<noteq> None)"

lemma user_store_spec:
  assumes inv: "uspace_inv s (cr3 s) fs" and u: "user_va a" and m: "umem s (cr3 s) a \<noteq> None"
  shows "\<exists>s'. user_store a v s = Some s' \<and> writes (cr3 s) fs (unat a) [v] s s' \<and> cr3 s' = cr3 s"
proof -
  obtain g where g: "leaf s (cr3 s) a = Some g" using m umem_None [OF u] by auto
  have "xbks_phys_to_virt s (g + (a AND 0xfff)) = byte_at s g a" by (simp add: xbks_phys_to_virt_def byte_at_def)
  then have "user_store a v s = Some (s\<lparr>kmem := write_bytes (kmem s) (byte_at s g a) [v]\<rparr>)"
    using g by (simp add: user_store_def translate_leaf [OF u])
  moreover have "unat a mod 4096 < 4096" by simp
  then have "unat a mod 4096 + length [v] \<le> 4096" by (simp only: list.size)
  then have "writes (cr3 s) fs (unat a) [v] s (s\<lparr>kmem := write_bytes (kmem s) (byte_at s g a) [v]\<rparr>)"
    by (rule write_page_spec [OF inv u g])
  ultimately show ?thesis by simp
qed

lemma user_write_spec:
  assumes "uspace_inv s (cr3 s) fs" "unat a + length bs \<le> 2 ^ 47" "mapped s a (length bs)"
  shows "\<exists>s'. user_write a bs s = Some s' \<and> writes (cr3 s) fs (unat a) bs s s' \<and> cr3 s' = cr3 s"
  using assms
proof (induction bs arbitrary: a s)
  case Nil
  then show ?case by (simp add: writes_refl)
next
  case (Cons b bs)
  have u: "user_va a" using Cons.prems(2) by (simp add: user_va_def word_less_nat_alt)
  have "umem s (cr3 s) a \<noteq> None" using Cons.prems(3) by simp
  then obtain s1 where s1: "user_store a b s = Some s1" "writes (cr3 s) fs (unat a) [b] s s1" "cr3 s1 = cr3 s"
    using user_store_spec [OF Cons.prems(1) u] by blast
  have n: "unat (a + 1) = Suc (unat a)" using Cons.prems(2) unat_sum2 [of a 1] by simp
  have "uspace_inv s1 (cr3 s1) fs" using s1 by (simp add: writes_def)
  moreover have "unat (a + 1) + length bs \<le> 2 ^ 47" using Cons.prems(2) n by simp
  moreover have "mapped s1 (a + 1) (length bs)"
  proof (intro allI impI)
    fix x :: u64 assume x: "unat (a + 1) \<le> unat x" "unat x < unat (a + 1) + length bs"
    then have "user_va x" "umem s (cr3 s) x \<noteq> None" using Cons.prems(2,3) n by (auto simp: user_va_def word_less_nat_alt)
    then show "umem s1 (cr3 s1) x \<noteq> None" using s1(2,3) by (auto simp: writes_def)
  qed
  ultimately obtain s2 where s2: "user_write (a + 1) bs s1 = Some s2" "writes (cr3 s) fs (unat a + length [b]) bs s1 s2" "cr3 s2 = cr3 s"
    using Cons.IH [of s1 "a + 1"] n s1(3) by auto
  show ?case using s1(1) s2(1,3) writes_trans [OF s1(2) s2(2)] by simp
qed

lemma user_read_spec:
  assumes "mapped s a n" "unat a + n \<le> 2 ^ 47"
  shows "\<exists>bs. user_read s a n = Some bs \<and> length bs = n \<and> bytes_at s (cr3 s) a bs"
  using assms
proof (induction n arbitrary: a)
  case 0
  then show ?case by (simp add: bytes_at_def)
next
  case (Suc n)
  have n: "unat (a + 1) = Suc (unat a)" using Suc.prems(2) unat_sum2 [of a 1] by simp
  obtain b where b: "umem s (cr3 s) a = Some b" using Suc.prems(1) by force
  obtain bs where bs: "user_read s (a + 1) n = Some bs" "length bs = n" "bytes_at s (cr3 s) (a + 1) bs"
    using Suc.IH [of "a + 1"] Suc.prems n by auto
  have "bytes_at s (cr3 s) a (b # bs)"
    unfolding bytes_at_def
  proof (intro allI impI)
    fix x :: u64 assume x: "unat a \<le> unat x" "unat x < unat a + length (b # bs)"
    show "umem s (cr3 s) x = Some ((b # bs) ! (unat x - unat a))"
    proof (cases "x = a")
      case False
      then have "unat (a + 1) \<le> unat x" "unat x - unat a = Suc (unat x - unat (a + 1))"
        using x(1) n by (auto simp: word_unat_eq_iff)
      then show ?thesis using bs(3) x n by (simp add: bytes_at_def)
    qed (use b in simp)
  qed
  then show ?case using b bs by (simp add: user_load_umem)
qed

lemma bytes_at_unique:
  assumes "bytes_at s root a bs" "bytes_at s root a cs" "length bs = length cs" "unat a + length cs \<le> 2 ^ 47"
  shows "bs = cs"
proof (rule nth_equalityI [OF assms(3)])
  fix j assume j: "j < length bs"
  have u: "unat (a + of_nat j) = unat a + j" using j assms(3,4) by (subst unat_sum2) (simp_all add: unat_of_nat)
  have "umem s root (a + of_nat j) = Some (bs ! j)" using assms(1) j u by (simp add: bytes_at_def)
  moreover have "umem s root (a + of_nat j) = Some (cs ! j)" using assms(2,3) j u by (simp add: bytes_at_def)
  ultimately show "bs ! j = cs ! j" by simp
qed

section \<open>Strings\<close>

lemma copy_user_string_complete:
  assumes t: "bytes_at s (cr3 s) a (t @ [0])" "0 \<notin> set t" and n: "length t < n" "n \<le> length dest"
    and r: "0x10000 \<le> unat a" "unat a + length t < 2 ^ 47"
  shows "\<exists>d. copy_user_string s dest n a = Some (Some d) \<and> terminated d \<and> cstr d = t \<and> length d = length dest"
proof -
  have u: "unat (a + of_nat j) = unat a + j" if "j \<le> length t" for j
    using that r(2) by (subst unat_sum2) (simp_all add: unat_of_nat)
  have ld: "user_load s (a + of_nat j) = Some ((t @ [0]) ! j)" if "j \<le> length t" for j
    using t(1) u [OF that] that by (simp add: user_load_umem bytes_at_def)
  have v: "user_range_is_valid (a + of_nat j) 1" if "j \<le> length t" for j
    using u [OF that] that r by (simp add: user_range_iff)
  have "\<exists>d. copy_user_string_loop s a i m dest = Some (Some d)"
    if "i \<le> length t" "length t < i + m" "i + m \<le> length dest" for i m dest
    using that
  proof (induction m arbitrary: i dest)
    case (Suc m)
    show ?case
    proof (cases "i = length t")
      case True
      then show ?thesis using ld [of i] v [of i] Suc.prems by simp
    next
      case False
      then have "(t @ [0]) ! i \<noteq> 0" using Suc.prems(1) t(2) by (simp add: nth_append) (metis le_neq_implies_less nth_mem)
      then show ?thesis
        using ld [of i] v [of i] Suc.prems False Suc.IH [of "Suc i" "dest[i := (t @ [0]) ! i]"] by simp
    qed
  qed simp
  from this [of 0 n dest] obtain d where d: "copy_user_string s dest n a = Some (Some d)"
    using n v [of 0] by (auto simp: copy_user_string_def)
  note c = copy_user_string_spec [OF d n(2)]
  have nz: "d ! j = (t @ [0]) ! j" if "j \<le> length (cstr d)" "j \<le> length t" for j
    using c(4) [OF that(1)] ld [OF that(2)] by simp
  have z: "cstr d ! j \<noteq> 0" "cstr d ! j = d ! j" if "j < length (cstr d)" for j
    using that nth_mem [OF that] nul_notin_cstr [of d] by (auto simp: cstr_def takeWhile_nth)
  have len: "length (cstr d) = length t"
  proof (rule linorder_cases)
    assume lt: "length (cstr d) < length t"
    then have "t ! length (cstr d) = 0" using nz [of "length (cstr d)"] nth_length_cstr [OF c(1)] by (simp add: nth_append)
    then show ?thesis using t(2) lt by (metis nth_mem)
  next
    assume "length t < length (cstr d)"
    then show ?thesis using nz [of "length t"] z [of "length t"] by simp
  qed
  then have "cstr d = t" using nz z by (intro nth_equalityI) (auto simp: nth_append)
  then show ?thesis using d c by blast
qed

section \<open>Files\<close>

text \<open>The bytes of an open file.\<close>

definition file_bytes :: "u8 list \<Rightarrow> xbks_ramdisk_file \<Rightarrow> u8 list" where
  "file_bytes data f = (case file_data f of None \<Rightarrow> [] | Some d \<Rightarrow> take (unat (file_size f)) (drop (unat d) data))"

lemma file_bytes_length:
  assumes "fd_ok data f" "fd_kind f = FD_FILE"
  shows "length (file_bytes data (fd_file f)) = unat (file_size (fd_file f))"
  using assms by (auto simp: fd_ok_def file_bytes_def)

definition advance :: "u64 \<Rightarrow> process_fd \<Rightarrow> process \<Rightarrow> nat \<Rightarrow> kernel \<Rightarrow> kernel" where
  "advance fd f p n k = set_current (set_fd (unat fd) (f\<lparr>fd_offset := fd_offset f + of_nat n\<rparr>) p) k"

lemma read_file:
  assumes k: "kinv k" and u: "uspace_inv (mm k) (cr3 (mm k)) fs" and p: "current k = Some p"
    and fd: "unat fd < 16" "f = proc_fds p ! unat fd" "fd_kind f = FD_FILE" "fd_offset f < file_size (fd_file f)"
    and buf: "user_range_is_valid buf count" "mapped (mm k) buf (unat count)"
  defines "n \<equiv> min (unat count) (unat (file_size (fd_file f)) - unat (fd_offset f))"
  shows "\<exists>m. syscall_read fd buf count k = Some (of_nat n, (advance fd f p n k)\<lparr>mm := m\<rparr>) \<and>
    writes (cr3 (mm k)) fs (unat buf) (take n (drop (unat (fd_offset f)) (file_bytes (ramdisk_data (rdisk k)) (fd_file f)))) (mm k) m"
proof -
  let ?d = "ramdisk_data (rdisk k)" and ?o = "fd_offset f" and ?sz = "file_size (fd_file f)"
  have po: "proc_ok ?d p" using k p by (auto elim!: kinvE)
  have g: "getb (proc_fds p) (unat fd) = Some f" using po fd(1,2) by (simp add: proc_ok_def)
  have nf: "\<not> MAX_FDS \<le> fd" using fd(1) by (simp add: word_le_nat_alt)
  note c = current_fd [OF k p g nf]
  obtain d where d: "file_data (fd_file f) = Some d" "unat d + unat ?sz \<le> length ?d"
    using c(2) fd(3) by (auto simp: fd_ok_def)
  have len: "length ?d < 2 ^ 63" using k by (simp add: kinv_def wf_ramdisk_def)
  have o: "unat ?o < unat ?sz" using fd(4) by (simp add: word_less_nat_alt)
  define av where "av = (if count < ?sz - ?o then count else ?sz - ?o)"
  have av: "unat av = n" "av = of_nat n"
  proof -
    show 1: "unat av = n" using o by (auto simp: av_def n_def unat_sub_if' word_less_nat_alt)
    show "av = of_nat n" unfolding 1 [symmetric] by simp
  qed
  have n: "n \<le> unat count" "unat ?o + n \<le> unat ?sz" using o by (auto simp: n_def)
  have do: "unat (d + ?o) = unat d + unat ?o" using d o len by (intro unat_sum2) simp
  let ?bytes = "take n (drop (unat ?o) (file_bytes ?d (fd_file f)))"
  have sl: "slice ?d (unat (d + ?o)) n = Some ?bytes"
    using d n do by (simp add: slice_def file_bytes_def drop_take min_def add.commute)
  have lb: "length ?bytes = n" using d n by (simp add: file_bytes_def)
  have bound: "unat buf + length ?bytes \<le> 2 ^ 47" if "n \<noteq> 0"
    using buf(1) n(1) that lb by (auto simp: user_range_iff)
  obtain m where m: "user_write buf ?bytes (mm k) = Some m" "writes (cr3 (mm k)) fs (unat buf) ?bytes (mm k) m"
  proof (cases "n = 0")
    case True
    then show ?thesis using that [of "mm k"] writes_refl [OF u] by simp
  next
    case False
    have "mapped (mm k) buf (length ?bytes)" unfolding lb using buf(2) n(1) by auto
    then show ?thesis using user_write_spec [OF u bound [OF False]] that by blast
  qed
  have no: "\<not> ?sz \<le> ?o" using fd(4) by simp
  have "syscall_read fd buf count k = Some (av, set_current (set_fd (unat fd) (f\<lparr>fd_offset := ?o + av\<rparr>) p) (k\<lparr>mm := m\<rparr>))"
    using buf(1) nf p g fd(3) no d(1) sl m(1) av(1)
    by (simp add: syscall_read_def Let_def flip: av_def)
  then show ?thesis using m(2) unfolding advance_def set_current_memory [symmetric] av(2) by blast
qed

lemma open_file:
  assumes k: "kinv k" and av: "ramdisk_available (rdisk k)" and p: "current k = Some p"
    and t: "bytes_at (mm k) (cr3 (mm k)) a (t @ [0])" "0 \<notin> set t" "length t < 256" "0x10000 \<le> unat a" "unat a + length t < 2 ^ 47"
  defines "node \<equiv> ram_lookup (tar_entries (ramdisk_data (rdisk k)) 0) (norm_path 256 t)"
  shows "case (allocate_fd p, node) of
      (None, _) \<Rightarrow> syscall_open a k = Some (negative_errno XBKS_EMFILE, k)
    | (Some fd, None) \<Rightarrow> syscall_open a k = Some (negative_errno XBKS_ENOENT, k)
    | (Some fd, Some nd) \<Rightarrow> \<exists>f. abs_file f = nd \<and>
        syscall_open a k = Some (of_nat fd, set_current (set_fd fd
          \<lparr>fd_kind = (if node_dir nd then FD_DIR else FD_FILE), fd_file = f, fd_offset = 0\<rparr> p) k)"
proof -
  obtain d where d: "copy_user_string (mm k) (replicate MAX_STRING 0) MAX_STRING a = Some (Some d)" "terminated d" "cstr d = t"
    using copy_user_string_complete [OF t(1,2), of 256 "replicate 256 0"] t(3-5) by auto
  obtain r where r: "xbks_ramdisk_find (rdisk k) (Some d) = Some r" "map_option abs_file r = node"
    using ramdisk_find_apply [OF _ av d(2)] k d(3) by (auto simp: kinv_def node_def)
  show ?thesis
    using p d(1) r by (cases r) (auto simp: syscall_open_def abs_file_def split: option.splits)
qed

lemma write_console:
  assumes u: "serial_fair (io k)" and buf: "user_range_is_valid buf count" "mapped (mm k) buf (unat count)" and fd: "fd = 1 \<or> fd = 2"
  shows "\<exists>bs d. syscall_write fd buf count k = Some (count, k\<lparr>io := d\<rparr>) \<and> length bs = unat count \<and>
    bytes_at (mm k) (cr3 (mm k)) buf bs \<and> wrote (io k) bs d"
proof -
  obtain bs where bs: "user_read (mm k) buf (unat count) = Some bs" "length bs = unat count" "bytes_at (mm k) (cr3 (mm k)) buf bs"
  proof (cases "count = 0")
    case True
    then show ?thesis using that [of "[]"] by (simp add: bytes_at_def)
  next
    case False
    then show ?thesis using user_read_spec [OF buf(2)] buf(1) that by (auto simp: user_range_iff)
  qed
  obtain d where "xbks_console_write bs (io k) = Some d" "wrote (io k) bs d"
    using console_write_ok [OF u, of bs] by blast
  then show ?thesis using bs buf(1) fd by (auto simp: syscall_write_def)
qed

section \<open>Processes\<close>

lemma scast_pid_inj: "(scast (a :: u32) :: u64) = scast b \<longleftrightarrow> a = b"
proof -
  have "ucast (scast x :: u64) = x" for x :: u32
    by (rule bit_word_eqI) (simp add: bit_ucast_iff bit_simps)
  then show ?thesis by metis
qed

lemma find_index_unique:
  assumes "c < length xs" "P (xs ! c)" "\<And>j. j < length xs \<Longrightarrow> P (xs ! j) \<Longrightarrow> j = c"
  shows "find_index P xs n = Some (n + c)"
  using assms
proof (induction xs arbitrary: c n)
  case (Cons x xs)
  show ?case
  proof (cases c)
    case 0
    then show ?thesis using Cons.prems(2) by simp
  next
    case (Suc c')
    then have "\<not> P x" using Cons.prems(3) [of 0] by auto
    moreover have "find_index P xs (Suc n) = Some (Suc n + c')"
    proof (rule Cons.IH)
      show "j = c'" if "j < length xs" "P (xs ! j)" for j using Cons.prems(3) [of "Suc j"] that Suc by simp
    qed (use Cons.prems Suc in simp_all)
    ultimately show ?thesis using Suc by simp
  qed
qed simp

lemma vfork_exit_wait:
  assumes k: "kinv k" and i: "current_process k = Some i" and v: "syscall_vfork frame k = Some (0, k1)"
    and new: "\<forall>q \<in> set (processes k). proc_pid q \<noteq> next_pid k" "next_pid k \<noteq> - 1"
  defines "pid \<equiv> scast (next_pid k)"
  shows "\<exists>c k2 k3. current_process k1 = Some c \<and> proc_state (processes k ! c) = PROCESS_UNUSED \<and>
    syscall_exit frame1 status k1 = Some (Returns pid (frame\<lparr>rax := pid\<rparr>) k2) \<and>
    current_process k2 = Some i \<and> processes k2 ! i = processes k ! i \<and> cr3 (mm k2) = proc_cr3 (processes k ! i) \<and>
    proc_state (processes k2 ! c) = PROCESS_ZOMBIE \<and> exit_status (processes k2 ! c) = ucast (status AND 0xff) \<and>
    syscall_wait4 pid 0 k2 = Some (pid, k3) \<and> processes k3 = (processes k)[c := zero_process] \<and> current_process k3 = Some i"
proof -
  have ps: "i < length (processes k)" "proc_state (processes k ! i) = PROCESS_RUNNING"
    using k i by (auto elim!: kinvE dest!: sched_invD(2) simp: one_running_def)
  let ?p = "processes k ! i"
  have ne: "negative_errno XBKS_EAGAIN \<noteq> 0" "negative_errno XBKS_ENOMEM \<noteq> 0" by (simp_all add: negative_errno_def)
  obtain c root m where c: "c < length (processes k)" "proc_state (processes k ! c) = PROCESS_UNUSED" "i \<noteq> c"
      "k1 = k\<lparr>processes := (processes k)[c := vfork_child i ?p (next_pid k) root frame, i := ?p\<lparr>proc_state := PROCESS_BLOCKED\<rparr>],
        next_pid := next_pid k + 1, current_process := Some c, mm := xbks_write_cr3 root m\<rparr>"
    using vfork_outcome [OF k i v] ne by auto
  let ?c = "vfork_child i ?p (next_pid k) root frame" and ?b = "?p\<lparr>proc_state := PROCESS_BLOCKED\<rparr>"
  have k1: "kinv k1" using preservesD [OF syscall_vfork_kinv k v] .
  have cur: "current_process k1 = Some c" "processes k1 ! c = ?c" "processes k1 ! i = ?b" using c ps by (simp_all add: nth_upd)
  have vp: "vfork_parent (processes k1 ! c) = Some i" using cur by simp
  have run: "?b\<lparr>proc_state := PROCESS_RUNNING\<rparr> = ?p" using ps(2) by (simp flip: ps(2))
  define k2 where "k2 = k1\<lparr>processes := (processes k1)[c := exited status ?c, i := ?p],
      current_process := Some i, mm := xbks_write_cr3 (proc_cr3 ?p) (mm k1)\<rparr>"
  have e: "syscall_exit frame1 status k1 = Some (Returns pid (frame\<lparr>rax := pid\<rparr>) k2)"
    using exit_resumes(4) [OF k1 cur(1) vp, of frame1 status] cur run by (simp add: k2_def pid_def)
  have ps2: "processes k2 = (processes k)[c := exited status ?c]"
  proof (rule nth_equalityI)
    fix j assume "j < length (processes k2)"
    then show "processes k2 ! j = (processes k)[c := exited status ?c] ! j"
      using c(3,4) by (cases "j = i"; cases "j = c") (simp_all add: k2_def nth_upd)
  qed (simp add: k2_def c(4))
  have z: "processes k2 ! c = exited status ?c" "processes k2 ! i = ?p" using ps2 c by (simp_all add: nth_upd)
  have "find_index (waits_for pid (current_process k2)) (processes k2) 0 = Some (0 + c)"
  proof (rule find_index_unique)
    show "c < length (processes k2)" using ps2 c(1) by simp
    show "waits_for pid (current_process k2) (processes k2 ! c)" using z by (simp add: waits_for_def k2_def pid_def)
    fix j assume j: "j < length (processes k2)" "waits_for pid (current_process k2) (processes k2 ! j)"
    show "j = c"
    proof (rule ccontr)
      assume "j \<noteq> c"
      then have "processes k2 ! j \<in> set (processes k)" using ps2 j(1) by (simp add: nth_upd)
      moreover have "pid \<noteq> - 1" using new(2) scast_pid_inj [of "next_pid k" "- 1"] by (simp add: pid_def)
      ultimately show False using new(1) j(2) scast_pid_inj [of "next_pid k"] by (auto simp: waits_for_def pid_def)
    qed
  qed
  then have w: "syscall_wait4 pid 0 k2 = Some (pid, set_process c zero_process
      (k2\<lparr>mm := xbks_vmm_destroy_user_space root XBKS_USER_TOP (mm k2)\<rparr>))"
    using z ps2 c(1) by (simp add: syscall_wait4_def Let_def pid_def)
  have "processes (set_process c zero_process (k2\<lparr>mm := mx\<rparr>)) = (processes k)[c := zero_process]" for mx
    using ps2 by (simp add: set_process_def)
  then show ?thesis
    using cur(1) c(2) e z w by (intro exI [of _ c] exI [of _ k2] exI) (auto simp: k2_def set_process_def ps2)
qed

section \<open>The break\<close>

lemma unat_page_ceil:
  assumes "a < 0x10000000"
  shows "unat (align_up a 4096) = (unat a + 4095) div 4096 * 4096" "unat (align_up a 4096) \<le> 0x10000000"
proof -
  have a: "unat a < 0x10000000" using assms by (simp add: word_less_nat_alt)
  then show 1: "unat (align_up a 4096) = (unat a + 4095) div 4096 * 4096" by (intro unat_align_up_page) simp
  have "(unat a + 4095) div 4096 \<le> (0x10000000 + 4095) div 4096" using a by (intro div_le_mono) simp
  then show "unat (align_up a 4096) \<le> 0x10000000" unfolding 1 by simp
qed

definition brk_result :: "process \<Rightarrow> u64 \<Rightarrow> bool \<Rightarrow> mm_state \<Rightarrow> kernel \<Rightarrow> u64 \<times> kernel" where
  "brk_result p req ok m k = (if ok then (req, (set_current (p\<lparr>proc_brk := req\<rparr>) k)\<lparr>mm := m\<rparr>) else (proc_brk p, k\<lparr>mm := m\<rparr>))"

lemma brk_grows:
  assumes p: "current k = Some p" and u: "uspace_inv (mm k) (proc_cr3 p) fs"
    and r: "req \<noteq> 0" "proc_brk p \<le> req" "req < 0x10000000"
  shows "\<exists>ok m. syscall_brk req k = Some (brk_result p req ok m k) \<and>
    maps_zeroes (proc_cr3 p) ((unat (proc_brk p) + 4095) div 4096 * 4096) ((unat req + 4095) div 4096 * 4096) fs (mm k) ok m"
proof -
  have b: "proc_brk p < 0x10000000" using r(2,3) by (simp add: word_less_nat_alt word_le_nat_alt)
  note lo = unat_page_ceil [OF b] and hi = unat_page_ceil [OF r(3)]
  have al: "aligned_page (align_up (proc_brk p) 4096)" "aligned_page (align_up req 4096)"
    by (simp_all add: aligned_page_iff lo(1) hi(1))
  have "unat (proc_brk p) \<le> unat req" using r(2) by (simp add: word_le_nat_alt)
  then have le: "unat (align_up (proc_brk p) 4096) \<le> unat (align_up req 4096)"
    unfolding lo(1) hi(1) by (intro mult_le_mono1 div_le_mono) simp
  obtain ok m where m: "map_pages_loop (proc_cr3 p) XBKS_PAGE_WRITABLE (align_up req 4096) (align_up (proc_brk p) 4096) (mm k) = Some (ok, m)"
      "maps_zeroes (proc_cr3 p) (unat (align_up (proc_brk p) 4096)) (unat (align_up req 4096)) fs (mm k) ok m"
    using map_pages_loop_spec [OF u al le, of XBKS_PAGE_WRITABLE] hi(2) by auto
  have "syscall_brk req k = Some (brk_result p req ok m k)"
    using p r m(1) by (auto simp: syscall_brk_def brk_result_def set_current_memory)
  then show ?thesis using m(2) unfolding lo(1) hi(1) by blast
qed

section \<open>Errors\<close>

definition known_syscalls :: "u64 set" where
  "known_syscalls = {0, 1, 2, 3, 8, 12, 21, 24, 39, 58, 59, 60, 61, 63, 79, 102, 104, 107, 108, 110, 186, 217, 231, 257, 269}"

lemma unknown_syscall:
  "rax frame \<notin> known_syscalls \<Longrightarrow> xbks_syscall_dispatch frame k = Some (Returns (negative_errno XBKS_ENOSYS) frame k)"
  by (simp add: known_syscalls_def xbks_syscall_dispatch_def xbks_process_syscall_dispatch_def Let_def)

definition bad_fd :: "process \<Rightarrow> u64 \<Rightarrow> bool" where
  "bad_fd p fd \<longleftrightarrow> 16 \<le> unat fd \<or> fd_kind (proc_fds p ! unat fd) = FD_NONE"

lemma bad_fd_refused:
  assumes k: "kinv k" and p: "current k = Some p" and fd: "bad_fd p fd"
  shows "user_range_is_valid buf n \<Longrightarrow> syscall_read fd buf n k = Some (negative_errno XBKS_EBADF, k)"
    "syscall_close fd k = Some (negative_errno XBKS_EBADF, k)"
    "syscall_lseek fd off whence k = Some (negative_errno XBKS_EBADF, k)"
    "syscall_getdents64 fd buf n k = Some (negative_errno XBKS_EBADF, k)"
proof -
  have g: "getb (proc_fds p) (unat fd) = Some (proc_fds p ! unat fd)" if "\<not> 16 \<le> unat fd"
    using k p that by (auto elim!: kinvE simp: proc_ok_def)
  show "user_range_is_valid buf n \<Longrightarrow> syscall_read fd buf n k = Some (negative_errno XBKS_EBADF, k)"
    "syscall_close fd k = Some (negative_errno XBKS_EBADF, k)"
    "syscall_lseek fd off whence k = Some (negative_errno XBKS_EBADF, k)"
    "syscall_getdents64 fd buf n k = Some (negative_errno XBKS_EBADF, k)"
    using p g fd
    by (auto simp: syscall_read_def syscall_close_def syscall_lseek_def syscall_getdents64_def bad_fd_def err_def word_le_nat_alt)
qed

lemma bad_range_refused:
  assumes "\<not> user_range_is_valid buf n"
  shows "syscall_read fd buf n k = Some (negative_errno XBKS_EFAULT, k)"
    "fd = 1 \<or> fd = 2 \<Longrightarrow> syscall_write fd buf n k = Some (negative_errno XBKS_EFAULT, k)"
  using assms by (auto simp: syscall_read_def syscall_write_def err_def)

lemma std_fds_protected:
  assumes k: "kinv k" and fd: "unat fd \<le> 2"
  shows "syscall_close fd k = Some (negative_errno XBKS_EBADF, k)"
  using fd by (simp add: syscall_close_def err_def word_le_nat_alt)

section \<open>A kernel for the witnesses\<close>

lemma uspace_write_cr3 [simp]: "uspace_inv (xbks_write_cr3 a s) root fs \<longleftrightarrow> uspace_inv s root fs"
proof -
  have e: "uspace_inv s root fs \<Longrightarrow> uspace_inv (s\<lparr>cr3 := b\<rparr>) root fs" for s :: mm_state and b
  proof -
    assume inv: "uspace_inv s root fs"
    note v = uspace_invD(1) [OF inv]
    have kept: "tables_kept root s (s\<lparr>cr3 := b\<rparr>)" by (simp add: tables_kept_def)
    have "pmm_inv (s\<lparr>cr3 := b\<rparr>) fs" by (rule pmm_inv_other_memory [OF vspace_invD(1) [OF v]]) simp_all
    then show ?thesis
      using uspace_same_tables [OF inv kept] vspace_invD(2) [OF v] tables_not_free [OF v] uspace_invD(2) [OF inv] by blast
  qed
  have "s = (xbks_write_cr3 a s)\<lparr>cr3 := cr3 s\<rparr>" by (simp add: xbks_write_cr3_def)
  then show ?thesis using e [of s a] e [of "xbks_write_cr3 a s" "cr3 s"] by (auto simp: xbks_write_cr3_def)
qed

lemma bytes_at_write_cr3 [simp]: "bytes_at (xbks_write_cr3 a s) root x bs = bytes_at s root x bs"
  by (simp add: bytes_at_def)

text \<open>
  The first process, with the path \<^verbatim>\<open>/bin/xsh\<close> as its argument at \<open>a\<close> and four words at its stack pointer.
\<close>

definition demo_ready :: "kernel \<Rightarrow> process \<Rightarrow> u64 list \<Rightarrow> u64 \<Rightarrow> bool" where
  "demo_ready k p fs a \<longleftrightarrow> kinv k \<and> current_process k = Some 0 \<and> current k = Some p \<and> rdisk k = program_disk \<and>
     io k = demo_io \<and> next_pid k = 2 \<and> (\<forall>q \<in> set (processes k). proc_pid q \<noteq> 2) \<and>
     proc_fds p = proc_fds (fresh_process 1) \<and> proc_brk p = 0x800000 \<and> proc_cr3 p = cr3 (mm k) \<and>
     uspace_inv (mm k) (cr3 (mm k)) fs \<and>
     bytes_at (mm k) (cr3 (mm k)) a (cstr (lit ''/bin/xsh'') @ [0]) \<and> stack_lo \<le> unat a \<and> unat a < stack_hi \<and>
     (\<exists>ws. bytes_at (mm k) (cr3 (mm k)) (proc_stack p) (word_block ws) \<and> length ws = 4) \<and>
     stack_lo \<le> unat (proc_stack p) \<and> unat (proc_stack p) + 32 \<le> stack_hi"

lemma demo_kernel:
  obtains k p fs a where "demo_ready k p fs a"
proof -
  obtain f where f: "xbks_ramdisk_find program_disk (Some (lit ''/bin/xsh'')) = Some (Some f)"
      "loadable (ramdisk_data program_disk) f 512 (ehdr_of demo_ehdr) [phdr_of demo_phdr]"
    by (rule program_disk_loadable)
  have k: "kernel_cr3_value many_frames \<notin> set (0x100000 # frame_list)" "aligned_page (kernel_cr3_value many_frames)"
    using frame_list_props(3) by (simp_all add: many_frames_static aligned_page_def)
  have n: "seg_frames [phdr_of demo_phdr] + 64 \<le> length frame_list"
    by (simp add: seg_frames_def demo_seg_bounds frame_list_props)
  let ?argv = "[lit ''/bin/xsh'']"
  have a: "arg_list ?argv" "arg_list []" by (simp_all add: arg_list_def lit_def terminated_def)
  obtain rsp m fs where l: "uspace_inv m 0x100000 fs"
      "program_ready (ramdisk_data program_disk) 512 [phdr_of demo_phdr] ?argv [] ((fresh_process 1)\<lparr>proc_cr3 := 0x100000, proc_stack := rsp\<rparr>) m"
    using load_program_spec [OF many_frames_pool frame_list_props(4) k f n a, of "fresh_process 1"] by auto
  define p where "p = (fresh_process 1)\<lparr>proc_cr3 := 0x100000, proc_stack := rsp, proc_brk := 0x800000\<rparr>"
  define k where "k = \<lparr>mm = xbks_write_cr3 0x100000 m, io = demo_io, rdisk = program_disk,
    processes = (replicate MAX_PROCESSES zero_process)[0 := p], current_process = Some 0, next_pid = 2\<rparr>"
  have ki: "kinv k"
    using program_disk_wf(1)
    by (intro first_process_inv [of 0 p]) (simp_all add: k_def p_def fresh_process_def zero_process_def)
  have st: "start_stack m 0x100000 rsp ?argv []" "stack_lo \<le> unat rsp" "unat rsp + 32 \<le> stack_hi"
    using l(2) by (simp_all add: program_ready_def)
  obtain as where as: "bytes_at m 0x100000 rsp (word_block (of_nat 1 # as @ [0, 0]))" "strings_at m 0x100000 as ?argv"
      "\<forall>x \<in> set as. stack_lo \<le> unat x \<and> unat x < stack_hi"
    using st(1) by (auto simp: start_stack_def strings_at_def)
  obtain x where x: "as = [x]" "bytes_at m 0x100000 x (cstr (lit ''/bin/xsh'') @ [0])"
    using as(2) by (auto simp: strings_at_def list_all2_Cons2)
  have "\<forall>q \<in> set (processes k). proc_pid q \<noteq> 2"
    using set_update_subset_insert [of "replicate 16 zero_process" 0 p]
    by (auto simp: k_def p_def fresh_process_def zero_process_def)
  moreover have "\<exists>ws. bytes_at (mm k) (cr3 (mm k)) (proc_stack p) (word_block ws) \<and> length ws = 4"
    using as(1) x(1) by (intro exI [of _ "of_nat 1 # as @ [0, 0]"]) (simp add: k_def p_def)
  ultimately have "demo_ready k p fs x"
    using ki l(1) x as(3) st(2,3) by (simp add: demo_ready_def k_def p_def current_def)
  then show ?thesis by (rule that)
qed

text \<open>The kernel before the start, with the archive as its only module.\<close>

definition demo_module :: limine_file where
  "demo_module = \<lparr>lf_address = Some (ramdisk_data program_disk), lf_size = 1024, lf_string = Some (lit ''ramdisk''), lf_path = None\<rparr>"

definition demo_boot :: kernel where
  "demo_boot = \<lparr>mm = many_frames, io = demo_io, rdisk = no_ramdisk, processes = replicate MAX_PROCESSES zero_process,
     current_process = None, next_pid = 1\<rparr>"

lemma demo_boot_ok: "booted demo_boot" "modules_ok (Some [Some demo_module])"
  "xbks_ramdisk_init (Some [Some demo_module]) = Some (True, program_disk, Some (lit ''RAMDISK loaded: %llu bytes''))"
proof -
  have l: "length (ramdisk_data program_disk) = 1024" by (simp add: program_disk_def demo_header_def lit_def demo_elf_length)
  show "booted demo_boot" by (simp add: booted_def demo_boot_def)
  show "modules_ok (Some [Some demo_module])" using l by (simp add: modules_ok_def demo_module_def)
  have s: "strcmp (lit ''ramdisk'') (lit ''ramdisk'') = Some 0" by code_simp
  have "use_module demo_module = program_disk" by (simp add: use_module_def demo_module_def program_disk_def)
  then show "xbks_ramdisk_init (Some [Some demo_module]) = Some (True, program_disk, Some (lit ''RAMDISK loaded: %llu bytes''))"
    by (simp add: xbks_ramdisk_init_def demo_module_def module_is_ramdisk_def s)
qed

lemma demo_boot_start:
  obtains rsp k where "xbks_process_start_init (Some [Some demo_module]) demo_boot = Some (EnterUser 0x10000 rsp k)"
proof -
  obtain f where f: "xbks_ramdisk_find program_disk (Some (lit ''/bin/xsh'')) = Some (Some f)"
      "loadable (ramdisk_data program_disk) f 512 (ehdr_of demo_ehdr) [phdr_of demo_phdr]"
    by (rule program_disk_loadable)
  have k: "pmm_inv (mm demo_boot) (0x100000 # frame_list)" "kernel_cr3_value (mm demo_boot) \<notin> set (0x100000 # frame_list)"
      "aligned_page (kernel_cr3_value (mm demo_boot))" "serial_fair (io demo_boot)"
    using many_frames_pool frame_list_props(3) demo_io_fair by (simp_all add: many_frames_static aligned_page_def demo_boot_def)
  have n: "seg_frames [phdr_of demo_phdr] + 64 \<le> length frame_list"
    by (simp add: seg_frames_def demo_seg_bounds frame_list_props)
  show ?thesis
    using start_enters [OF demo_boot_ok(1) k(4,1) frame_list_props(4) k(2,3) demo_boot_ok(3) f n] that demo_elf_headers(3) by auto
qed

section \<open>Properties\<close>

text \<open>
  Property C2. In every state the kernel reaches from its start, through any system calls with any arguments, any
  memory contents and any device input, exactly one process runs and \<^verbatim>\<open>current_process\<close> points to it, every
  blocked process waits for exactly one live child and every live child of a \<^verbatim>\<open>vfork\<close> has a blocked parent, every process has its
  16 descriptors with the three standard ones in place, and every open file lies in the archive.
\<close>

theorem reachable_states_ok:
  assumes "modules_ok modules" and "booted k0" and "reachable modules k0 k"
  shows "kinv k"
  using assms(3,1,2) by (rule reachable_kinv)

theorem reachable_states_ok_witness:
  "\<exists>k. reachable (Some [Some demo_module]) demo_boot k \<and> kinv k"
proof -
  obtain rsp k where "xbks_process_start_init (Some [Some demo_module]) demo_boot = Some (EnterUser 0x10000 rsp k)"
    by (rule demo_boot_start)
  then have "reachable (Some [Some demo_module]) demo_boot k" by (rule reachable.start)
  then show ?thesis using reachable_states_ok [OF demo_boot_ok(2,1)] by blast
qed

text \<open>
  Property C21. \<^verbatim>\<open>user_range_is_valid\<close> accepts exactly the empty ranges and the ranges between the lowest user
  address and the end of user memory; no sum wraps around on the way.
\<close>

theorem user_range_is_valid_exact:
  "user_range_is_valid a n \<longleftrightarrow> n = 0 \<or> 0x10000 \<le> unat a \<and> unat a + unat n \<le> 2 ^ 47"
  by (rule user_range_iff)

text \<open>
  Property C20. \<^verbatim>\<open>copy_user_string\<close> and a string in the memory of the process: a string that fits and lies in user memory is copied whole,
  and whatever is accepted is NUL-terminated inside the array and equal to the memory of the process up to the NUL.
\<close>

theorem copy_user_string_correct:
  assumes "n \<le> length dest"
  shows "(bytes_at s (cr3 s) a (t @ [0]) \<and> 0 \<notin> set t \<and> length t < n \<and> 0x10000 \<le> unat a \<and> unat a + length t < 2 ^ 47 \<longrightarrow>
      (\<exists>d. copy_user_string s dest n a = Some (Some d) \<and> cstr d = t)) \<and>
    (\<forall>d. copy_user_string s dest n a = Some (Some d) \<longrightarrow>
      terminated d \<and> length d = length dest \<and> length (cstr d) < n \<and>
      (\<forall>j \<le> length (cstr d). umem s (cr3 s) (a + of_nat j) = Some (d ! j)))"
proof (intro conjI allI impI)
  assume "bytes_at s (cr3 s) a (t @ [0]) \<and> 0 \<notin> set t \<and> length t < n \<and> 0x10000 \<le> unat a \<and> unat a + length t < 2 ^ 47"
  then show "\<exists>d. copy_user_string s dest n a = Some (Some d) \<and> cstr d = t"
    using copy_user_string_complete [of s a t n dest] assms by blast
next
  fix d assume "copy_user_string s dest n a = Some (Some d)"
  note c = copy_user_string_spec [OF this assms]
  show "terminated d" "length d = length dest" "length (cstr d) < n" by (fact c)+
  show "umem s (cr3 s) (a + of_nat j) = Some (d ! j)" if "j \<le> length (cstr d)" for j
    using c(4) [OF that] by (simp add: user_load_umem)
qed

theorem copy_user_string_correct_witness:
  "\<exists>s a d. copy_user_string s (replicate 256 0) 256 a = Some (Some d) \<and> cstr d = cstr (lit ''/bin/xsh'') \<and> terminated d"
proof -
  obtain k p fs a where r: "demo_ready k p fs a" by (rule demo_kernel)
  have l: "length (cstr (lit ''/bin/xsh'')) = 8" by code_simp
  have n: "256 \<le> length (replicate 256 (0 :: u8))" by simp
  note c = copy_user_string_correct [OF n, of "mm k" a "cstr (lit ''/bin/xsh'')"]
  have "bytes_at (mm k) (cr3 (mm k)) a (cstr (lit ''/bin/xsh'') @ [0])" "0x10000 \<le> unat a" "unat a + 8 < 2 ^ 47"
    using r by (simp_all add: demo_ready_def)
  then obtain d where d: "copy_user_string (mm k) (replicate 256 0) 256 a = Some (Some d)" "cstr d = cstr (lit ''/bin/xsh'')"
    using c l by auto
  then have "terminated d" using c by blast
  then show ?thesis using d by blast
qed


text \<open>The first free descriptor of a fresh process.\<close>

lemma demo_ready_fd: "demo_ready k p fs a \<Longrightarrow> allocate_fd p = Some 3"
proof -
  have "find_index (\<lambda>f. fd_kind f = FD_NONE) (drop 3 (proc_fds (fresh_process 1))) 3 = Some 3" by code_simp
  then show "demo_ready k p fs a \<Longrightarrow> allocate_fd p = Some 3" by (simp add: demo_ready_def allocate_fd_def)
qed

lemma demo_ready_path:
  assumes "demo_ready k p fs a"
  shows "0 \<notin> set (cstr (lit ''/bin/xsh''))" "length (cstr (lit ''/bin/xsh'')) < 256" "0x10000 \<le> unat a"
    "unat a + length (cstr (lit ''/bin/xsh'')) < 2 ^ 47"
proof -
  have l: "length (cstr (lit ''/bin/xsh'')) = 8" by code_simp
  show "0 \<notin> set (cstr (lit ''/bin/xsh''))" "length (cstr (lit ''/bin/xsh'')) < 256" by (simp_all add: l)
  show "0x10000 \<le> unat a" "unat a + length (cstr (lit ''/bin/xsh'')) < 2 ^ 47" using assms l by (simp_all add: demo_ready_def)
qed


text \<open>
  Property C10. \<^verbatim>\<open>read\<close> from an open file into a mapped buffer copies the bytes of the archive from the offset on, as many as were asked for or as are left,
  returns their number and moves the offset behind them; nothing else in the memory of the process changes. At the
  end of the file it returns 0.
\<close>

theorem syscall_read_correct:
  assumes "kinv k" and "uspace_inv (mm k) (cr3 (mm k)) fs" and "current k = Some p"
    and "unat fd < 16" and "f = proc_fds p ! unat fd" and "fd_kind f = FD_FILE"
    and "user_range_is_valid buf count" and "mapped (mm k) buf (unat count)"
  shows "if file_size (fd_file f) \<le> fd_offset f then syscall_read fd buf count k = Some (0, k)
    else let n = min (unat count) (unat (file_size (fd_file f)) - unat (fd_offset f)) in
      \<exists>m. syscall_read fd buf count k = Some (of_nat n, (advance fd f p n k)\<lparr>mm := m\<rparr>) \<and>
        writes (cr3 (mm k)) fs (unat buf) (take n (drop (unat (fd_offset f)) (file_bytes (ramdisk_data (rdisk k)) (fd_file f)))) (mm k) m"
proof (cases "file_size (fd_file f) \<le> fd_offset f")
  case True
  have "getb (proc_fds p) (unat fd) = Some f" using assms(1,3-5) by (auto elim!: kinvE simp: proc_ok_def)
  then show ?thesis using assms True by (simp add: syscall_read_def word_le_nat_alt)
next
  case False
  then show ?thesis using read_file [OF assms(1-6) _ assms(7,8)] by (simp add: Let_def)
qed

theorem syscall_read_correct_witness:
  "\<exists>(k :: kernel) k' p buf root. syscall_read 3 buf 2 k = Some (2, k') \<and> current k' = Some p \<and> fd_offset (proc_fds p ! 3) = 2 \<and>
     bytes_at (mm k') root buf [0x7f, 69]"
proof -
  obtain k p fs a where r: "demo_ready k p fs a" by (rule demo_kernel)
  have k: "kinv k" "ramdisk_available (rdisk k)" "current k = Some p" "rdisk k = program_disk" "current_process k = Some 0"
      "bytes_at (mm k) (cr3 (mm k)) a (cstr (lit ''/bin/xsh'') @ [0])" "uspace_inv (mm k) (cr3 (mm k)) fs"
    using r program_disk_wf(2) by (auto simp: demo_ready_def)
  obtain f where f: "abs_file f = \<lparr>node_path = cstr (lit ''/bin/xsh''), node_data = Some 512, node_size = 123, node_dir = False, node_exec = True\<rparr>"
      "syscall_open a k = Some (3, set_current (set_fd 3 \<lparr>fd_kind = FD_FILE, fd_file = f, fd_offset = 0\<rparr> p) k)"
    using open_file [OF k(1-3,6) demo_ready_path [OF r]] demo_ready_fd [OF r] program_disk_lookup k(4) by auto
  let ?f = "\<lparr>fd_kind = FD_FILE, fd_file = f, fd_offset = 0\<rparr>"
  let ?p = "set_fd 3 ?f p" and ?buf = "proc_stack p"
  let ?k = "set_current ?p k"
  have fs: "file_size f = 123" "file_data f = Some 512" using f(1) by (auto simp: abs_file_def word_unat_eq_iff)
  have l: "0 < length (processes k)" "length (proc_fds p) = 16" using k(1,3) by (auto elim!: kinvE simp: proc_ok_def)
  have k1: "kinv ?k" using preservesD [OF syscall_open_kinv k(1) f(2)] .
  have cur: "current ?k = Some ?p" "mm ?k = mm k" "rdisk ?k = program_disk" "current_process ?k = Some 0"
    using k(4,5) l(1) by (simp_all add: current_def set_current_def set_process_def)
  have pf: "unat (3 :: u64) < 16" "?f = proc_fds ?p ! unat (3 :: u64)" "fd_kind ?f = FD_FILE" using l(2) by (simp_all add: set_fd_def)
  obtain ws where ws: "bytes_at (mm k) (cr3 (mm k)) ?buf (word_block ws)" "length ws = 4" "stack_lo \<le> unat ?buf" "unat ?buf + 32 \<le> stack_hi"
    using r by (auto simp: demo_ready_def)
  have buf: "user_range_is_valid ?buf 2" "mapped (mm ?k) ?buf (unat (2 :: u64))"
    using ws by (auto simp: user_range_iff cur bytes_at_def)
  have b: "take 2 (file_bytes (ramdisk_data program_disk) f) = [0x7f, 69]"
    using fs by (simp add: file_bytes_def program_disk_def demo_elf_def demo_ehdr_def demo_header_def lit_def)
  have u: "uspace_inv (mm ?k) (cr3 (mm ?k)) fs" using k(7) cur(2) by simp
  obtain m where m: "syscall_read 3 ?buf 2 ?k = Some (2, (advance 3 ?f ?p 2 ?k)\<lparr>mm := m\<rparr>)"
      "writes (cr3 (mm k)) fs (unat ?buf) [0x7f, 69] (mm k) m"
    using syscall_read_correct [OF k1 u cur(1) pf buf] fs b by (auto simp: cur Let_def)
  have "bytes_at m (cr3 (mm k)) ?buf [0x7f, 69]"
    using writes_bytes_at [of "cr3 (mm k)" fs "unat ?buf" "[]" "[0x7f, 69]" "[]" "mm k" m ?buf] m(2) ws(4) by simp
  moreover have "current ((advance 3 ?f ?p 2 ?k)\<lparr>mm := m\<rparr>) = Some (set_fd 3 (?f\<lparr>fd_offset := 2\<rparr>) ?p)"
    using cur(4) l(1) by (simp add: advance_def current_def set_current_def set_process_def k(5))
  ultimately show ?thesis using m(1) l(2) by (force simp: set_fd_def)
qed

text \<open>
  Property C17. \<^verbatim>\<open>write\<close> to descriptor 1 or 2 sends exactly the bytes of the buffer to the console devices, in order, and returns
  their number; the memory and the process table stay as they are.
\<close>

theorem syscall_write_correct:
  assumes "serial_fair (io k)" and "user_range_is_valid buf count" and "mapped (mm k) buf (unat count)" and "fd = 1 \<or> fd = 2"
  shows "\<exists>bs d. syscall_write fd buf count k = Some (count, k\<lparr>io := d\<rparr>) \<and> length bs = unat count \<and>
    bytes_at (mm k) (cr3 (mm k)) buf bs \<and> wrote (io k) bs d"
  using assms by (rule write_console)

theorem syscall_write_correct_witness:
  "\<exists>k d buf. syscall_write 1 buf 9 k = Some (9, k\<lparr>io := d\<rparr>) \<and> wrote (io k) (map chr ''/bin/xsh'' @ [0]) d"
proof -
  obtain k p fs a where r: "demo_ready k p fs a" by (rule demo_kernel)
  have t: "cstr (lit ''/bin/xsh'') @ [0] = map chr ''/bin/xsh'' @ [0]" by code_simp
  have b: "bytes_at (mm k) (cr3 (mm k)) a (map chr ''/bin/xsh'' @ [0])" "stack_lo \<le> unat a" "unat a < stack_hi" "io k = demo_io"
    using r t by (auto simp: demo_ready_def)
  have v: "user_range_is_valid a 9" "mapped (mm k) a (unat (9 :: u64))" "serial_fair (io k)"
    using b demo_io_fair by (auto simp: user_range_iff bytes_at_def)
  obtain bs d where w: "syscall_write 1 a 9 k = Some (9, k\<lparr>io := d\<rparr>)" "length bs = 9" "bytes_at (mm k) (cr3 (mm k)) a bs" "wrote (io k) bs d"
    using syscall_write_correct [OF v(3,1,2), of 1] by auto
  have "bs = map chr ''/bin/xsh'' @ [0]" using bytes_at_unique [OF w(3) b(1)] w(2) b(3) by simp
  then show ?thesis using w by blast
qed


text \<open>A process with no user page yet: its address space clones at once.\<close>

lemma for_each_idle: "\<forall>i \<in> set is. f i s = (True, s) \<Longrightarrow> for_each is f s = (True, s)"
  by (induction "is") auto

lemma clone_empty:
  assumes "tables s root = {root}" "vspace_inv s root fs"
  shows "xbks_vmm_clone_user_space root dst limit s = (True, s)"
proof -
  have "\<not> present (entry s root i)" if "i < 256" for i
  proof
    assume p: "present (entry s root i)"
    have u: "upath [i]" using that by (simp add: upath_def word_less_nat_alt)
    moreover obtain t where t: "walk s root [i] = Some t" using p by (simp add: next_table_def)
    ultimately have "t \<in> tables s root" unfolding tables_def by blast
    then have "walk s root [i] = Some root" using assms(1) t by simp
    moreover have "walk s root [] = Some root" "upath []" by (simp_all add: upath_def)
    ultimately show False using vspace_invD(5) [OF assms(2) u \<open>upath []\<close>] by blast
  qed
  then show ?thesis
    unfolding xbks_vmm_clone_user_space_def Let_def
    by (intro for_each_idle) (auto simp: set_indices entry_def present_def xbks_phys_to_virt_def word_less_nat_alt)
qed

lemma vfork_demo:
  obtains k k1 where "kinv k" "current_process k = Some 0" "syscall_vfork fr k = Some (0, k1)" "next_pid k = 2"
    "\<forall>q \<in> set (processes k). proc_pid q \<noteq> 2"
proof -
  define p where "p = (fresh_process 1)\<lparr>proc_cr3 := 0x1000\<rparr>"
  define k where "k = \<lparr>mm = new_space, io = demo_io, rdisk = program_disk,
    processes = (replicate MAX_PROCESSES zero_process)[0 := p], current_process = Some 0, next_pid = 2\<rparr>"
  have ki: "kinv k"
    using program_disk_wf(1)
    by (intro first_process_inv [of 0 p]) (simp_all add: k_def p_def fresh_process_def zero_process_def)
  have pids: "\<forall>q \<in> set (processes k). proc_pid q \<noteq> 2"
    using set_update_subset_insert [of "replicate 16 zero_process" 0 p]
    by (auto simp: k_def p_def fresh_process_def zero_process_def)
  obtain root s2 where r: "xbks_create_kernel_mapped_pml4 new_space = (root, s2)" by fastforce
  have kc: "kernel_cr3_value new_space \<notin> set [0x2000, 0x3000, 0x4000, 0x5000]" "aligned_page (kernel_cr3_value new_space)"
      "\<forall>f \<in> set [0x3000, 0x4000, 0x5000]. f AND ENTRY_ADDRESS = f"
    by (simp_all add: new_space_inv(4) aligned_page_def)
  note v = uspace_invD(1) [OF new_space_inv(1)]
  note c = create_pml4_spec [OF vspace_invD(1) [OF v] kc r]
  have "kmem s2 x = kmem new_space x" if "page_at new_space 0x1000 x" for x
    using c(9) [of x] pages_apart [of "0x1000" "0x2000" new_space x] that by (simp add: aligned_page_def)
  then have kept: "tables_kept 0x1000 new_space s2" using c(5) by (simp add: tables_kept_def new_space_inv(3))
  have "uspace_inv s2 0x1000 [0x3000, 0x4000, 0x5000]"
  proof (rule uspace_same_tables [OF new_space_inv(1) kept vspace_invD(1) [OF c(2)]])
    fix g assume "g \<in> set [0x3000, 0x4000, 0x5000 :: u64]"
    then show "g AND ENTRY_ADDRESS = g \<and> g \<notin> tables new_space 0x1000 \<and> (\<forall>va. user_va va \<longrightarrow> leaf new_space 0x1000 va \<noteq> Some g)"
      using new_space_inv(2) umem_None by (auto simp: new_space_inv(3))
  qed
  note v2 = uspace_invD(1) [OF this]
  have t2: "tables s2 0x1000 = {0x1000}" using same_tables(1) [OF kept] new_space_inv(3) by simp
  have cl: "xbks_vmm_clone_user_space 0x1000 root XBKS_USER_TOP s2 = (True, s2)" by (rule clone_empty [OF t2 v2])
  have "find_index (\<lambda>p. proc_state p = PROCESS_UNUSED) (processes k) 0 = Some 1"
    by (simp add: k_def p_def fresh_process_def zero_process_def eval_nat_numeral)
  then have "\<exists>k1. syscall_vfork fr k = Some (0, k1)"
    using r cl c(1) by (simp add: syscall_vfork_def allocate_process_def k_def p_def Let_def)
  then show ?thesis using that ki pids by (auto simp: k_def)
qed


text \<open>
  Property C16. \<^verbatim>\<open>brk\<close> with a request it accepts always ends: the pages between the old and the new break are mapped as zeroes and the break moves, or the
  break stays, and then some page was mapped already or frames ran out. A request out of range changes nothing.
\<close>

theorem syscall_brk_correct:
  assumes "current k = Some p" and "uspace_inv (mm k) (proc_cr3 p) fs"
  shows "if req = 0 \<or> req < proc_brk p \<or> 0x10000000 \<le> req then syscall_brk req k = Some (proc_brk p, k)
    else \<exists>ok m. syscall_brk req k = Some (brk_result p req ok m k) \<and>
      maps_zeroes (proc_cr3 p) ((unat (proc_brk p) + 4095) div 4096 * 4096) ((unat req + 4095) div 4096 * 4096) fs (mm k) ok m"
proof (cases "req = 0 \<or> req < proc_brk p \<or> 0x10000000 \<le> req")
  case True
  then show ?thesis using assms(1) by (auto simp: syscall_brk_def)
next
  case False
  then show ?thesis using brk_grows [OF assms, of req] by auto
qed

theorem syscall_brk_correct_witness:
  "\<exists>k p fs. current k = Some p \<and> proc_brk p = 0x800000 \<and> uspace_inv (mm k) (proc_cr3 p) fs \<and> syscall_brk 0 k = Some (0x800000, k) \<and>
     (\<exists>ok m. syscall_brk 0x800001 k = Some (brk_result p 0x800001 ok m k) \<and> maps_zeroes (proc_cr3 p) 0x800000 0x801000 fs (mm k) ok m)"
proof -
  obtain k p fs a where r: "demo_ready k p fs a" by (rule demo_kernel)
  then have c: "current k = Some p" "uspace_inv (mm k) (proc_cr3 p) fs" "proc_brk p = 0x800000" by (auto simp: demo_ready_def)
  have "syscall_brk 0 k = Some (0x800000, k)" using syscall_brk_correct [OF c(1,2), of 0] c(3) by simp
  moreover have "\<exists>ok m. syscall_brk 0x800001 k = Some (brk_result p 0x800001 ok m k) \<and> maps_zeroes (proc_cr3 p) 0x800000 0x801000 fs (mm k) ok m"
    using syscall_brk_correct [OF c(1,2), of "0x800001"] c(3) by simp
  ultimately show ?thesis using c by blast
qed



end
