(* ===== verification/Boot_Props.thy ===== *)
theory Boot_Props
  imports Boot Syscall_Props
begin

text \<open>
  The properties of the boot path: what each stage establishes, and that together they lead to the first program.
\<close>

section \<open>A machine to boot\<close>

definition demo_memmap :: "limine_memmap_entry list" where
  "demo_memmap = [\<lparr>me_base = 0, me_length = 0x9000, me_type = LIMINE_MEMMAP_RESERVED\<rparr>,
     \<lparr>me_base = 0x100000, me_length = 0x100000, me_type = LIMINE_MEMMAP_USABLE\<rparr>]"

definition demo_info :: xbks_boot_info where
  "demo_info = \<lparr>bi_bootloader = None, bi_cmdline = None, bi_firmware = 0, bi_hhdm = Some 0xffff800000000000,
     bi_memmap = Some demo_memmap, bi_executable_file = 0,
     bi_framebuffer = Some \<lparr>framebuffer_count = 1, framebuffers = Some [Some \<lparr>fb_address = 0xfd000000, fb_width = 1024,
       fb_height = 768, fb_pitch = 4096, fb_bpp = 32, fb_masks = [8, 16, 8, 8, 8, 0]\<rparr>]\<rparr>,
     bi_modules = Some [Some demo_module]\<rparr>"

definition demo_platform :: platform where
  "demo_platform = \<lparr>flanterm_fb_init_alpha = (\<lambda>args. 0), flanterm_fb_init = (\<lambda>args. 0x5000), gdt_address = 0xffffffff80001000,
     syscall_entry_address = 0xffffffff80002000, shell_line = replicate 128 0\<rparr>"

definition demo_cpu :: cpu_state where
  "demo_cpu = \<lparr>msr = (\<lambda>r. 0x500), gdtr = \<lparr>gdt_limit = 0, gdt_base = 0\<rparr>, seg_cs = 0, seg_ss = 0, seg_ds = 0, seg_es = 0\<rparr>"

definition demo_machine :: machine where
  "demo_machine = \<lparr>m_kernel = demo_boot\<lparr>mm := boot_mm\<rparr>, m_cpu = demo_cpu, m_alpha = replicate 93184 0\<rparr>"

lemma demo_pages: "usable_pages demo_memmap = whole_pages 0x100000 0x200000"
  by (simp add: usable_pages_def demo_memmap_def region_def)

lemma demo_pages_card: "80 \<le> card (usable_pages demo_memmap)"
proof -
  have "list_all (\<lambda>g. 0x100000 \<le> g \<and> g \<le> 0x1ff000 \<and> g \<noteq> 0 \<and> g AND 0xfff = 0) frame_list" by code_simp
  then have "set frame_list \<subseteq> usable_pages demo_memmap"
    by (auto simp: list_all_iff demo_pages whole_pages_def aligned_page_def word_le_nat_alt)
  then have "card (set frame_list) \<le> card (usable_pages demo_memmap)" by (intro card_mono) simp_all
  then show ?thesis using frame_list_props(1,2) distinct_card [of frame_list] by simp
qed

lemma demo_module_ok: "module_ok demo_module" "drawable demo_module"
proof -
  have l: "length (ramdisk_data program_disk) = 1024" by (simp add: program_disk_def demo_header_def lit_def demo_elf_length)
  then show "module_ok demo_module" by (simp add: module_ok_def demo_module_def)
  have "read_u32 (ramdisk_data program_disk) = Some 0x62696e2f"
    by (simp add: program_disk_def demo_header_def lit_def read_u32_def getb_def)
  then have "parse_ttf (ramdisk_data program_disk) 1024 = Some None"
    by (simp add: parse_ttf_def range_is_valid_def)
  then show "drawable demo_module" by (simp add: drawable_def demo_module_def)
qed

lemma demo_bootable: "bootable demo_info demo_machine" "memory_reported demo_info demo_machine demo_memmap"
proof -
  have k: "m_kernel demo_machine = demo_boot\<lparr>mm := boot_mm\<rparr>" by (simp add: demo_machine_def)
  have b: "booted (demo_boot\<lparr>mm := boot_mm\<rparr>)" "no_frames boot_mm" "io demo_boot = demo_io"
    using demo_boot_ok(1) by (simp_all add: booted_def no_frames_def boot_mm_def demo_boot_def)
  show "bootable demo_info demo_machine"
    using b demo_boot_ok(2) demo_module_ok demo_io_fair
    by (simp add: bootable_def k demo_info_def module_list_ok_def framebuffers_ok_def) (simp add: demo_machine_def)
  have "align_down (cr3 boot_mm) XBKS_PAGE_SIZE \<notin> usable_pages demo_memmap"
    by (simp add: demo_pages whole_pages_def boot_mm_def align_down_def)
  then show "memory_reported demo_info demo_machine demo_memmap"
    by (simp add: memory_reported_def k demo_info_def memmap_ok_def) (simp add: demo_memmap_def)
qed

section \<open>Properties\<close>

text \<open>
  Property C1. The kernel boots. On a machine as the boot loader leaves it, with a usable memory map and a boot archive
  that holds a loadable \<^verbatim>\<open>/bin/xsh\<close>, \<^verbatim>\<open>xbks_kernel_main\<close> gets through all its stages, whatever frame buffer, font module and terminal emulator
  it finds: it ends in user mode at the entry point of the program with interrupts on, on the page tables and the stack of
  the first process, with its segments, arguments and environment in place, the processor set up for system calls and the invariant of
  the kernel established.
\<close>

theorem kernel_main_enters_user:
  assumes "bootable bi m" and "memory_reported bi m es"
    and "xbks_ramdisk_init (bi_modules bi) = Some (True, rd, fmt)"
    and "xbks_ramdisk_find rd (Some (lit ''/bin/xsh'')) = Some (Some file)" and "loadable (ramdisk_data rd) file base h segs"
    and "seg_frames segs + 65 \<le> card (usable_pages es)"
  shows "\<exists>regs m'. xbks_kernel_main pf (Some bi) m = Some (Entered regs m') \<and>
    g_rip regs = e_entry h \<and> g_rsp regs = proc_stack (processes (m_kernel m') ! 0) \<and> bit (g_rflags regs) 9 \<and>
    syscalls_ready (gdt_address pf) (syscall_entry_address pf) (m_cpu m') \<and> kinv (m_kernel m') \<and>
    current_process (m_kernel m') = Some 0 \<and> cr3 (mm (m_kernel m')) = proc_cr3 (processes (m_kernel m') ! 0) \<and>
    program_ready (ramdisk_data rd) base segs [lit ''xsh''] [lit ''PATH=/bin:/sbin:/usr/bin''] (processes (m_kernel m') ! 0) (mm (m_kernel m'))"
  using assms by (rule kernel_main_enters)

theorem kernel_main_enters_user_witness:
  "\<exists>regs m'. xbks_kernel_main demo_platform (Some demo_info) demo_machine = Some (Entered regs m') \<and> g_rip regs = 0x10000"
proof -
  obtain f where f: "xbks_ramdisk_find program_disk (Some (lit ''/bin/xsh'')) = Some (Some f)"
      "loadable (ramdisk_data program_disk) f 512 (ehdr_of demo_ehdr) [phdr_of demo_phdr]"
    by (rule program_disk_loadable)
  have mods: "xbks_ramdisk_init (bi_modules demo_info) = Some (True, program_disk, Some (lit ''RAMDISK loaded: %llu bytes''))"
    using demo_boot_ok(3) by (simp add: demo_info_def)
  have n: "seg_frames [phdr_of demo_phdr] + 65 \<le> card (usable_pages demo_memmap)"
    using demo_pages_card by (simp add: seg_frames_def demo_seg_bounds)
  show ?thesis
    using kernel_main_enters_user [OF demo_bootable mods f n, of demo_platform] demo_elf_headers(3) by auto
qed

text \<open>
  Property C7. \<^verbatim>\<open>xbks_mm_init\<close> gives the frame allocator exactly the whole pages of the usable regions of the memory map, each once, so that every
  other type of memory stays untouched: no byte outside of these pages changes. It sets the offset of the direct map and the
  page tables of the kernel from the registers it finds, and only writes to the log besides.
\<close>

theorem mm_init_correct:
  assumes "serial_fair d" and "no_frames m" and "bi_hhdm boot_info = Some h" and "bi_memmap boot_info = Some es" and "memmap_ok h es"
  shows "\<exists>m' d' fs. xbks_mm_init boot_info m d = Some (m', d') \<and> pmm_inv m' fs \<and> set fs = usable_pages es \<and> heard d d' \<and>
    only_pages (usable_pages es) (m\<lparr>hhdm_offset_value := h, kernel_cr3_value := align_down (cr3 m) XBKS_PAGE_SIZE\<rparr>) m'"
  using mm_init_runs [OF heard_refl [OF assms(1)] assms(2-5)] by (auto elim!: runsE)

theorem mm_init_correct_witness:
  "\<exists>m' d' fs. xbks_mm_init demo_info boot_mm demo_io = Some (m', d') \<and> pmm_inv m' fs \<and> set fs = whole_pages 0x100000 0x200000"
proof -
  have "no_frames boot_mm" "bi_hhdm demo_info = Some 0xffff800000000000" "bi_memmap demo_info = Some demo_memmap"
      "memmap_ok 0xffff800000000000 demo_memmap"
    using demo_bootable(2) by (simp_all add: no_frames_def boot_mm_def memory_reported_def demo_info_def)
  from mm_init_correct [OF demo_io_fair this] show ?thesis unfolding demo_pages by blast
qed



text \<open>
  Property C6. System calls keep the registers of the program. The frame that the entry code builds on the stack has the registers under
  the names the C code gives them. A call other than \<^verbatim>\<open>execve\<close> and \<^verbatim>\<open>exit\<close> goes on behind the \<^verbatim>\<open>syscall\<close> with its result in
  \<^verbatim>\<open>rax\<close> and all other registers as they were but for \<^verbatim>\<open>rcx\<close> and \<^verbatim>\<open>r11\<close>, which the instruction itself uses; an \<^verbatim>\<open>execve\<close>
  that succeeds goes on at the entry point and on the stack of the new program.
\<close>

theorem system_calls_keep_registers:
  "frame_at (save_registers (syscall_insn c r)) = frame_of r \<and>
   (xbks_syscall_dispatch (frame_of r) k = Some (Returns v frame k') \<and> g_rax r \<notin> {59, 60, 231} \<longrightarrow>
      user_syscall c r k = Some (Resumed (after_call v r) k')) \<and>
   (xbks_syscall_dispatch (frame_of r) k = Some (Returns 0 ((frame_of r)\<lparr>user_rip := e, user_rsp := st\<rparr>) k') \<longrightarrow>
      (\<exists>r'. user_syscall c r k = Some (Resumed r' k') \<and> g_rip r' = e \<and> g_rsp r' = st \<and> g_rax r' = 0))"
  using frame_of_syscall ordinary_call_returns execve_enters by blast

definition demo_regs :: "u64 \<Rightarrow> user_regs" where
  "demo_regs n = (xbks_x86_64_enter_user 0x10000 0x7fff0000)\<lparr>g_rax := n, g_rbx := 7\<rparr>"

theorem system_calls_keep_registers_witness:
  "user_syscall demo_cpu (demo_regs 102) demo_boot = Some (Resumed (after_call 0 (demo_regs 102)) demo_boot)"
proof -
  have "xbks_syscall_dispatch (frame_of (demo_regs 102)) demo_boot = Some (Returns 0 (frame_of (demo_regs 102)) demo_boot)"
    by (simp add: xbks_syscall_dispatch_def xbks_process_syscall_dispatch_def demo_regs_def)
  then show ?thesis
    using system_calls_keep_registers [of demo_cpu "demo_regs 102" demo_boot 0 "frame_of (demo_regs 102)" demo_boot]
    by (simp add: demo_regs_def)
qed

text \<open>
  Property C5. \<^verbatim>\<open>vfork\<close> returns twice. First the child goes on behind the call with the result 0 and the registers of the parent; when it
  exits, from whatever registers and with whatever memory and devices it has left, the parent goes on behind the same call with
  its own registers, the number of the child as the result, and its own page tables.
\<close>

theorem vfork_returns_twice:
  assumes "kinv k" and "current_process k = Some i" and "g_rax r = 58" and "syscall_vfork (frame_of r) k = Some (0, k1)"
    and "g_rax r2 = 60"
  shows "user_syscall c r k = Some (Resumed (after_call 0 r) k1) \<and>
    (\<exists>k2. user_syscall c r2 (k1\<lparr>mm := m, io := d\<rparr>) = Some (Resumed (after_call (scast (next_pid k)) r) k2) \<and>
      current_process k2 = Some i \<and> processes k2 ! i = processes k ! i \<and> cr3 (mm k2) = proc_cr3 (processes k ! i))"
  using assms by (rule vfork_then_exit)

theorem vfork_returns_twice_witness:
  "\<exists>(k :: kernel) k1 k2. user_syscall demo_cpu (demo_regs 58) k = Some (Resumed (after_call 0 (demo_regs 58)) k1) \<and>
     user_syscall demo_cpu (demo_regs 60) k1 = Some (Resumed (after_call 2 (demo_regs 58)) k2)"
proof -
  obtain k k1 where k: "kinv k" "current_process k = Some 0" "syscall_vfork (frame_of (demo_regs 58)) k = Some (0, k1)" "next_pid k = 2"
      "\<forall>q \<in> set (processes k). proc_pid q \<noteq> 2" by (rule vfork_demo)
  have "g_rax (demo_regs n) = n" for n by (simp add: demo_regs_def)
  from vfork_returns_twice [OF k(1,2) this k(3) this, where c = demo_cpu and m = "mm k1" and d = "io k1"] k(4) show ?thesis by auto
qed



end
