(* ===== verification/Font_Props.thy ===== *)
theory Font_Props
  imports Font_Bitmap
begin

text \<open>
  The properties of the system font, and a small font to try them on: two glyphs, the second one the triangle
  that its format 12 character map gives to the letter A.
\<close>

section \<open>A small font\<close>

definition be16 :: "nat \<Rightarrow> u8 list" where
  "be16 n = [of_nat (n div 256), of_nat n]"

definition be32 :: "nat \<Rightarrow> u8 list" where
  "be32 n = be16 (n div 65536) @ be16 (n mod 65536)"

definition table_record :: "string \<Rightarrow> nat \<Rightarrow> nat \<Rightarrow> u8 list" where
  "table_record tag offset len = map chr tag @ be32 0 @ be32 offset @ be32 len"

definition demo_cmap :: "u8 list" where
  "demo_cmap = be16 0 @ be16 1 @ be16 3 @ be16 1 @ be32 12 @
     be16 12 @ be16 0 @ be32 28 @ be32 0 @ be32 1 @ be32 65 @ be32 65 @ be32 1"

definition demo_glyph :: "u8 list" where
  "demo_glyph = be16 1 @ be16 0 @ be16 0 @ be16 500 @ be16 700 @ be16 2 @ be16 0 @ [0x31, 0x21, 0x01] @
     be16 500 @ be16 65286 @ be16 700 @ [0]"

definition demo_font :: "u8 list" where
  "demo_font = be32 0x10000 @ be16 7 @ be16 0 @ be16 0 @ be16 0 @
     table_record ''cmap'' 124 40 @ table_record ''glyf'' 270 24 @ table_record ''head'' 164 54 @
     table_record ''hhea'' 218 36 @ table_record ''hmtx'' 260 4 @ table_record ''loca'' 264 6 @
     table_record ''maxp'' 254 6 @
     demo_cmap @
     be16 0 @ be32 0 @ be32 0 @ be32 0 @ be32 0 @ be16 1000 @ be16 0 @ be32 0 @ be32 0 @ be32 0 @ be32 0 @ be32 0 @ be32 0 @ be32 0 @ be32 0 @
     be32 0 @ be16 800 @ be16 65336 @ be16 0 @ be32 0 @ be32 0 @ be32 0 @ be32 0 @ be32 0 @ be32 0 @ be16 1 @
     be32 0 @ be16 2 @
     be16 500 @ be16 0 @
     be16 0 @ be16 0 @ be16 12 @
     demo_glyph"

definition demo_table :: "nat \<Rightarrow> u64 \<Rightarrow> ttf_table" where
  "demo_table off n = \<lparr>tbl_data = drop off demo_font, tbl_size = n\<rparr>"

definition demo_ttf :: ttf_font where
  "demo_ttf = (new_font demo_font 294)\<lparr>cmap := demo_table 124 40, glyf := demo_table 270 24, head := demo_table 164 54,
     hhea := demo_table 218 36, hmtx := demo_table 260 4, loca := demo_table 264 6, maxp := demo_table 254 6,
     cmap_subtable := Some (drop 136 demo_font), cmap_subtable_size := 28, num_glyphs := 2, number_of_hmetrics := 1,
     units_per_em := 1000, ascent := 800, descent := - 200\<rparr>"

lemmas demo_bytes = demo_font_def demo_cmap_def demo_glyph_def table_record_def be16_def be32_def chr_def

lemma demo_font_length: "length demo_font = 294"
  by (simp add: demo_bytes)

lemma demo_records:
  "map (\<lambda>i. (tag_from_string (drop (12 + i * 16) demo_font), read_u32 (drop (20 + i * 16) demo_font), read_u32 (drop (24 + i * 16) demo_font))) [0, 1, 2, 3, 4, 5, 6] =
   [(Some TAG_CMAP, Some 124, Some 40), (Some TAG_GLYF, Some 270, Some 24), (Some TAG_HEAD, Some 164, Some 54),
    (Some TAG_HHEA, Some 218, Some 36), (Some TAG_HMTX, Some 260, Some 4), (Some TAG_LOCA, Some 264, Some 6), (Some TAG_MAXP, Some 254, Some 6)]"
  by (simp add: demo_bytes read_u32_def tag_from_string_def getb_def)

lemma demo_numbers:
  "read_u32 demo_font = Some 0x10000" "read_u16 (drop 4 demo_font) = Some 7"
  "read_u16 (drop 182 demo_font) = Some 1000" "read_s16 (drop 214 demo_font) = Some 0"
  "read_s16 (drop 222 demo_font) = Some 800" "read_s16 (drop 224 demo_font) = Some (- 200)" "read_s16 (drop 226 demo_font) = Some 0"
  "read_u16 (drop 252 demo_font) = Some 1" "read_u16 (drop 258 demo_font) = Some 2"
  "read_u16 (drop 126 demo_font) = Some 1" "read_u16 (drop 128 demo_font) = Some 3" "read_u16 (drop 130 demo_font) = Some 1"
  "read_u32 (drop 132 demo_font) = Some 12" "read_u16 (drop 136 demo_font) = Some 12" "read_u32 (drop 140 demo_font) = Some 28"
  by (simp_all add: demo_bytes read_u16_def read_s16_def read_u32_def getb_def)

lemma demo_indices: "indices 0 7 = [0, 1, 2, 3, 4, 5, 6]" "indices 0 (Suc 0) = [0]"
  by (simp_all add: indices_def upt_rec)

lemma demo_tables:
  assumes "f = new_font demo_font 294"
  shows "get_table f TAG_CMAP = Some (Some (demo_table 124 40))" "get_table f TAG_GLYF = Some (Some (demo_table 270 24))"
    "get_table f TAG_HEAD = Some (Some (demo_table 164 54))" "get_table f TAG_HHEA = Some (Some (demo_table 218 36))"
    "get_table f TAG_HMTX = Some (Some (demo_table 260 4))" "get_table f TAG_LOCA = Some (Some (demo_table 264 6))"
    "get_table f TAG_MAXP = Some (Some (demo_table 254 6))" "get_table f TAG_OS_2 = Some None"
  using demo_records unfolding assms
  by (simp_all add: get_table_def new_font_def at_def demo_numbers demo_indices range_is_valid_def demo_table_def)

lemma demo_font_parses: "parse_ttf demo_font 294 = Some (Some demo_ttf)"
proof -
  have f: "new_font demo_font 294 = new_font demo_font 294" ..
  show ?thesis
    by (simp add: parse_ttf_def demo_tables [OF f] demo_numbers chain_def range_is_valid_def read_head_fields_def at_def Let_def
        fields_refused_def select_cmap_subtable_def usable_subtable_def demo_indices demo_ttf_def)
      (simp add: demo_table_def demo_numbers range_is_valid_def new_font_def zero_table_def select_cmap_subtable_def usable_subtable_def at_def demo_indices
        chain_def)
qed

lemma demo_ttf_wf: "wf_font demo_ttf"
  using parse_ttf_safe [of 294 demo_font] demo_font_parses by (simp add: demo_font_length)

lemma demo_ttf_tall: "tall demo_ttf"
  by (simp add: tall_def line_box_def demo_ttf_def new_font_def)

definition demo_font_module :: limine_file where
  "demo_font_module = \<lparr>lf_address = Some demo_font, lf_size = 294, lf_string = Some (lit ''system-font''), lf_path = Some (lit ''/boot/system.ttf'')\<rparr>"

section \<open>Properties\<close>

text \<open>
  Property C35. No font file makes the loader fault: for every file, of whatever contents, \<^verbatim>\<open>parse_ttf\<close> returns, and for every
  glyph number of a font it accepts \<^verbatim>\<open>load_glyph_outline\<close> returns too, whatever the tables, the glyph and the components it refers to contain.
  No byte outside of the file is read, no array is left, no sum overflows; the points and contours fit their
  arrays and the coordinates stay below \<open>2 ^ 24\<close>. Composite glyphs that contain themselves end at the depth limit.
\<close>

theorem font_files_never_fault:
  assumes "unat sz = length data"
  shows "\<exists>parsed. parse_ttf data sz = Some parsed \<and>
    (\<forall>f glyph. parsed = Some f \<longrightarrow> (\<exists>g. glyph_for_codepoint f glyph = Some g \<and>
      (\<exists>loaded. load_glyph_outline f g 0 = Some loaded \<and> (\<forall>ol. loaded = Some ol \<longrightarrow> outline_ok (2 ^ 24) ol))))"
proof -
  obtain parsed where p: "parse_ttf data sz = Some parsed" "pred_option wf_font parsed"
    using parse_ttf_safe [of sz data] assms by (auto simp: safe_def runs_def)
  have "\<exists>g. glyph_for_codepoint f glyph = Some g \<and>
      (\<exists>loaded. load_glyph_outline f g 0 = Some loaded \<and> (\<forall>ol. loaded = Some ol \<longrightarrow> outline_ok (2 ^ 24) ol))"
    if "parsed = Some f" for f glyph
  proof -
    have wf: "wf_font f" using p(2) that by simp
    obtain g where g: "glyph_for_codepoint f glyph = Some g" using glyph_for_codepoint_runs [OF wf] by (auto simp: runs_def)
    obtain r where r: "load_glyph_outline f g 0 = Some r" "pred_option (outline_ok (coord_bound 9)) r"
      using load_glyph_outline_safe [OF wf] by (auto simp: safe_def runs_def)
    have "coord_bound 9 \<le> 2 ^ 24" by (simp add: coord_bound_def)
    then show ?thesis using g r by (auto intro: outline_ok_mono)
  qed
  then show ?thesis using p(1) by blast
qed

theorem font_files_never_fault_witness:
  "\<exists>f g loaded. parse_ttf demo_font 294 = Some (Some f) \<and> glyph_for_codepoint f 65 = Some g \<and> load_glyph_outline f g 0 = Some loaded"
proof -
  have "unat (294 :: u64) = length demo_font" by (simp add: demo_font_length)
  from font_files_never_fault [OF this] show ?thesis unfolding demo_font_parses by blast
qed

text \<open>
  Property C36. The lookup of a glyph is the lookup in the character map. For the formats 4 and 12 and segments in
  ascending order, a character in a segment gets the glyph that the segment gives it, and every other character gets glyph 0.
\<close>

theorem glyph_for_codepoint_correct:
  assumes "wf_font f" and "cmap_subtable f = Some sub" and "sz = cmap_subtable_size f"
  shows "(u16_at sub 0 = 12 \<and> n = unat (u32_at sub 12) \<and> 16 + 12 * n \<le> unat sz \<and> ascending (group_start sub) (group_stop sub) [0..<n] \<longrightarrow>
      glyph_for_codepoint f c = Some (segment_glyph (group_start sub) (group_stop sub) (group_glyph sub c) c [0..<n])) \<and>
    (u16_at sub 0 = 4 \<and> n = unat (u16_at sub 6) div 2 \<and> 16 + 8 * n \<le> unat sz \<and> c \<le> 0xffff \<and>
       ascending (segment_start sub n) (segment_stop sub) [0..<n] \<longrightarrow>
      glyph_for_codepoint f c = Some (segment_glyph (segment_start sub n) (segment_stop sub) (range_glyph sub sz n c) c [0..<n]))"
  using glyph_for_codepoint_12 [OF assms(1,2), of n c] glyph_for_codepoint_4 [OF assms(1,2), of n c] assms(3)
  by (auto simp: first_hit_segment)

theorem glyph_for_codepoint_correct_witness:
  "glyph_for_codepoint demo_ttf 65 = Some 1 \<and> glyph_for_codepoint demo_ttf 66 = Some 0"
proof -
  let ?sub = "drop 136 demo_font"
  define sub where "sub = ?sub"
  have sub: "cmap_subtable demo_ttf = Some sub" "cmap_subtable_size demo_ttf = 28" by (simp_all add: demo_ttf_def sub_def)
  have v: "u16_at sub 0 = 12" "u32_at sub 12 = 1" "u32_at sub 16 = 65" "u32_at sub 20 = 65" "u32_at sub 24 = 1"
    by (simp_all add: sub_def u16_at_def u32_at_def demo_bytes read_u16_def read_u32_def getb_def)
  have a: "ascending (group_start sub) (group_stop sub) [0..<1]" using v by (simp add: ascending_def group_start_def group_stop_def)
  have "glyph_for_codepoint demo_ttf c = Some (segment_glyph (group_start sub) (group_stop sub) (group_glyph sub c) c [0..<1])" for c
    using glyph_for_codepoint_correct [OF demo_ttf_wf sub(1) refl, of 1 c] a v(1,2) by (simp add: sub(2))
  then show ?thesis using v by (simp add: segment_glyph_def group_start_def group_stop_def group_glyph_def)
qed



end
