(* ===== verification/Userland.thy ===== *)
theory Userland
  imports Boot_Memory Syscalls Ramdisk_Tree
begin

text \<open>
  The early userland, \<^verbatim>\<open>kernel/userland.c\<close>: programs that are loaded into fixed arenas of the kernel and called as functions, with a
  table of calls back into the kernel. The boot path no longer uses it.

  The programs are not part of the kernel: what \<^verbatim>\<open>entry(...)\<close> does is the parameter \<open>enter\<close> of
  the functions that call a program. It gets the address, the number of arguments and the state, and returns the status and the state. Programs share the memory of
  the kernel; paths are given as the strings that the pointers point to, and the archive is not part of the memory.
\<close>

section \<open>State\<close>

record userland =
  u_mem :: mem
  u_io :: io_state
  u_disk :: ramdisk
  command_running :: bool

record arenas =
  xsh_exec_base :: u64
  xsh_exec_end :: u64
  cmd_exec_base :: u64
  cmd_exec_end :: u64

abbreviation XBKS_EACCES :: nat where "XBKS_EACCES \<equiv> 13"
abbreviation XBKS_EBUSY :: nat where "XBKS_EBUSY \<equiv> 16"
abbreviation XBKS_USER_DIRENT_FILE :: u64 where "XBKS_USER_DIRENT_FILE \<equiv> 1"
abbreviation XBKS_USER_DIRENT_DIR :: u64 where "XBKS_USER_DIRENT_DIR \<equiv> 2"

type_synonym enter = "u64 \<Rightarrow> u32 \<Rightarrow> userland \<Rightarrow> (u32 \<times> userland) option"

definition fails :: "nat \<Rightarrow> userland \<Rightarrow> (u64 \<times> userland) option" where
  "fails e s = Some (negative_errno e, s)"

definition user_buffer_is_valid :: "u64 \<Rightarrow> u64 \<Rightarrow> bool" where
  "user_buffer_is_valid buffer count = (if count = 0 then True else buffer \<noteq> 0)"

section \<open>Console and files\<close>

fun read_chars_loop :: "u64 \<Rightarrow> nat \<Rightarrow> userland \<Rightarrow> userland option" where
  "read_chars_loop out 0 s = Some s"
| "read_chars_loop out (Suc n) s = do {
     (ch, d) \<leftarrow> xbks_keyboard_read_char_blocking (u_io s);
     read_chars_loop (out + 1) n (s\<lparr>u_io := d, u_mem := (u_mem s)(out := ch)\<rparr>) }"

definition user_api_read :: "u32 \<Rightarrow> u64 \<Rightarrow> u64 \<Rightarrow> userland \<Rightarrow> (u64 \<times> userland) option" where
  "user_api_read fd buffer count s =
     (if fd \<noteq> 0 then fails XBKS_EBADF s
      else if \<not> user_buffer_is_valid buffer count then fails XBKS_EFAULT s
      else map_option (Pair count) (read_chars_loop buffer (unat count) s))"

definition bytes_of :: "mem \<Rightarrow> u64 \<Rightarrow> nat \<Rightarrow> u8 list" where
  "bytes_of m a n = map (\<lambda>i. m (a + of_nat i)) [0..<n]"

definition user_api_write :: "u32 \<Rightarrow> u64 \<Rightarrow> u64 \<Rightarrow> userland \<Rightarrow> (u64 \<times> userland) option" where
  "user_api_write fd buffer count s =
     (if fd \<noteq> 1 \<and> fd \<noteq> 2 then fails XBKS_EBADF s
      else if \<not> user_buffer_is_valid buffer count then fails XBKS_EFAULT s
      else do {
        d \<leftarrow> xbks_console_write (bytes_of (u_mem s) buffer (unat count)) (u_io s);
        Some (count, s\<lparr>u_io := d\<rparr>) })"

definition user_api_exists :: "u8 list option \<Rightarrow> userland \<Rightarrow> (u64 \<times> userland) option" where
  "user_api_exists path s =
     (if path = None then fails XBKS_EFAULT s
      else do {
        found \<leftarrow> xbks_ramdisk_find (u_disk s) path;
        Some (if found \<noteq> None then 1 else 0, s) })"

definition user_api_file_size :: "u8 list option \<Rightarrow> userland \<Rightarrow> (u64 \<times> userland) option" where
  "user_api_file_size path s =
     (if path = None then fails XBKS_EFAULT s
      else do {
        found \<leftarrow> xbks_ramdisk_find (u_disk s) path;
        case found of
          None \<Rightarrow> fails XBKS_ENOENT s
        | Some f \<Rightarrow> if directory f then fails XBKS_EISDIR s else Some (file_size f, s) })"

definition user_api_read_file :: "u8 list option \<Rightarrow> u64 \<Rightarrow> u64 \<Rightarrow> u64 \<Rightarrow> userland \<Rightarrow> (u64 \<times> userland) option" where
  "user_api_read_file path offset buffer count s =
     (if path = None \<or> \<not> user_buffer_is_valid buffer count then fails XBKS_EFAULT s
      else do {
        found \<leftarrow> xbks_ramdisk_find (u_disk s) path;
        case found of
          None \<Rightarrow> fails XBKS_ENOENT s
        | Some f \<Rightarrow>
            if directory f then fails XBKS_EISDIR s
            else if offset \<ge> file_size f then Some (0, s)
            else do {
              let left = file_size f - offset;
              let available = (if count < left then count else left);
              data \<leftarrow> file_data f;
              bytes \<leftarrow> slice (ramdisk_data (u_disk s)) (unat (data + offset)) (unat available);
              Some (available, s\<lparr>u_mem := write_bytes (u_mem s) buffer bytes\<rparr>) } })"

definition basename :: "u8 list \<Rightarrow> u8 list option" where
  "basename path = base_name path path"

text \<open>The bytes that \<^verbatim>\<open>copy_string_limited\<close> stores at \<^verbatim>\<open>dest\<close>; \<^term>\<open>None\<close> is a read behind the source.\<close>

fun copy_string_limited :: "nat \<Rightarrow> u8 list \<Rightarrow> u8 list option" where
  "copy_string_limited 0 src = Some []"
| "copy_string_limited (Suc 0) src = Some [0]"
| "copy_string_limited (Suc (Suc n)) [] = None"
| "copy_string_limited (Suc (Suc n)) (c # src) =
     (if c \<noteq> 0 then map_option ((#) c) (copy_string_limited (Suc n) src) else Some [0])"

text \<open>
  \<^verbatim>\<open>struct xbks_user_dirent\<close>: the name in 128 bytes, the size, the type and the executable flag.
\<close>

definition user_api_read_dir :: "u8 list option \<Rightarrow> u64 \<Rightarrow> u64 \<Rightarrow> userland \<Rightarrow> (u64 \<times> userland) option" where
  "user_api_read_dir path index out s =
     (if path = None \<or> out = 0 then fails XBKS_EFAULT s
      else do {
        found \<leftarrow> xbks_ramdisk_read_dir (u_disk s) path index;
        case found of
          None \<Rightarrow> fails XBKS_ENOENT s
        | Some f \<Rightarrow> do {
            base \<leftarrow> basename (file_path f);
            name \<leftarrow> copy_string_limited 128 base;
            let m1 = write_bytes (u_mem s) out name;
            let m2 = write_bytes m1 (out + 128) (to_le 8 (file_size f));
            let m3 = write_bytes m2 (out + 136) (to_le 4 (if directory f then XBKS_USER_DIRENT_DIR else XBKS_USER_DIRENT_FILE));
            let m4 = write_bytes m3 (out + 140) (to_le 4 (if executable f then 1 else 0));
            Some (0, s\<lparr>u_mem := m4\<rparr>) } })"

section \<open>Programs\<close>

definition run_loaded_image :: "enter \<Rightarrow> xbks_ramdisk_file \<Rightarrow> u64 \<Rightarrow> u64 \<Rightarrow> u32 \<Rightarrow> userland \<Rightarrow> (u64 \<times> userland) option" where
  "run_loaded_image enter file arena_base arena_size argc s =
     (if directory file then fails XBKS_EISDIR s
      else if \<not> executable file then fails XBKS_EACCES s
      else do {
        (loaded, m) \<leftarrow> xbks_elf_load_image (ramdisk_data (u_disk s)) (Some file) arena_base arena_size (u_mem s);
        case loaded of
          None \<Rightarrow> fails XBKS_ENOEXEC (s\<lparr>u_mem := m\<rparr>)
        | Some img \<Rightarrow> do {
            (status, s') \<leftarrow> enter (image_entry img) argc (s\<lparr>u_mem := m\<rparr>);
            Some (scast status, s') } })"

definition user_api_exec :: "arenas \<Rightarrow> enter \<Rightarrow> u8 list option \<Rightarrow> u32 \<Rightarrow> u64 \<Rightarrow> userland \<Rightarrow> (u64 \<times> userland) option" where
  "user_api_exec a enter path argc argv s =
     (if path = None \<or> sint argc < 0 \<or> argv = 0 then fails XBKS_EFAULT s
      else if command_running s then fails XBKS_EBUSY s
      else do {
        found \<leftarrow> xbks_ramdisk_find (u_disk s) path;
        case found of
          None \<Rightarrow> fails XBKS_ENOENT s
        | Some file \<Rightarrow> do {
            (status, s') \<leftarrow> run_loaded_image enter file (cmd_exec_base a) (cmd_exec_end a - cmd_exec_base a) argc
              (s\<lparr>command_running := True\<rparr>);
            Some (status, s'\<lparr>command_running := False\<rparr>) } })"

definition log_user :: "xbks_log_level \<Rightarrow> u8 list \<Rightarrow> userland \<Rightarrow> userland option" where
  "log_user level message s = map_option (\<lambda>d. s\<lparr>u_io := d\<rparr>) (xbks_log_write level message (u_io s))"

definition xbks_userland_start :: "arenas \<Rightarrow> enter \<Rightarrow> xbks_boot_info option \<Rightarrow> userland \<Rightarrow> (bool \<times> userland) option" where
  "xbks_userland_start a enter boot_info s0 =
     (case boot_info of
        None \<Rightarrow> Some (False, s0)
      | Some bi \<Rightarrow> do {
          (ok, rd, fmt) \<leftarrow> xbks_ramdisk_init (bi_modules bi);
          d1 \<leftarrow> (case fmt of None \<Rightarrow> Some (u_io s0)
                 | Some t \<Rightarrow> xbks_log_printf XBKS_LOG_INFO t [ArgLong (ramdisk_size rd)] (u_io s0));
          let s = s0\<lparr>u_disk := rd, u_io := d1\<rparr>;
          if \<not> ok then
            map_option (Pair False) (log_user XBKS_LOG_WARN (lit ''no RAMDISK module found; falling back to kernel shell'') s)
          else do {
            found \<leftarrow> xbks_ramdisk_find rd (Some (lit ''/bin/xsh''));
            case found of
              None \<Rightarrow> map_option (Pair False)
                (log_user XBKS_LOG_WARN (lit ''RAMDISK has no /bin/xsh; falling back to kernel shell'') s)
            | Some file \<Rightarrow> do {
                (loaded, m) \<leftarrow> xbks_elf_load_image (ramdisk_data rd) (Some file) (xsh_exec_base a) (xsh_exec_end a - xsh_exec_base a) (u_mem s);
                case loaded of
                  None \<Rightarrow> map_option (Pair False) (log_user XBKS_LOG_ERROR (lit ''failed to load /bin/xsh as ELF64'') (s\<lparr>u_mem := m\<rparr>))
                | Some img \<Rightarrow> do {
                    s2 \<leftarrow> log_user XBKS_LOG_INFO (lit ''starting XiaobaiOS user shell /bin/xsh'')
                      (s\<lparr>u_mem := m, u_io := xbks_keyboard_init (u_io s)\<rparr>);
                    (status, s3) \<leftarrow> enter (image_entry img) 1 s2;
                    d4 \<leftarrow> xbks_log_printf XBKS_LOG_INFO (lit ''/bin/xsh returned status %d'') [ArgInt status] (u_io s3);
                    Some (True, s3\<lparr>u_io := d4\<rparr>) } } } })"

section \<open>Reading files\<close>

definition node_bytes :: "u8 list \<Rightarrow> ram_node \<Rightarrow> u8 list" where
  "node_bytes data node = (case node_data node of None \<Rightarrow> [] | Some d \<Rightarrow> take (node_size node) (drop d data))"

lemma read_window:
  assumes bound: "unat d + unat (file_size f) \<le> length data" "length data < 2 ^ 64" and off: "offset < file_size f"
    and avail: "available = (if count < file_size f - offset then count else file_size f - offset)"
  shows "slice data (unat (d + offset)) (unat available) =
      Some (take (unat count) (drop (unat offset) (take (unat (file_size f)) (drop (unat d) data))))"
    "unat available = min (unat count) (unat (file_size f) - unat offset)"
proof -
  have lt: "unat offset < unat (file_size f)" using off by (simp add: word_less_nat_alt)
  have sub: "unat (file_size f - offset) = unat (file_size f) - unat offset" using off by (simp add: unat_sub word_le_nat_alt lt less_imp_le)
  show n: "unat available = min (unat count) (unat (file_size f) - unat offset)"
    using sub by (auto simp: avail word_less_nat_alt)
  have "unat (d + offset) = unat d + unat offset" using bound lt unat_add_lem [of d offset] by simp
  then show "slice data (unat (d + offset)) (unat available) =
      Some (take (unat count) (drop (unat offset) (take (unat (file_size f)) (drop (unat d) data))))"
    using bound lt by (simp add: slice_def n drop_take min.commute add.commute)
qed

lemma read_file_ok:
  assumes wf: "wf_ramdisk (u_disk s)" "ramdisk_available (u_disk s)" "terminated path" and buf: "user_buffer_is_valid buffer count"
  shows "case ram_lookup (tar_entries (ramdisk_data (u_disk s)) 0) (norm_path 256 (cstr path)) of
      None \<Rightarrow> user_api_read_file (Some path) offset buffer count s = fails XBKS_ENOENT s
    | Some node \<Rightarrow>
        if node_dir node then user_api_read_file (Some path) offset buffer count s = fails XBKS_EISDIR s
        else let bytes = take (unat count) (drop (unat offset) (node_bytes (ramdisk_data (u_disk s)) node)) in
          length bytes = min (unat count) (node_size node - unat offset) \<and>
          user_api_read_file (Some path) offset buffer count s =
            Some (of_nat (length bytes), s\<lparr>u_mem := write_bytes (u_mem s) buffer bytes\<rparr>)"
proof -
  let ?data = "ramdisk_data (u_disk s)"
  obtain r where r: "xbks_ramdisk_find (u_disk s) (Some path) = Some r"
      "ram_lookup (tar_entries ?data 0) (norm_path 256 (cstr path)) = map_option abs_file r"
    using ramdisk_find_apply [OF wf] by metis
  show ?thesis
  proof (cases r)
    case None
    then show ?thesis using r buf by (simp add: user_api_read_file_def)
  next
    case (Some f)
    note arch = files_in_archive [OF wf(1,3) disjI1, of f]
    show ?thesis
    proof (cases "directory f")
      case True
      then show ?thesis using r buf Some by (simp add: user_api_read_file_def abs_file_def)
    next
      case False
      then obtain d where d: "file_data f = Some d" "unat d + unat (file_size f) \<le> length ?data"
        using arch r(1) Some by (auto split: option.splits)
      have nb: "node_bytes ?data (abs_file f) = take (unat (file_size f)) (drop (unat d) ?data)"
        "node_size (abs_file f) = unat (file_size f)" "\<not> node_dir (abs_file f)"
        using d(1) False by (simp_all add: node_bytes_def abs_file_def)
      let ?bytes = "take (unat count) (drop (unat offset) (node_bytes ?data (abs_file f)))"
      have len: "length ?bytes = min (unat count) (unat (file_size f) - unat offset)" using d(2) by (simp add: nb min.commute)
      have "user_api_read_file (Some path) offset buffer count s =
          Some (of_nat (length ?bytes), s\<lparr>u_mem := write_bytes (u_mem s) buffer ?bytes\<rparr>)"
      proof (cases "offset < file_size f")
        case True
        have "length ?data < 2 ^ 64" using wf(1) by (simp add: wf_ramdisk_def)
        note w = read_window [OF d(2) this True refl, of count]
        have "\<not> file_size f \<le> offset" using True by simp
        then show ?thesis using False r(1) Some buf d(1) w(1) w(2) [symmetric]
          unfolding len by (simp add: user_api_read_file_def nb Let_def)
      next
        case False
        then have "length ?bytes = 0" unfolding len by (simp add: word_less_nat_alt)
        then have empty: "?bytes = []" by (rule length_0_conv [THEN iffD1])
        show ?thesis unfolding empty using False \<open>\<not> directory f\<close> r(1) Some buf by (simp add: user_api_read_file_def not_less)
      qed
      then show ?thesis using len r(2) Some nb by (simp add: Let_def)
    qed
  qed
qed

section \<open>Programs that run\<close>

text \<open>
  A program as the kernel sees it: it exits with a status, makes a call through the table of
  \<^verbatim>\<open>struct xbks_user_api\<close> and goes on with the result, or works on the memory and goes on with what it finds there. A program
  is a well-founded tree: every run of it ends.
\<close>

datatype api_call =
  Api_Read u32 u64 u64
| Api_Write u32 u64 u64
| Api_Exec "u8 list option" u32 u64
| Api_Exists "u8 list option"
| Api_File_Size "u8 list option"
| Api_Read_File "u8 list option" u64 u64 u64
| Api_Read_Dir "u8 list option" u64 u64

definition call_api :: "arenas \<Rightarrow> enter \<Rightarrow> api_call \<Rightarrow> userland \<Rightarrow> (u64 \<times> userland) option" where
  "call_api a enter c =
     (case c of
        Api_Read fd buffer count \<Rightarrow> user_api_read fd buffer count
      | Api_Write fd buffer count \<Rightarrow> user_api_write fd buffer count
      | Api_Exec path argc argv \<Rightarrow> user_api_exec a enter path argc argv
      | Api_Exists path \<Rightarrow> user_api_exists path
      | Api_File_Size path \<Rightarrow> user_api_file_size path
      | Api_Read_File path offset buffer count \<Rightarrow> user_api_read_file path offset buffer count
      | Api_Read_Dir path index out \<Rightarrow> user_api_read_dir path index out)"

datatype program =
  Exit u32
| Call api_call "u64 \<Rightarrow> program"
| Compute "mem \<Rightarrow> mem" "mem \<Rightarrow> program"

primrec run_program :: "arenas \<Rightarrow> enter \<Rightarrow> program \<Rightarrow> userland \<Rightarrow> (u32 \<times> userland) option" where
  "run_program a enter (Exit status) s = Some (status, s)"
| "run_program a enter (Call c next) s = do {
     (v, s') \<leftarrow> call_api a enter c s;
     run_program a enter (next v) s' }"
| "run_program a enter (Compute f next) s = run_program a enter (next (u_mem s)) (s\<lparr>u_mem := f (u_mem s)\<rparr>)"

text \<open>
  The machine, with \<open>code\<close> for the program that the memory holds at an address: a call of a program that may call programs, to a depth of \<open>n\<close>.
\<close>

primrec enter_program :: "arenas \<Rightarrow> (mem \<Rightarrow> u64 \<Rightarrow> u32 \<Rightarrow> program) \<Rightarrow> nat \<Rightarrow> enter" where
  "enter_program a code 0 = (\<lambda>address argc s. None)"
| "enter_program a code (Suc n) = (\<lambda>address argc s. run_program a (enter_program a code n) (code (u_mem s) address argc) s)"

lemma exec_busy: "command_running s \<Longrightarrow> user_api_exec a enter path argc argv s =
    fails (if path = None \<or> sint argc < 0 \<or> argv = 0 then XBKS_EFAULT else XBKS_EBUSY) s"
  by (auto simp: user_api_exec_def)

lemma read_chars_running: "read_chars_loop out n s = Some s' \<Longrightarrow> command_running s' = command_running s"
  by (induction n arbitrary: out s) (fastforce split: bind_splits)+

lemma call_keeps_running:
  assumes "call_api a enter c s = Some (v, s')" "command_running s"
  shows "command_running s'" "call_api a enter' c s = Some (v, s')"
  using assms
  by (auto simp: call_api_def exec_busy fails_def user_api_read_def user_api_write_def user_api_exists_def user_api_file_size_def
      user_api_read_file_def user_api_read_dir_def Let_def dest: read_chars_running
      split: api_call.splits if_splits bind_splits option.splits)

lemma run_program_busy: "command_running s \<Longrightarrow> run_program a enter p s = run_program a enter' p s"
proof (induction p arbitrary: s)
  case (Call c cont)
  show ?case
  proof (cases "call_api a enter c s")
    case None
    have "call_api a enter' c s = None"
    proof (cases "call_api a enter' c s")
      case (Some r)
      then show ?thesis using call_keeps_running(2) [of a enter' c s "fst r" "snd r" enter] Call.prems None by simp
    qed
    then show ?thesis using None by simp
  next
    case (Some r)
    obtain v s' where r: "r = (v, s')" by fastforce
    note c = call_keeps_running [OF Some [unfolded r] Call.prems]
    show ?thesis using Some r c(2) [of enter'] Call.IH [OF rangeI c(1), of v] by simp
  qed
qed simp_all

lemma run_image_busy:
  "command_running s \<Longrightarrow> run_loaded_image (enter_program a code (Suc m)) f b n argc s =
     run_loaded_image (enter_program a code (Suc k)) f b n argc s"
  using run_program_busy [of _ a "enter_program a code m" _ "enter_program a code k"]
  by (auto simp: run_loaded_image_def intro!: Option.bind_cong split: option.splits)

lemma exec_depth:
  "user_api_exec a (enter_program a code (Suc m)) path argc argv s = user_api_exec a (enter_program a code (Suc k)) path argc argv s"
  unfolding user_api_exec_def
  by (subst run_image_busy [of "s\<lparr>command_running := True\<rparr>" a code m _ _ _ _ k]) simp_all

lemma run_program_depth:
  "run_program a (enter_program a code (Suc m)) p s = run_program a (enter_program a code (Suc k)) p s"
proof (induction p arbitrary: s)
  case (Call c cont)
  have "call_api a (enter_program a code (Suc m)) c s = call_api a (enter_program a code (Suc k)) c s"
    unfolding call_api_def by (cases c) (simp_all only: api_call.case exec_depth [of a code m _ _ _ _ k])
  then show ?case using Call.IH by (simp del: enter_program.simps cong: Option.bind_cong)
qed simp_all

lemma enter_depth: "enter_program a code (n + 2) = enter_program a code 2"
proof -
  have "enter_program a code (Suc (Suc n)) = enter_program a code (Suc (Suc 0))"
    unfolding enter_program.simps(2) [of a code "Suc _"] by (intro ext) (rule run_program_depth)
  then show ?thesis by (simp add: numeral_2_eq_2)
qed

section \<open>Properties\<close>

definition demo_userland :: userland where
  "demo_userland = \<lparr>u_mem = (\<lambda>_. 0), u_io = demo_io, u_disk = demo_ramdisk, command_running = True\<rparr>"



text \<open>
  Property C40. Commands do not nest. A program that is started by \<^verbatim>\<open>user_api_exec\<close> cannot start another one: the call is refused with \<^verbatim>\<open>EBUSY\<close>
  and changes nothing, so that the arena of the running command is never overwritten, and when a command has ended the
  next one may start. The shell and one command are therefore all there is: a machine that allows calls
  to any depth behaves as one that allows two.
\<close>

theorem commands_do_not_nest:
  "(command_running s \<and> path \<noteq> None \<and> 0 \<le> sint argc \<and> argv \<noteq> 0 \<longrightarrow>
      user_api_exec a enter path argc argv s = Some (negative_errno XBKS_EBUSY, s)) \<and>
   (\<not> command_running s \<and> user_api_exec a enter path argc argv s = Some (v, s') \<longrightarrow> \<not> command_running s') \<and>
   enter_program a code (n + 2) = enter_program a code 2"
proof (intro conjI impI)
  show "enter_program a code (n + 2) = enter_program a code 2" by (rule enter_depth)
  assume "\<not> command_running s \<and> user_api_exec a enter path argc argv s = Some (v, s')"
  then show "\<not> command_running s'" by (auto simp: user_api_exec_def fails_def split: if_splits bind_splits option.splits)
qed (auto simp: exec_busy fails_def)

definition demo_arenas :: arenas where
  "demo_arenas = \<lparr>xsh_exec_base = 0x400000, xsh_exec_end = 0x500000, cmd_exec_base = 0x500000, cmd_exec_end = 0x600000\<rparr>"

theorem commands_do_not_nest_witness:
  "user_api_exec demo_arenas (enter_program demo_arenas (\<lambda>m address argc. Exit 0) 2) (Some (lit ''/bin/sh'')) 1 0x6000 demo_userland =
     Some (negative_errno XBKS_EBUSY, demo_userland)"
  using commands_do_not_nest [of demo_userland "Some (lit ''/bin/sh'')" 1 "0x6000" demo_arenas "enter_program demo_arenas (\<lambda>m address argc. Exit 0) 2"]
  by (simp add: demo_userland_def)

end
